(* ===== verification/Prelude.thy ===== *)
theory Prelude
  imports Main "HOL-Library.Word" "HOL-Library.Char_ord" "HOL-Library.List_Lexorder"
begin

section \<open>Shared vocabulary: C strings, character classes, results, transition systems\<close>

text \<open>
  What every component uses.  A \<^verbatim>\<open>std::string\<close> is a \<open>string\<close> (a list of 8-bit
  characters); the C library's character classes are those of the \<open>C\<close> locale, so a
  character above 127 is in none of them.  A call that may raise returns a value of
  the sum \<open>'e + 'a\<close> with \<open>Inl\<close> for the exception.  The locales at the end state
  the three contracts that several components share: stripping both ends of a
  string, delimiter-separated text, and a transition system with an invariant.
\<close>

named_theorems ctype_defs \<open>unfolds the character classes to byte ranges\<close>
named_theorems frame_simps \<open>which fields an operation leaves alone\<close>

type_synonym byte = "8 word"

subsection \<open>Character classes of the C locale\<close>

abbreviation code :: "char \<Rightarrow> nat" where
  "code c \<equiv> of_char c"

definition is_space :: "char \<Rightarrow> bool" where
  [ctype_defs]: "is_space c \<longleftrightarrow> (9 \<le> code c \<and> code c \<le> 13) \<or> code c = 32"

definition is_digit :: "char \<Rightarrow> bool" where
  [ctype_defs]: "is_digit c \<longleftrightarrow> 48 \<le> code c \<and> code c \<le> 57"

definition is_upper :: "char \<Rightarrow> bool" where
  [ctype_defs]: "is_upper c \<longleftrightarrow> 65 \<le> code c \<and> code c \<le> 90"

definition is_lower :: "char \<Rightarrow> bool" where
  [ctype_defs]: "is_lower c \<longleftrightarrow> 97 \<le> code c \<and> code c \<le> 122"

definition is_alpha :: "char \<Rightarrow> bool" where
  [ctype_defs]: "is_alpha c \<longleftrightarrow> is_upper c \<or> is_lower c"

definition is_alnum :: "char \<Rightarrow> bool" where
  [ctype_defs]: "is_alnum c \<longleftrightarrow> is_alpha c \<or> is_digit c"

definition is_cntrl :: "char \<Rightarrow> bool" where
  [ctype_defs]: "is_cntrl c \<longleftrightarrow> code c < 32 \<or> code c = 127"

definition is_blank :: "char \<Rightarrow> bool" where
  [ctype_defs]: "is_blank c \<longleftrightarrow> code c = 9 \<or> code c = 32"

definition tolower :: "char \<Rightarrow> char" where
  "tolower c = (if is_upper c then char_of (code c + 32) else c)"

definition toupper :: "char \<Rightarrow> char" where
  "toupper c = (if is_lower c then char_of (code c - 32) else c)"

lemma code_inject [simp]: "code c = code d \<longleftrightarrow> c = d"
  by (simp add: of_char_eq_iff)

lemma code_tolower [simp]: "code (tolower c) = (if is_upper c then code c + 32 else code c)"
  by (auto simp: tolower_def ctype_defs)

lemma code_toupper [simp]: "code (toupper c) = (if is_lower c then code c - 32 else code c)"
  by (auto simp: toupper_def ctype_defs)

lemma is_digit_not_space: "is_digit c \<Longrightarrow> \<not> is_space c"
  by (auto simp: ctype_defs)

lemma is_alnum_not_space: "is_alnum c \<Longrightarrow> \<not> is_space c"
  by (auto simp: ctype_defs)

lemma is_alpha_not_cntrl: "is_alpha c \<Longrightarrow> \<not> is_cntrl c"
  by (auto simp: ctype_defs)

subsection \<open>NUL-terminated views and decimal text\<close>

text \<open>\<^verbatim>\<open>s.c_str()\<close> read as a C string: everything before the first NUL.\<close>

definition c_str :: "string \<Rightarrow> string" where
  "c_str s = takeWhile (\<lambda>c. code c \<noteq> 0) s"

text \<open>
  \<^verbatim>\<open>atoi\<close>: skip white space, an optional sign, then decimal digits.  The value is
  the mathematical one; the C function is only defined when it fits an \<^verbatim>\<open>int\<close>.
\<close>

definition digit_val :: "char \<Rightarrow> nat" where
  "digit_val c = code c - 48"

fun digits_val :: "nat \<Rightarrow> string \<Rightarrow> nat" where
  "digits_val acc [] = acc"
| "digits_val acc (c # cs) = digits_val (10 * acc + digit_val c) cs"

definition atoi :: "string \<Rightarrow> int" where
  "atoi s =
     (let t = dropWhile is_space (c_str s)
      in case t of
           [] \<Rightarrow> 0
         | c # r \<Rightarrow>
             if c = CHR ''-'' then - int (digits_val 0 (takeWhile is_digit r))
             else if c = CHR ''+'' then int (digits_val 0 (takeWhile is_digit r))
             else int (digits_val 0 (takeWhile is_digit t)))"

text \<open>Decimal text of a number, as \<^verbatim>\<open>operator<<\<close> and \<^verbatim>\<open>lexical_cast\<close> write it.\<close>

fun show_nat :: "nat \<Rightarrow> string" where
  "show_nat n = (if n < 10 then [char_of (48 + n)]
                 else show_nat (n div 10) @ [char_of (48 + n mod 10)])"

declare show_nat.simps [simp del]

text \<open>Conversion to \<^verbatim>\<open>int\<close>, 32 bits wide.\<close>

definition to_int32 :: "int \<Rightarrow> int" where
  "to_int32 i = (i + 2 ^ 31) mod 2 ^ 32 - 2 ^ 31"

definition show_int :: "int \<Rightarrow> string" where
  "show_int i = (if i < 0 then CHR ''-'' # show_nat (nat (- i)) else show_nat (nat i))"

lemma digits_val_append: "digits_val acc (xs @ [c]) = 10 * digits_val acc xs + digit_val c"
  by (induction xs arbitrary: acc) auto

lemma show_nat_digits: "c \<in> set (show_nat n) \<Longrightarrow> is_digit c"
proof (induction n rule: show_nat.induct)
  case (1 n)
  then show ?case
    by (subst (asm) show_nat.simps) (auto simp: is_digit_def split: if_splits)
qed

lemma show_nat_not_Nil [simp]: "show_nat n \<noteq> []"
  by (subst show_nat.simps) simp

lemma digits_val_show_nat [simp]: "digits_val 0 (show_nat n) = n"
proof (induction n rule: show_nat.induct)
  case (1 n)
  then show ?case
    by (subst show_nat.simps) (auto simp: digits_val_append digit_val_def)
qed

lemma takeWhile_show_nat: "takeWhile is_digit (show_nat n) = show_nat n"
  by (simp add: show_nat_digits)

subsection \<open>Results\<close>

text \<open>Sequencing of calls that may raise: the first exception ends the sequence.\<close>

fun and_then :: "'e + 'a \<Rightarrow> ('a \<Rightarrow> 'e + 'b) \<Rightarrow> 'e + 'b" where
  "and_then (Inl e) k = Inl e"
| "and_then (Inr x) k = k x"

lemma and_then_Inr_iff: "and_then r k = Inr y \<longleftrightarrow> (\<exists>x. r = Inr x \<and> k x = Inr y)"
  by (cases r) auto

lemma and_then_cong:
  "r = r' \<Longrightarrow> (\<And>x. r' = Inr x \<Longrightarrow> k x = k' x) \<Longrightarrow> and_then r k = and_then r' k'"
  by (cases r') auto

subsection \<open>Searching and cutting\<close>

text \<open>\<^verbatim>\<open>std::string::find\<close> of a character; \<open>None\<close> is \<^verbatim>\<open>npos\<close>.\<close>

fun str_find :: "char \<Rightarrow> string \<Rightarrow> nat option" where
  "str_find c [] = None"
| "str_find c (x # xs) = (if x = c then Some 0 else map_option Suc (str_find c xs))"

lemma str_find_None_iff: "str_find c s = None \<longleftrightarrow> c \<notin> set s"
  by (induction s) auto

lemma str_find_SomeD:
  "str_find c s = Some i \<Longrightarrow> i < length s \<and> s ! i = c \<and> c \<notin> set (take i s)"
  by (induction s arbitrary: i) (auto split: if_splits)

lemma str_find_append: "c \<notin> set xs \<Longrightarrow> str_find c (xs @ c # ys) = Some (length xs)"
  by (induction xs) auto

subsection \<open>Stripping both ends of a string\<close>

definition strip :: "('a \<Rightarrow> bool) \<Rightarrow> 'a list \<Rightarrow> 'a list" where
  "strip P s = rev (dropWhile P (rev (dropWhile P s)))"

lemma strip_Nil [simp]: "strip P [] = []"
  by (simp add: strip_def)

lemma strip_id:
  assumes "s = [] \<or> (\<not> P (hd s) \<and> \<not> P (last s))"
  shows "strip P s = s"
proof (cases "s = []")
  case False
  with assms have "dropWhile P s = s" and "dropWhile P (rev s) = rev s"
    by (auto simp: dropWhile_eq_self_iff hd_rev)
  then show ?thesis by (simp add: strip_def)
qed simp

lemma strip_ends:
  assumes "strip P s \<noteq> []"
  shows "\<not> P (hd (strip P s)) \<and> \<not> P (last (strip P s))"
proof -
  let ?d = "dropWhile P s"
  have ne: "dropWhile P (rev ?d) \<noteq> []"
    using assms by (simp add: strip_def)
  then have last: "\<not> P (last (strip P s))"
    using hd_dropWhile [of P "rev ?d"] by (simp add: strip_def last_rev)
  obtain zs where zs: "?d = strip P s @ zs"
    using takeWhile_dropWhile_id [of P "rev ?d"] unfolding strip_def
    by (metis rev_append rev_rev_ident)
  with assms have "?d \<noteq> []" and "hd ?d = hd (strip P s)"
    by auto
  with hd_dropWhile [of P s] last show ?thesis by simp
qed

lemma strip_idem [simp]: "strip P (strip P s) = strip P s"
  using strip_ends [of P s] by (intro strip_id) auto

lemma strip_decomp:
  "\<exists>xs ys. s = xs @ strip P s @ ys \<and> list_all P xs \<and> list_all P ys"
proof -
  let ?d = "dropWhile P s"
  have 1: "s = takeWhile P s @ ?d" by simp
  have 2: "?d = strip P s @ rev (takeWhile P (rev ?d))"
    using takeWhile_dropWhile_id [of P "rev ?d"] unfolding strip_def
    by (metis rev_append rev_rev_ident)
  have "s = takeWhile P s @ strip P s @ rev (takeWhile P (rev ?d))"
    using 1 2 by metis
  moreover have "list_all P (takeWhile P s)" "list_all P (rev (takeWhile P (rev ?d)))"
    by (auto simp: list_all_iff dest: set_takeWhileD)
  ultimately show ?thesis by blast
qed

lemma strip_middle:
  assumes "list_all P xs" "list_all P ys" "m \<noteq> []" "\<not> P (hd m)" "\<not> P (last m)"
  shows "strip P (xs @ m @ ys) = m"
proof -
  have "dropWhile P (xs @ m @ ys) = m @ ys"
    using assms by (cases m) (auto simp: list_all_iff dropWhile_append)
  moreover have "dropWhile P (rev (m @ ys)) = rev m"
    using assms by (cases m rule: rev_cases) (auto simp: list_all_iff dropWhile_append)
  ultimately show ?thesis by (simp add: strip_def)
qed

lemma strip_eq_Nil_iff: "strip P s = [] \<longleftrightarrow> list_all P s"
  by (auto simp: strip_def list_all_iff dropWhile_eq_Nil_conv dest: set_dropWhileD)
     (metis dropWhile_eq_Nil_conv hd_dropWhile hd_in_set)

text \<open>
  The contract of a trimming routine: it strips the characters its predicate selects
  from both ends and nothing else.
\<close>

locale trimming =
  fixes trim_op :: "string \<Rightarrow> string" and blank :: "char \<Rightarrow> bool"
  assumes trim_is_strip: "trim_op s = strip blank s"
begin

lemma trim_idem: "trim_op (trim_op s) = trim_op s"
  by (simp add: trim_is_strip)

lemma trim_ends: "trim_op s \<noteq> [] \<Longrightarrow> \<not> blank (hd (trim_op s)) \<and> \<not> blank (last (trim_op s))"
  by (simp add: trim_is_strip strip_ends)

lemma trim_decomp: "\<exists>xs ys. s = xs @ trim_op s @ ys \<and> list_all blank xs \<and> list_all blank ys"
  by (simp add: trim_is_strip strip_decomp)

lemma trim_empty_iff: "trim_op s = [] \<longleftrightarrow> list_all blank s"
  by (simp add: trim_is_strip strip_eq_Nil_iff)

lemma trim_fixed: "s = [] \<or> (\<not> blank (hd s) \<and> \<not> blank (last s)) \<Longrightarrow> trim_op s = s"
  by (simp add: trim_is_strip strip_id)

end

subsection \<open>Transition systems with an invariant\<close>

text \<open>
  A component driven by events: an initial state, a step relation, an invariant that
  every step keeps.  The reachable states and the reduction of a safety property to
  the step lemma are stated once here.
\<close>

locale transition_system =
  fixes start :: "'s \<Rightarrow> bool" and trans :: "'s \<Rightarrow> 's \<Rightarrow> bool" and inv :: "'s \<Rightarrow> bool"
  assumes inv_start: "start s \<Longrightarrow> inv s"
    and inv_trans: "inv s \<Longrightarrow> trans s t \<Longrightarrow> inv t"
begin

lemma inv_steps: "trans\<^sup>*\<^sup>* s t \<Longrightarrow> inv s \<Longrightarrow> inv t"
  by (induction rule: rtranclp_induct) (auto intro: inv_trans)

lemma inv_reachable: "start s \<Longrightarrow> trans\<^sup>*\<^sup>* s t \<Longrightarrow> inv t"
  by (blast intro: inv_steps inv_start)

end

end
