(* ===== verification/Std_Map.thy ===== *)
theory Std_Map
  imports Prelude
begin

section \<open>Ordered maps (std::map)\<close>

text \<open>
  The sources keep headers, parameters and configuration objects in \<^verbatim>\<open>std::map\<close> and
  iterate over them, so the order matters: a map is the list of its entries in
  increasing key order.  The locale states what the clients rely on; the sorted
  association list is proved to provide it.
\<close>

fun map_put :: "'k::linorder \<Rightarrow> 'v \<Rightarrow> ('k \<times> 'v) list \<Rightarrow> ('k \<times> 'v) list" where
  "map_put k v [] = [(k, v)]"
| "map_put k v ((k', v') # m) =
     (if k < k' then (k, v) # (k', v') # m
      else if k = k' then (k, v) # m
      else (k', v') # map_put k v m)"

definition map_insert :: "'k::linorder \<Rightarrow> 'v \<Rightarrow> ('k \<times> 'v) list \<Rightarrow> ('k \<times> 'v) list" where
  "map_insert k v m = (if map_of m k = None then map_put k v m else m)"

definition map_erase :: "'k \<Rightarrow> ('k \<times> 'v) list \<Rightarrow> ('k \<times> 'v) list" where
  "map_erase k m = filter (\<lambda>e. fst e \<noteq> k) m"

definition map_ok :: "('k::linorder \<times> 'v) list \<Rightarrow> bool" where
  "map_ok m \<longleftrightarrow> sorted_wrt (<) (map fst m)"

text \<open>
  The contract: \<^verbatim>\<open>m[k] = v\<close> overwrites, \<^verbatim>\<open>insert\<close> keeps an entry that is there,
  \<^verbatim>\<open>erase\<close> removes one key, and each keeps the representation invariant.
\<close>

locale ordered_map =
  fixes put :: "'k \<Rightarrow> 'v \<Rightarrow> 'm \<Rightarrow> 'm" and erase :: "'k \<Rightarrow> 'm \<Rightarrow> 'm"
    and find :: "'m \<Rightarrow> 'k \<Rightarrow> 'v option" and ok :: "'m \<Rightarrow> bool"
  assumes find_put: "ok m \<Longrightarrow> find (put k v m) = (find m)(k \<mapsto> v)"
    and find_erase: "ok m \<Longrightarrow> find (erase k m) = (find m)(k := None)"
    and ok_put: "ok m \<Longrightarrow> ok (put k v m)"
    and ok_erase: "ok m \<Longrightarrow> ok (erase k m)"
begin

lemma find_put_same: "ok m \<Longrightarrow> find (put k v m) k = Some v"
  by (simp add: find_put)

lemma find_put_other: "ok m \<Longrightarrow> k' \<noteq> k \<Longrightarrow> find (put k v m) k' = find m k'"
  by (simp add: find_put)

lemma find_put_put: "ok m \<Longrightarrow> find (put k v (put k w m)) = find (put k v m)"
  by (simp add: find_put ok_put)

lemma find_erase_put: "ok m \<Longrightarrow> find (erase k (put k v m)) = (find m)(k := None)"
  by (simp add: find_erase find_put ok_put)

end

lemma map_ok_Nil [simp]: "map_ok []"
  by (simp add: map_ok_def)

lemma map_ok_Cons: "map_ok ((k, v) # m) \<longleftrightarrow> (\<forall>x \<in> fst ` set m. k < x) \<and> map_ok m"
  by (auto simp: map_ok_def)

lemma map_put_keys: "fst ` set (map_put k v m) = insert k (fst ` set m)"
  by (induction k v m rule: map_put.induct) auto

lemma map_put_ok [intro]: "map_ok m \<Longrightarrow> map_ok (map_put k v m)"
proof (induction k v m rule: map_put.induct)
  case (2 k v k' v' m)
  then show ?case
    by (auto simp: map_ok_Cons map_put_keys split: if_splits intro: order.strict_trans)
qed (simp add: map_ok_def)

lemma map_of_beyond: "map_ok m \<Longrightarrow> \<forall>x \<in> fst ` set m. k < x \<Longrightarrow> map_of m k = None"
  by (auto simp: map_of_eq_None_iff)

lemma map_of_put: "map_ok m \<Longrightarrow> map_of (map_put k v m) = (map_of m)(k \<mapsto> v)"
  by (induction k v m rule: map_put.induct) (auto simp: map_ok_Cons fun_eq_iff)

lemma map_erase_ok [intro]: "map_ok m \<Longrightarrow> map_ok (map_erase k m)"
  by (auto simp: map_ok_def map_erase_def sorted_wrt_map sorted_wrt_filter)

lemma map_of_erase: "map_of (map_erase k m) = (map_of m)(k := None)"
  by (induction m) (auto simp: map_erase_def fun_eq_iff)

interpretation std: ordered_map map_put map_erase map_of map_ok
  by unfold_locales (auto simp: map_of_put map_of_erase)

lemma map_of_insert:
  "map_ok m \<Longrightarrow> map_of (map_insert k v m) = (if k \<in> dom (map_of m) then map_of m else (map_of m)(k \<mapsto> v))"
  by (auto simp: map_insert_def std.find_put)

lemma map_insert_ok [intro]: "map_ok m \<Longrightarrow> map_ok (map_insert k v m)"
  by (auto simp: map_insert_def)

lemma map_ok_filter [intro]: "map_ok m \<Longrightarrow> map_ok (filter P m)"
  by (auto simp: map_ok_def sorted_wrt_map sorted_wrt_filter)

lemma map_ok_distinct: "map_ok m \<Longrightarrow> distinct (map fst m)"
  by (auto simp: map_ok_def strict_sorted_iff)

end
