(* ===== verification/Base64.thy ===== *)
theory Base64
  imports Prelude
begin

unbundle bit_operations_syntax

section \<open>Base64 (utils/src/base64.cpp)\<close>

text \<open>
  The encoder and the decoder as the loops of \<^verbatim>\<open>base64.cpp\<close>: a cursor \<open>i\<close> into a
  small array that is flushed when full, and a tail for the incomplete group.  The two
  stack arrays start with whatever is on the stack, so their first contents are an
  argument; \<open>unsigned char\<close> is an 8-bit word, and the shifts and sums of the source,
  done in \<^verbatim>\<open>int\<close> and stored back in an \<open>unsigned char\<close>, are the wrapping operations
  of the word.  A block-wise specification is given and the encoder is proved to
  implement it; the decoder inverts the encoder on every input.
\<close>

subsection \<open>The code\<close>

definition base64_chars :: string where
  "base64_chars =
     ''ABCDEFGHIJKLMNOPQRSTUVWXYZ'' @
     ''abcdefghijklmnopqrstuvwxyz'' @
     ''0123456789+/''"

definition is_base64 :: "char \<Rightarrow> bool" where
  "is_base64 c \<longleftrightarrow> is_alnum c \<or> c = CHR ''+'' \<or> c = CHR ''/''"

definition char_of_byte :: "byte \<Rightarrow> char" where
  "char_of_byte b = char_of (unat b)"

definition byte_of_char :: "char \<Rightarrow> byte" where
  "byte_of_char c = word_of_nat (code c)"

text \<open>The four 6-bit values of a full group (lines 25 to 28 and 41 to 44).\<close>

definition enc_group :: "byte list \<Rightarrow> byte list" where
  "enc_group a =
     [drop_bit 2 (a ! 0 AND 0xfc),
      push_bit 4 (a ! 0 AND 0x03) + drop_bit 4 (a ! 1 AND 0xf0),
      push_bit 2 (a ! 1 AND 0x0f) + drop_bit 6 (a ! 2 AND 0xc0),
      a ! 2 AND 0x3f]"

definition enc_char :: "byte \<Rightarrow> char" where
  "enc_char v = base64_chars ! unat v"

fun enc_loop :: "byte list \<Rightarrow> nat \<Rightarrow> byte list \<Rightarrow> string \<Rightarrow> nat \<times> byte list \<times> string" where
  "enc_loop [] i char_array_3 dst = (i, char_array_3, dst)"
| "enc_loop (b # bytes) i char_array_3 dst =
     (let char_array_3' = char_array_3[i := b]
      in if i + 1 = 3
         then enc_loop bytes 0 char_array_3' (dst @ map enc_char (enc_group char_array_3'))
         else enc_loop bytes (i + 1) char_array_3' dst)"

definition base64_encode :: "byte list \<Rightarrow> byte list \<Rightarrow> string" where
  "base64_encode stack_3 bytes =
     (case enc_loop bytes 0 stack_3 [] of
        (i, char_array_3, dst) \<Rightarrow>
          if i \<noteq> 0
          then let char_array_3' = foldl (\<lambda>a j. a[j := 0]) char_array_3 [i..<3];
                   char_array_4 = enc_group char_array_3'
               in dst @ map (\<lambda>j. enc_char (char_array_4 ! j)) [0..<i + 1] @ replicate (3 - i) CHR ''=''
          else dst)"

text \<open>
  \<^verbatim>\<open>base64_chars.find\<close> stored in an \<open>unsigned char\<close>: \<^verbatim>\<open>npos\<close> becomes \<open>0xff\<close>.
\<close>

definition base64_find :: "byte \<Rightarrow> byte" where
  "base64_find b = (case str_find (char_of_byte b) base64_chars of
                      None \<Rightarrow> 0xff | Some i \<Rightarrow> word_of_nat i)"

definition dec_group :: "byte list \<Rightarrow> byte list" where
  "dec_group a =
     [push_bit 2 (a ! 0) + drop_bit 4 (a ! 1 AND 0x30),
      push_bit 4 (a ! 1 AND 0xf) + drop_bit 2 (a ! 2 AND 0x3c),
      push_bit 6 (a ! 2 AND 0x3) + a ! 3]"

fun dec_loop :: "string \<Rightarrow> nat \<Rightarrow> byte list \<Rightarrow> string \<Rightarrow> nat \<times> byte list \<times> string" where
  "dec_loop [] i char_array_4 ret = (i, char_array_4, ret)"
| "dec_loop (c # cs) i char_array_4 ret =
     (if c \<noteq> CHR ''='' \<and> is_base64 c
      then let char_array_4' = char_array_4[i := byte_of_char c]
           in if i + 1 = 4
              then let q = map base64_find char_array_4'
                   in dec_loop cs 0 q (ret @ map char_of_byte (dec_group q))
              else dec_loop cs (i + 1) char_array_4' ret
      else (i, char_array_4, ret))"

definition base64_decode :: "byte list \<Rightarrow> string \<Rightarrow> string" where
  "base64_decode stack_4 encoded_string =
     (case dec_loop encoded_string 0 stack_4 [] of
        (i, char_array_4, ret) \<Rightarrow>
          if i \<noteq> 0
          then let char_array_4' = foldl (\<lambda>a j. a[j := 0]) char_array_4 [i..<4];
                   q = map base64_find char_array_4';
                   char_array_3 = dec_group q
               in ret @ map (\<lambda>j. char_of_byte (char_array_3 ! j)) [0..<i - 1]
          else ret)"

subsection \<open>The reference: groups of three bytes\<close>

fun b64_spec :: "byte list \<Rightarrow> string" where
  "b64_spec [] = []"
| "b64_spec [a] = map enc_char (take 2 (enc_group [a, 0, 0])) @ ''==''"
| "b64_spec [a, b] = map enc_char (take 3 (enc_group [a, b, 0])) @ ''=''"
| "b64_spec (a # b # c # bytes) = map enc_char (enc_group [a, b, c]) @ b64_spec bytes"

lemma list3: "length xs = 3 \<Longrightarrow> \<exists>a b c. xs = [a, b, c]"
  by (auto simp: length_Suc_conv numeral_3_eq_3)

lemma list4: "length xs = 4 \<Longrightarrow> \<exists>a b c d. xs = [a, b, c, d]"
  by (auto simp: length_Suc_conv eval_nat_numeral)

lemma enc_loop_spec:
  assumes "length a = 3"
  shows "(case enc_loop bytes 0 a dst of
            (i, a', d) \<Rightarrow>
              if i \<noteq> 0
              then let a'' = foldl (\<lambda>a j. a[j := 0]) a' [i..<3]; q = enc_group a''
                   in d @ map (\<lambda>j. enc_char (q ! j)) [0..<i + 1] @ replicate (3 - i) CHR ''=''
              else d) = dst @ b64_spec bytes"
  using assms
proof (induction bytes arbitrary: a dst rule: b64_spec.induct)
  case (2 x)
  then show ?case
    by (auto dest!: list3 simp: enc_group_def upt_conv_Cons numeral_2_eq_2)
next
  case (3 x y)
  then show ?case
    by (auto dest!: list3 simp: enc_group_def upt_conv_Cons numeral_2_eq_2 numeral_3_eq_3)
next
  case (4 x y z bytes)
  then show ?case
    by (auto dest!: list3 simp: numeral_2_eq_2 Let_def)
qed simp

lemma base64_encode_eq_spec:
  "length stack_3 = 3 \<Longrightarrow> base64_encode stack_3 bytes = b64_spec bytes"
  using enc_loop_spec [of stack_3 bytes "[]"]
  by (simp add: base64_encode_def Let_def)

subsection \<open>Groups: six-bit values, and decoding a group inverts encoding it\<close>

lemma all_less_8:
  "(\<forall>n<8::nat. P n) \<longleftrightarrow> P 0 \<and> P 1 \<and> P 2 \<and> P 3 \<and> P 4 \<and> P 5 \<and> P 6 \<and> P 7"
proof -
  have "n < 8 \<longleftrightarrow> n = 0 \<or> n = 1 \<or> n = 2 \<or> n = 3 \<or> n = 4 \<or> n = 5 \<or> n = 6 \<or> n = 7" for n :: nat
    by arith
  then show ?thesis by auto
qed

lemma byte_eq_iff: "(x :: byte) = y \<longleftrightarrow> (\<forall>n < 8. bit x n = bit y n)"
  by (auto intro!: bit_word_eqI)

lemmas byte_bits = byte_eq_iff all_less_8 bit_simps

lemma add_is_or: "(x :: byte) AND y = 0 \<Longrightarrow> x + y = x OR y"
  by (rule disjunctive_add) (metis bit_0_eq bit_and_iff bot_apply bot_bool_def)

lemma enc_second:
  "push_bit 4 (a AND 0x03) + drop_bit 4 (b AND 0xf0) =
   push_bit 4 (a AND 0x03) OR drop_bit 4 (b AND (0xf0 :: byte))"
  by (rule add_is_or) (simp add: byte_bits)

lemma enc_third:
  "push_bit 2 (a AND 0x0f) + drop_bit 6 (b AND 0xc0) =
   push_bit 2 (a AND 0x0f) OR drop_bit 6 (b AND (0xc0 :: byte))"
  by (rule add_is_or) (simp add: byte_bits)

lemma nth_small:
  "(x # xs) ! 0 = x" "(x # y # xs) ! 1 = y" "(x # y # z # xs) ! 2 = z" "(x # y # z # w # xs) ! 3 = w"
  by (simp_all add: numeral_2_eq_2 numeral_3_eq_3)

lemma enc_group_or:
  "enc_group [a, b, c] =
     [drop_bit 2 (a AND 0xfc),
      push_bit 4 (a AND 0x03) OR drop_bit 4 (b AND 0xf0),
      push_bit 2 (b AND 0x0f) OR drop_bit 6 (c AND 0xc0),
      c AND 0x3f]"
  by (simp only: enc_group_def nth_small enc_second enc_third)

lemma dec_first:
  "push_bit 2 (drop_bit 2 (a AND 0xfc)) +
   drop_bit 4 ((push_bit 4 (a AND 0x03) OR drop_bit 4 (b AND (0xf0 :: byte))) AND 0x30) = a"
  by (subst add_is_or; simp add: byte_bits) (simp add: numeral_2_eq_2 numeral_3_eq_3)

lemma dec_second:
  "push_bit 4 ((push_bit 4 (a AND 0x03) OR drop_bit 4 (b AND (0xf0 :: byte))) AND 0xf) +
   drop_bit 2 ((push_bit 2 (b AND 0x0f) OR drop_bit 6 (c AND (0xc0 :: byte))) AND 0x3c) = b"
  by (subst add_is_or; simp add: byte_bits)

lemma dec_third:
  "push_bit 6 ((push_bit 2 (b AND 0x0f) OR drop_bit 6 (c AND (0xc0 :: byte))) AND 0x3) +
   (c AND 0x3f) = c"
  by (subst add_is_or; simp add: byte_bits)

lemma dec_enc_group: "dec_group (enc_group [a, b, c]) = [a, b, c]"
  by (simp only: enc_group_or dec_group_def nth_small dec_first dec_second dec_third)

lemma six_bits:
  assumes "(v :: byte) AND 0xc0 = 0"
  shows "unat v < 64"
proof -
  have "v = take_bit 6 v"
    using assms by (simp add: byte_bits)
  moreover have "unat (take_bit 6 v) < 2 ^ 6"
    using take_bit_nat_less_exp [of 6 "unat v"] by (simp add: unsigned_take_bit_eq)
  ultimately show ?thesis by simp
qed

lemma enc_group_six_bits: "v \<in> set (enc_group [a, b, c]) \<Longrightarrow> unat v < 64"
  by (rule six_bits) (auto simp: enc_group_or byte_bits)

subsection \<open>The alphabet\<close>

lemma str_find_nth: "distinct s \<Longrightarrow> i < length s \<Longrightarrow> str_find (s ! i) s = Some i"
proof (induction s arbitrary: i)
  case (Cons x xs)
  then show ?case by (cases i) auto
qed simp

lemma base64_chars_distinct: "distinct base64_chars"
  by code_simp

lemma base64_chars_length [simp]: "length base64_chars = 64"
  by (simp add: base64_chars_def)

lemma base64_chars_classes: "list_all (\<lambda>c. is_base64 c \<and> c \<noteq> CHR ''='') base64_chars"
  by code_simp

lemma char_of_byte_of_char [simp]: "char_of_byte (byte_of_char c) = c"
  by (simp add: char_of_byte_def byte_of_char_def unat_of_nat)

lemma base64_find_enc_char:
  "unat v < 64 \<Longrightarrow> base64_find (byte_of_char (enc_char v)) = v"
  by (simp add: base64_find_def enc_char_def str_find_nth base64_chars_distinct)

lemma enc_char_class:
  "unat v < 64 \<Longrightarrow> is_base64 (enc_char v) \<and> enc_char v \<noteq> CHR ''=''"
  using base64_chars_classes by (simp add: enc_char_def list_all_length)

subsection \<open>The decoder inverts the encoder\<close>

lemma enc_group_elems:
  "enc_group [a, b, c] = [p, q, r, s] \<Longrightarrow> unat p < 64 \<and> unat q < 64 \<and> unat r < 64 \<and> unat s < 64"
  using enc_group_six_bits [of _ a b c] by auto

lemma dec_loop_group:
  assumes "length a = 4" and "enc_group [x, y, z] = [p, q, r, s]"
  shows "dec_loop (map enc_char [p, q, r, s] @ cs) 0 a ret =
         dec_loop cs 0 [p, q, r, s] (ret @ map char_of_byte [x, y, z])"
proof -
  have "map char_of_byte (dec_group [p, q, r, s]) = map char_of_byte [x, y, z]"
    using dec_enc_group [of x y z] assms(2) by simp
  then show ?thesis
    using assms(1) enc_group_elems [OF assms(2)]
    by (auto dest!: list4 simp: enc_char_class base64_find_enc_char numeral_2_eq_2 numeral_3_eq_3)
qed

lemma dec_group_prefix:
  assumes "enc_group [x, y, z] = [p, q, r, s]"
  shows "dec_group [p, q, u, v] ! 0 = x" and "dec_group [p, q, r, v] ! 1 = y"
  using dec_enc_group [of x y z] assms
  by (auto simp: dec_group_def numeral_2_eq_2)

lemma dec_loop_spec:
  assumes "length a = 4"
  shows "(case dec_loop (b64_spec bytes) 0 a ret of
            (i, a', d) \<Rightarrow>
              if i \<noteq> 0
              then let a'' = foldl (\<lambda>a j. a[j := 0]) a' [i..<4];
                       q = map base64_find a''; char_array_3 = dec_group q
                   in d @ map (\<lambda>j. char_of_byte (char_array_3 ! j)) [0..<i - 1]
              else d) = ret @ map char_of_byte bytes"
  using assms
proof (induction bytes arbitrary: a ret rule: b64_spec.induct)
  case (2 x)
  obtain p q r s where g: "enc_group [x, 0, 0] = [p, q, r, s]"
    by (simp add: enc_group_def)
  from "2" show ?case
    using enc_group_elems [OF g] dec_group_prefix(1) [OF g]
    by (auto dest!: list4 simp: g enc_char_class base64_find_enc_char upt_conv_Cons
        numeral_2_eq_2 numeral_3_eq_3)
next
  case (3 x y)
  obtain p q r s where g: "enc_group [x, y, 0] = [p, q, r, s]"
    by (simp add: enc_group_def)
  from "3" show ?case
    using enc_group_elems [OF g] dec_group_prefix [OF g]
    by (auto dest!: list4 simp: g enc_char_class base64_find_enc_char upt_conv_Cons
        numeral_2_eq_2 numeral_3_eq_3)
next
  case (4 x y z bytes)
  obtain p q r s where g: "enc_group [x, y, z] = [p, q, r, s]"
    by (simp add: enc_group_def)
  from "4.IH" [of "[p, q, r, s]" "ret @ map char_of_byte [x, y, z]"]
  show ?case
    using dec_loop_group [OF "4.prems" g, of "b64_spec bytes" ret] by (simp add: g)
qed simp

text \<open>
  C30: decoding what the encoder produced gives the bytes back, for every input and
  whatever the stack arrays of the two routines held before.
\<close>

theorem base64_roundtrip:
  assumes "length stack_3 = 3" and "length stack_4 = 4"
  shows "base64_decode stack_4 (base64_encode stack_3 bytes) = map char_of_byte bytes"
  using dec_loop_spec [OF assms(2), of bytes "[]"]
  by (simp add: base64_encode_eq_spec [OF assms(1)] base64_decode_def Let_def)

theorem base64_roundtrip_witness:
  "base64_decode [7, 7, 7, 7] (base64_encode [9, 9, 9] [77, 97, 110, 33]) = ''Man!''"
proof -
  have "base64_decode [7, 7, 7, 7] (base64_encode [9, 9, 9] [77, 97, 110, 33]) =
        map char_of_byte [77, 97, 110, 33]"
    by (rule base64_roundtrip) simp_all
  also have "\<dots> = ''Man!''"
    by code_simp
  finally show ?thesis .
qed

subsection \<open>The shape of the text\<close>

lemma b64_spec_length: "length (b64_spec bytes) = 4 * ((length bytes + 2) div 3)"
proof (induction bytes rule: b64_spec.induct)
  case (4 x y z bytes)
  have "(length (x # y # z # bytes) + 2) div 3 = Suc ((length bytes + 2) div 3)"
    by simp
  with "4" show ?case by (simp add: enc_group_def)
qed (simp_all add: enc_group_def)

lemma b64_spec_alphabet: "c \<in> set (b64_spec bytes) \<Longrightarrow> c \<in> set base64_chars \<or> c = CHR ''=''"
proof (induction bytes rule: b64_spec.induct)
  case (2 x)
  then show ?case
    using enc_group_six_bits [of _ x 0 0] by (auto simp: enc_char_def dest!: in_set_takeD)
next
  case (3 x y)
  then show ?case
    using enc_group_six_bits [of _ x y 0] by (auto simp: enc_char_def dest!: in_set_takeD)
next
  case (4 x y z bytes)
  then show ?case
    using enc_group_six_bits [of _ x y z] by (auto simp: enc_char_def)
qed simp



end
