(* ===== verification/String_Util.thy ===== *)
theory String_Util
  imports Std_Map
begin

section \<open>String utilities (utils/src/utils.cpp, class StringUtil)\<close>

text \<open>
  The static methods of \<^verbatim>\<open>StringUtil\<close>: splitting into a vector, a set and a map,
  trimming (two implementations), case conversion, boolean text, hexadecimal text and
  URI encoding and decoding.  An out-parameter is part of the result; a return code is
  the first component of the pair.  \<open>trim\<close> and \<open>space_trim\<close> are both proved to
  provide the contract \<open>trimming\<close>, \<open>split\<close> the contract \<open>delimited\<close>.
\<close>

subsection \<open>Splitting\<close>

function split_vec :: "string \<Rightarrow> char \<Rightarrow> string list" where
  "split_vec str d =
     (case str_find d str of
        None \<Rightarrow> [str]
      | Some pos \<Rightarrow> take pos str # split_vec (drop (pos + 1) str) d)"
  by pat_completeness auto
termination
  by (relation "measure (\<lambda>(str, d). length str)") (auto dest: str_find_SomeD)

declare split_vec.simps [simp del]

text \<open>
  \<^verbatim>\<open>std::getline\<close> until it fails: no item for an empty rest, so a trailing delimiter
  adds none.
\<close>

function getlines :: "string \<Rightarrow> char \<Rightarrow> string list" where
  "getlines str d =
     (if str = [] then []
      else case str_find d str of
             None \<Rightarrow> [str]
           | Some pos \<Rightarrow> take pos str # getlines (drop (pos + 1) str) d)"
  by pat_completeness auto
termination
  by (relation "measure (\<lambda>(str, d). length str)") (auto dest: str_find_SomeD)

declare getlines.simps [simp del]

definition split_set :: "string \<Rightarrow> char \<Rightarrow> string set" where
  "split_set str d = set (getlines str d)"

subsection \<open>Trimming\<close>

text \<open>
  \<^verbatim>\<open>src.substr(start_pos, length)\<close> with an \<^verbatim>\<open>int\<close> length: a negative one converts to a
  huge \<^verbatim>\<open>size_t\<close> and the whole rest is taken.
\<close>

definition substr_int :: "string \<Rightarrow> nat \<Rightarrow> int \<Rightarrow> string" where
  "substr_int s pos len = (if len < 0 then drop pos s else take (nat len) (drop pos s))"

fun leading :: "('a \<Rightarrow> bool) \<Rightarrow> 'a list \<Rightarrow> nat" where
  "leading P [] = 0"
| "leading P (c # cs) = (if P c then Suc (leading P cs) else 0)"

definition space_trim :: "string \<Rightarrow> string" where
  "space_trim src =
     (let start_pos = leading is_space src;
          len = int (length src) - int start_pos - int (leading is_space (rev src))
      in substr_int src start_pos len)"

text \<open>The scan of \<open>trim\<close> from the right stops at \<open>start\<close>; \<open>e\<close> is \<open>end + 1\<close>.\<close>

fun trim_end :: "string \<Rightarrow> nat \<Rightarrow> nat \<Rightarrow> nat" where
  "trim_end s start 0 = 0"
| "trim_end s start (Suc e) =
     (if start \<le> e \<and> \<not> (code (s ! e) \<ge> 128 \<or> \<not> is_space (s ! e)) then trim_end s start e else Suc e)"

definition trim :: "string \<Rightarrow> string" where
  "trim src =
     (let start = leading (\<lambda>c. \<not> (code c \<ge> 128 \<or> \<not> is_space c)) src;
          e = trim_end src start (length src)
      in if e \<le> start then [] else take (e - start) (drop start src))"

definition is_empty :: "string \<Rightarrow> bool" where
  "is_empty src \<longleftrightarrow> length src = 0 \<or> list_all (\<lambda>c. is_space (char_of (code c mod 128))) (c_str src)"

subsection \<open>Replacement, case, booleans\<close>

definition replace :: "string \<Rightarrow> char \<Rightarrow> char \<Rightarrow> nat \<times> string" where
  "replace src s d = (length (filter (\<lambda>c. c = s) src), map (\<lambda>c. if c = s then d else c) src)"

definition to_lower :: "string \<Rightarrow> string" where
  "to_lower src = map tolower src"

definition to_upper :: "string \<Rightarrow> string" where
  "to_upper src = map toupper src"

definition s_trues :: "string list" where
  "s_trues = [''yes'', ''y'', ''sure'', ''true'', ''t'', ''ok'', ''1'']"

definition to_bool :: "string \<Rightarrow> bool" where
  "to_bool sval =
     (let lval = to_lower (space_trim (c_str sval))
      in if c_str lval \<in> set s_trues then True else atoi lval \<noteq> 0)"

definition int64_to_str :: "int \<Rightarrow> string" where
  "int64_to_str ival = show_int ival"

subsection \<open>Splitting into a map\<close>

text \<open>
  One line of the inner loop: \<open>None\<close> is the early \<^verbatim>\<open>return -1\<close>, \<open>Some\<close> the entry
  inserted.
\<close>

definition split_entry :: "char \<Rightarrow> bool \<Rightarrow> string \<Rightarrow> (string \<times> string) option" where
  "split_entry minor accept line =
     (case split_vec line minor of
        [] \<Rightarrow> None
      | [n] \<Rightarrow> Some (space_trim n, '''')
      | [n, v] \<Rightarrow> Some (space_trim n, space_trim v)
      | n # _ \<Rightarrow>
          if \<not> accept then None
          else Some (space_trim n,
                     space_trim (drop (Suc (the (str_find minor line))) line)))"

fun split_map_lines ::
  "char \<Rightarrow> bool \<Rightarrow> string list \<Rightarrow> (string \<times> string) list \<Rightarrow> int \<times> (string \<times> string) list" where
  "split_map_lines minor accept [] result = (0, result)"
| "split_map_lines minor accept (line # lines) result =
     (case split_entry minor accept line of
        None \<Rightarrow> (- 1, result)
      | Some (name, value) \<Rightarrow> split_map_lines minor accept lines (map_insert name value result))"

definition split_map ::
  "string \<Rightarrow> char \<Rightarrow> char \<Rightarrow> (string \<times> string) list \<Rightarrow> bool \<Rightarrow> bool \<Rightarrow> int \<times> (string \<times> string) list" where
  "split_map str major minor result accept truncate =
     split_map_lines minor accept (split_vec str major) (if truncate then [] else result)"

subsection \<open>Hexadecimal and URI text\<close>

definition hex_digits :: string where
  "hex_digits = ''0123456789ABCDEF''"

definition to_hex_char :: "char \<Rightarrow> string" where
  "to_hex_char c = [hex_digits ! (code c div 16), hex_digits ! (code c mod 16)]"

definition to_hex :: "string \<Rightarrow> string" where
  "to_hex src = concat (map to_hex_char src)"

definition is_hex_char :: "char \<Rightarrow> bool" where
  "is_hex_char c \<longleftrightarrow> (48 \<le> code c \<and> code c \<le> 57) \<or> (97 \<le> code c \<and> code c \<le> 102)
                   \<or> (65 \<le> code c \<and> code c \<le> 70)"

definition to_bin :: "char \<Rightarrow> nat" where
  "to_bin c =
     (if 48 \<le> code c \<and> code c \<le> 57 then code c - 48
      else if 97 \<le> code c \<and> code c \<le> 102 then code c - 97 + 10
      else if 65 \<le> code c \<and> code c \<le> 70 then code c - 65 + 10
      else 0xff)"

definition unreserved :: "char \<Rightarrow> bool" where
  "unreserved c \<longleftrightarrow> is_alnum c \<or> c = CHR ''_'' \<or> c = CHR ''-'' \<or> c = CHR ''~'' \<or> c = CHR ''.''"

definition uri_encode_char :: "bool \<Rightarrow> char \<Rightarrow> string" where
  "uri_encode_char encode_slash c =
     (if unreserved c then [c]
      else if c = CHR ''/'' then (if encode_slash then CHR ''%'' # to_hex_char c else [c])
      else CHR ''%'' # to_hex_char c)"

definition uri_encode :: "string \<Rightarrow> bool \<Rightarrow> string" where
  "uri_encode input encode_slash = concat (map (uri_encode_char encode_slash) input)"

datatype uri_state = NORMALSTATE | PERCENTAPPEARSTATE | PERCENTANDHEXCHARAPPEARSTATE | ERRORSTATE

text \<open>
  One turn of the loop.  The byte \<open>o\<close> is a local of the loop body, zero on every
  turn: what the first hex digit stores in it is gone when the second one arrives.
\<close>

definition uri_decode_step :: "uri_state \<Rightarrow> string \<Rightarrow> char \<Rightarrow> uri_state \<times> string" where
  "uri_decode_step state ss c =
     (let ob = (0 :: nat)
      in case state of
           NORMALSTATE \<Rightarrow>
             if c = CHR ''%'' then (PERCENTAPPEARSTATE, ss)
             else if is_alnum c \<or> c = CHR ''.'' \<or> c = CHR ''~'' \<or> c = CHR ''-'' \<or> c = CHR ''_'' \<or> c = CHR ''/''
                  then (NORMALSTATE, ss @ [c])
                  else (ERRORSTATE, ss)
         | PERCENTAPPEARSTATE \<Rightarrow>
             if is_hex_char c then (PERCENTANDHEXCHARAPPEARSTATE, ss) else (ERRORSTATE, ss)
         | PERCENTANDHEXCHARAPPEARSTATE \<Rightarrow>
             if is_hex_char c then (NORMALSTATE, ss @ [char_of (ob + to_bin c)]) else (ERRORSTATE, ss)
         | ERRORSTATE \<Rightarrow> (ERRORSTATE, ss))"

fun uri_decode_loop :: "string \<Rightarrow> uri_state \<Rightarrow> string \<Rightarrow> uri_state \<times> string" where
  "uri_decode_loop [] state ss = (state, ss)"
| "uri_decode_loop (c # cs) state ss =
     (if state = ERRORSTATE then (state, ss)
      else case uri_decode_step state ss c of (state', ss') \<Rightarrow> uri_decode_loop cs state' ss')"

definition uri_decode :: "string \<Rightarrow> string \<Rightarrow> int \<times> string" where
  "uri_decode input out =
     (case uri_decode_loop input NORMALSTATE [] of
        (state, ss) \<Rightarrow> if state \<noteq> NORMALSTATE then (- 1, out) else (0, ss))"

text \<open>\<^verbatim>\<open>sha256_hex\<close>: the keyed digest is OpenSSL's, an argument here; \<open>None\<close> is its NULL.\<close>

definition sha256_hex :: "(string \<Rightarrow> string \<Rightarrow> string option) \<Rightarrow> string \<Rightarrow> string \<Rightarrow> string" where
  "sha256_hex hmac src sk =
     (case hmac sk src of None \<Rightarrow> [] | Some md \<Rightarrow> to_lower (to_hex md))"

definition iconv :: "string \<Rightarrow> string \<Rightarrow> string \<Rightarrow> int \<times> string" where
  "iconv src from_encode to_encode = (0, src)"

subsection \<open>Both trimming routines strip white space\<close>

lemma leading_eq: "leading P s = length (takeWhile P s)"
  by (induction s) auto

lemma strip_by_lengths:
  assumes "\<not> list_all P s"
  shows "strip P s = take (length s - leading P s - leading P (rev s)) (drop (leading P s) s)"
proof -
  let ?d = "dropWhile P s"
  obtain x where x: "x \<in> set s" "\<not> P x" using assms by (auto simp: list_all_iff)
  have "rev s = rev ?d @ rev (takeWhile P s)"
    by (metis rev_append takeWhile_dropWhile_id)
  moreover have "\<exists>y \<in> set (rev ?d). \<not> P y"
    using x by (metis in_set_conv_decomp set_rev takeWhile_dropWhile_id Un_iff set_append set_takeWhileD)
  ultimately have tw: "takeWhile P (rev s) = takeWhile P (rev ?d)"
    by (metis takeWhile_append1)
  have d: "drop (leading P s) s = ?d"
    by (simp add: leading_eq dropWhile_eq_drop)
  have "strip P s = take (length ?d - length (takeWhile P (rev ?d))) ?d"
    by (simp add: strip_def dropWhile_eq_drop drop_rev)
  moreover have "length ?d = length s - leading P s"
    by (metis d length_drop)
  ultimately show ?thesis
    by (simp add: leading_eq tw flip: dropWhile_eq_drop)
qed

lemma leading_all: "list_all P s \<Longrightarrow> leading P s = length s"
  by (induction s) auto

lemma leading_rev_sum:
  assumes "\<not> list_all P s"
  shows "leading P s + leading P (rev s) \<le> length s"
proof -
  obtain x where x: "x \<in> set s" "\<not> P x" using assms by (auto simp: list_all_iff)
  then obtain ys zs where s: "s = ys @ x # zs" by (meson split_list)
  have "leading P s \<le> length ys"
    unfolding leading_eq s by (induction ys) (auto simp: x)
  moreover have "leading P (rev s) \<le> length zs"
    unfolding leading_eq s by (induction zs rule: rev_induct) (auto simp: x)
  ultimately show ?thesis by (simp add: s)
qed

lemma space_trim_strip: "space_trim s = strip is_space s"
proof (cases "list_all is_space s")
  case True
  then have "space_trim s = []"
    by (cases s) (auto simp: space_trim_def substr_int_def leading_all list_all_iff Let_def)
  with True show ?thesis by (metis strip_eq_Nil_iff)
next
  case False
  from leading_rev_sum [OF this] show ?thesis
    by (simp add: space_trim_def substr_int_def Let_def strip_by_lengths [OF False] nat_diff_distrib
        flip: of_nat_diff)
qed

lemma trim_end_eq:
  "start \<le> e \<Longrightarrow> e \<le> length s \<Longrightarrow>
   trim_end s start e = start + (e - start - leading is_space (rev (take (e - start) (drop start s))))"
proof (induction s start e rule: trim_end.induct)
  case (2 s start e)
  show ?case
  proof (cases "start \<le> e")
    case True
    then have "take (Suc e - start) (drop start s) = take (e - start) (drop start s) @ [s ! e]"
      using "2.prems" by (simp add: Suc_diff_le take_Suc_conv_app_nth)
    moreover have "code (s ! e) \<ge> 128 \<Longrightarrow> \<not> is_space (s ! e)"
      by (simp add: is_space_def)
    ultimately show ?thesis
      using "2" True by (auto simp: Suc_diff_le)
  next
    case False
    with "2.prems" have "start = Suc e" by simp
    then show ?thesis by simp
  qed
qed simp

lemma trim_blank: "(\<lambda>c. \<not> (code c \<ge> 128 \<or> \<not> is_space c)) = is_space"
  by (auto simp: fun_eq_iff is_space_def)

lemma trim_strip: "trim s = strip is_space s"
proof -
  let ?st = "leading is_space s" and ?r = "drop (leading is_space s) s"
  have st: "?st \<le> length s" by (simp add: leading_eq length_takeWhile_le)
  have e: "trim_end s ?st (length s) = ?st + (length s - ?st - leading is_space (rev ?r))"
    using trim_end_eq [of ?st "length s" s] st by simp
  have "trim s = take (length ?r - leading is_space (rev ?r)) ?r"
    unfolding trim_def Let_def trim_blank e by (auto simp: add.commute)
  also have "\<dots> = strip is_space s"
    by (simp add: strip_def dropWhile_eq_drop leading_eq drop_rev)
  finally show ?thesis .
qed

interpretation trim: trimming trim is_space
  by unfold_locales (rule trim_strip)

interpretation space_trim: trimming space_trim is_space
  by unfold_locales (rule space_trim_strip)

subsection \<open>Splitting and joining\<close>

fun intercalate :: "char \<Rightarrow> string list \<Rightarrow> string" where
  "intercalate d [] = []"
| "intercalate d [p] = p"
| "intercalate d (p # q # ps) = p @ d # intercalate d (q # ps)"

lemma intercalate_Cons: "ps \<noteq> [] \<Longrightarrow> intercalate d (p # ps) = p @ d # intercalate d ps"
  by (cases ps) auto

lemma append_delim_inject:
  "d \<notin> set xs \<Longrightarrow> d \<notin> set ys \<Longrightarrow> xs @ d # us = ys @ d # vs \<Longrightarrow> xs = ys \<and> us = vs"
proof (induction xs arbitrary: ys)
  case Nil
  then show ?case by (cases ys) auto
next
  case (Cons x xs)
  then show ?case by (cases ys) auto
qed

lemma delim_in_intercalate: "ps \<noteq> [] \<Longrightarrow> d \<in> set (intercalate d (p # ps))"
  by (simp add: intercalate_Cons)

lemma intercalate_inject:
  "ps \<noteq> [] \<Longrightarrow> qs \<noteq> [] \<Longrightarrow> \<forall>p \<in> set ps. d \<notin> set p \<Longrightarrow> \<forall>q \<in> set qs. d \<notin> set q \<Longrightarrow>
   intercalate d ps = intercalate d qs \<Longrightarrow> ps = qs"
proof (induction ps arbitrary: qs)
  case (Cons p ps)
  then obtain q qs' where qs: "qs = q # qs'" by (cases qs) auto
  have "ps = [] \<longleftrightarrow> qs' = []"
    using Cons.prems qs delim_in_intercalate by (metis intercalate.simps(2) list.set_intros(1))
  then consider "ps = []" "qs' = []" | "ps \<noteq> []" "qs' \<noteq> []" by blast
  then show ?case
  proof cases
    case 1
    then show ?thesis using Cons.prems qs by simp
  next
    case 2
    with Cons.prems qs have "p @ d # intercalate d ps = q @ d # intercalate d qs'"
      by (simp add: intercalate_Cons)
    then have "p = q \<and> intercalate d ps = intercalate d qs'"
      using Cons.prems qs by (intro append_delim_inject) auto
    with Cons.IH [of qs'] Cons.prems 2 qs show ?thesis by auto
  qed
qed simp

text \<open>
  The contract of a splitter: joining the pieces gives the text back, no piece contains
  the delimiter, and there is at least one.  A splitter with these laws is unique.
\<close>

locale delimited =
  fixes split :: "string \<Rightarrow> char \<Rightarrow> string list"
  assumes split_not_Nil: "split s d \<noteq> []"
    and split_pieces: "p \<in> set (split s d) \<Longrightarrow> d \<notin> set p"
    and join_split: "intercalate d (split s d) = s"
begin

lemma split_join:
  "ps \<noteq> [] \<Longrightarrow> \<forall>p \<in> set ps. d \<notin> set p \<Longrightarrow> split (intercalate d ps) d = ps"
  using intercalate_inject [of "split (intercalate d ps) d" ps d]
  by (auto simp: split_not_Nil join_split dest: split_pieces)

lemma split_singleton: "d \<notin> set s \<Longrightarrow> split s d = [s]"
  using split_join [of "[s]" d] by simp

lemma split_Cons: "d \<notin> set p \<Longrightarrow> split (p @ d # s) d = p # split s d"
  using split_join [of "p # split s d" d]
  by (auto simp: intercalate_Cons split_not_Nil join_split dest: split_pieces)

end

lemma split_vec_not_Nil: "split_vec s d \<noteq> []"
  by (subst split_vec.simps) (simp split: option.split)

lemma split_vec_pieces: "p \<in> set (split_vec s d) \<Longrightarrow> d \<notin> set p"
proof (induction s d rule: split_vec.induct)
  case (1 s d)
  from "1.prems" show ?case
    by (subst (asm) split_vec.simps)
       (auto split: option.splits dest: "1.IH" str_find_SomeD simp: str_find_None_iff)
qed

lemma split_vec_join: "intercalate d (split_vec s d) = s"
proof (induction s d rule: split_vec.induct)
  case (1 s d)
  show ?case
  proof (cases "str_find d s")
    case None
    then show ?thesis by (simp add: split_vec.simps)
  next
    case (Some pos)
    then have "s = take pos s @ d # drop (pos + 1) s"
      by (metis Suc_eq_plus1 id_take_nth_drop str_find_SomeD)
    with Some "1.IH" show ?thesis
      by (simp add: split_vec.simps [of s d] intercalate_Cons split_vec_not_Nil)
  qed
qed

interpretation split_vec: delimited split_vec
  by unfold_locales (auto simp: split_vec_not_Nil split_vec_join dest: split_vec_pieces)

text \<open>
  \<^verbatim>\<open>StringUtil::split\<close> loses nothing: joining the pieces with the delimiter gives the
  text back and no piece contains the delimiter; and it splits every joined list of
  delimiter-free pieces back into that list.
\<close>

theorem split_join_inverse:
  "intercalate d (split_vec s d) = s \<and> (\<forall>p. p \<in> set (split_vec s d) \<longrightarrow> d \<notin> set p) \<and>
   (ps \<noteq> [] \<longrightarrow> (\<forall>p \<in> set ps. d \<notin> set p) \<longrightarrow> split_vec (intercalate d ps) d = ps)"
  by (auto simp: split_vec.join_split split_vec.split_join dest: split_vec.split_pieces)

theorem split_join_inverse_witness:
  "split_vec ''a,b,,c'' CHR '','' = [''a'', ''b'', '''', ''c'']"
proof -
  have "split_vec (intercalate CHR '','' [''a'', ''b'', '''', ''c'']) CHR '','' = [''a'', ''b'', '''', ''c'']"
    using split_join_inverse [of "CHR '',''" "[]" "[''a'', ''b'', '''', ''c'']"] by simp
  then show ?thesis by simp
qed

text \<open>
  the two trimming routines of the class, one by positions and one by counting from
  both ends, agree on every string, and the result is the middle of the input between
  two runs of white space with no white space at either end.
\<close>

theorem trim_equals_space_trim:
  "trim s = space_trim s \<and>
   (\<exists>xs ys. s = xs @ trim s @ ys \<and> list_all is_space xs \<and> list_all is_space ys) \<and>
   \<not> (trim s \<noteq> [] \<and> (is_space (hd (trim s)) \<or> is_space (last (trim s))))"
  using trim.trim_decomp [of s] trim.trim_ends [of s]
  by (auto simp: space_trim.trim_is_strip trim.trim_is_strip)

subsection \<open>URI text\<close>

lemma hex_digits_props: "list_all is_hex_char hex_digits" "length hex_digits = 16"
  by (code_simp, simp add: hex_digits_def)

lemma hex_digit_class: "n < 16 \<Longrightarrow> is_hex_char (hex_digits ! n)"
  using hex_digits_props by (simp add: list_all_length)

lemma to_bin_digits: "list_all (\<lambda>n. to_bin (hex_digits ! n) = n) [0..<16]"
  by code_simp

lemma to_bin_hex_digit: "n < 16 \<Longrightarrow> to_bin (hex_digits ! n) = n"
  using to_bin_digits by (simp add: list_all_iff)

text \<open>The character is copied, not escaped.\<close>

definition uri_plain :: "bool \<Rightarrow> char \<Rightarrow> bool" where
  "uri_plain encode_slash c \<longleftrightarrow> unreserved c \<or> (c = CHR ''/'' \<and> \<not> encode_slash)"

lemma uri_decode_plain:
  "uri_plain es c \<Longrightarrow> uri_decode_loop (c # cs) NORMALSTATE ss = uri_decode_loop cs NORMALSTATE (ss @ [c])"
  by (auto simp: uri_plain_def unreserved_def uri_decode_step_def is_alnum_def is_alpha_def
      is_upper_def is_lower_def is_digit_def)

lemma high_nibble_less [simp]: "code c div 16 < 16"
  by (rule less_mult_imp_div_less) simp

lemma uri_decode_escape:
  "uri_decode_loop (CHR ''%'' # to_hex_char c @ cs) NORMALSTATE ss =
   uri_decode_loop cs NORMALSTATE (ss @ [char_of (code c mod 16)])"
  by (simp add: to_hex_char_def uri_decode_step_def hex_digit_class to_bin_hex_digit)

lemma uri_encode_char_cases:
  "uri_encode_char es c = (if uri_plain es c then [c] else CHR ''%'' # to_hex_char c)"
  by (auto simp: uri_encode_char_def uri_plain_def)

lemma uri_decode_encode_loop:
  "uri_decode_loop (concat (map (uri_encode_char es) s) @ cs) NORMALSTATE ss =
   uri_decode_loop cs NORMALSTATE
     (ss @ map (\<lambda>c. if uri_plain es c then c else char_of (code c mod 16)) s)"
  by (induction s arbitrary: ss)
     (simp_all add: uri_encode_char_cases uri_decode_plain uri_decode_escape del: uri_decode_loop.simps)

lemma char_of_low_nibble: "char_of (code c mod 16) = c \<longleftrightarrow> code c < 16"
proof
  assume "char_of (code c mod 16) = c"
  then have "code (char_of (code c mod 16)) = code c" by simp
  then have "code c mod 16 = code c" by simp
  then show "code c < 16" by (metis mod_less_divisor zero_less_numeral)
qed simp

text \<open>
  C37: \<^verbatim>\<open>uri_decode\<close> accepts everything \<^verbatim>\<open>uri_encode\<close> writes, but it gives back only the
  low four bits of an escaped character, since the high digit is stored in a variable
  that the next turn of the loop resets.  Decoding therefore inverts encoding exactly on
  the strings whose escaped characters are below 16.
\<close>

theorem uri_decode_encode:
  "uri_decode (uri_encode s es) out =
     (0, map (\<lambda>c. if uri_plain es c then c else char_of (code c mod 16)) s) \<and>
   (snd (uri_decode (uri_encode s es) out) = s \<longleftrightarrow> list_all (\<lambda>c. uri_plain es c \<or> code c < 16) s)"
proof -
  have dec: "uri_decode (uri_encode s es) out =
     (0, map (\<lambda>c. if uri_plain es c then c else char_of (code c mod 16)) s)"
    using uri_decode_encode_loop [of es s "[]" "[]"] by (simp add: uri_decode_def uri_encode_def)
  have "map (\<lambda>c. if uri_plain es c then c else char_of (code c mod 16)) s = s \<longleftrightarrow>
        list_all (\<lambda>c. uri_plain es c \<or> code c < 16) s"
    by (induction s) (auto simp: char_of_low_nibble)
  with dec show ?thesis by simp
qed

lemma to_hex_char_class: "d \<in> set (to_hex_char c) \<Longrightarrow> is_alnum d"
  using hex_digit_class [of "code c div 16"] hex_digit_class [of "code c mod 16"]
  by (auto simp: to_hex_char_def is_hex_char_def ctype_defs)

text \<open>
  encoded text is safe to put in a URL: it holds only unreserved characters, percent
  signs and, when the caller asked to keep them, slashes; unreserved text is unchanged.
\<close>

theorem uri_encode_safe:
  "(\<forall>c. c \<in> set (uri_encode s es) \<longrightarrow> unreserved c \<or> c = CHR ''%'' \<or> (c = CHR ''/'' \<and> \<not> es)) \<and>
   (list_all unreserved s \<longrightarrow> uri_encode s es = s)"
proof -
  have "list_all unreserved s \<longrightarrow> uri_encode s es = s"
    by (induction s) (auto simp: uri_encode_def uri_encode_char_def)
  then show ?thesis
    by (auto simp: uri_encode_def uri_encode_char_def unreserved_def split: if_splits
        dest!: to_hex_char_class)
qed

theorem uri_encode_safe_witness:
  "uri_encode ''v-1.0_x~'' True = ''v-1.0_x~'' \<and> CHR ''%'' \<in> set (uri_encode ''a b'' True)"
proof -
  have "list_all unreserved ''v-1.0_x~''" by code_simp
  then have "uri_encode ''v-1.0_x~'' True = ''v-1.0_x~''"
    using uri_encode_safe [of "''v-1.0_x~''" True] by blast
  moreover have "CHR ''%'' \<in> set (uri_encode ''a b'' True)" by code_simp
  ultimately show ?thesis by blast
qed

subsection \<open>Replacement and case\<close>

lemma replace_removes: "s \<noteq> d \<Longrightarrow> s \<notin> set (snd (replace src s d))"
  by (auto simp: replace_def)

lemma replace_count: "fst (replace src s d) = count_list src s"
  by (induction src) (auto simp: replace_def)

lemma to_lower_idem [simp]: "to_lower (to_lower s) = to_lower s"
proof -
  have "tolower (tolower c) = tolower c" for c
  proof -
    have "code (tolower (tolower c)) = code (tolower c)"
      by (auto simp: is_upper_def)
    then show ?thesis by (simp only: of_char_eq_iff)
  qed
  then show ?thesis by (simp add: to_lower_def)
qed

end
