(* ===== verification/Config_Origin.thy ===== *)
theory Config_Origin
  imports Prelude
begin

section \<open>Origins of configuration values (config/src/detail/simple_config_origin.cpp)\<close>

text \<open>
  Where a token or a value came from: a description, a range of lines, a kind and the
  comments in front of it.  The constructor refuses an empty description, so every
  operation that builds an origin may raise.  Objects are immutable and compared by
  value here; the source's returns of \<^verbatim>\<open>shared_from_this()\<close> are the same value.
  \<^verbatim>\<open>int32_t\<close> line numbers are integers.
\<close>

datatype origin_type = GENERIC | FILE

record config_origin =
  desc :: string
  line_no :: int
  end_line_no :: int
  origin_type :: origin_type
  comments_or_null :: "string list"

text \<open>
  The exceptions of the configuration library that the modelled operations raise.
  \<open>NullPointer\<close> stands for a dereference of a null pointer, which the source does
  not guard, \<open>EndDereference\<close> for one of the end iterator, and \<open>BadVariantGet\<close> for \<^verbatim>\<open>boost::bad_get\<close>.
\<close>

record validation_problem =
  problem_path :: string
  problem_origin :: config_origin
  problem_text :: string

datatype config_exception =
    ConfigExceptionBugOrBroken string
  | ConfigExceptionBadPath "config_origin option" string string
  | ConfigExceptionBadValue "config_origin option" string string
  | ConfigExceptionParse config_origin string
  | ConfigExceptionNotResolved
  | ConfigExceptionIO string
  | ConfigExceptionWrongType "config_origin option" string string string
  | ConfigExceptionMissing string
  | ConfigExceptionNull config_origin string string
  | ConfigExceptionValidationFailed "validation_problem list"
  | NullPointer
  | EndDereference
  | BadVariantGet

definition make_origin ::
  "string \<Rightarrow> int \<Rightarrow> int \<Rightarrow> origin_type \<Rightarrow> string list \<Rightarrow> config_exception + config_origin" where
  "make_origin description line_number end_line_no' origin_type' comments =
     (if description = [] then Inl (ConfigExceptionBugOrBroken ''description may not be empty'')
      else Inr \<lparr>desc = description, line_no = line_number,
                end_line_no = end_line_no', origin_type = origin_type',
                comments_or_null = comments\<rparr>)"

text \<open>The class invariant: only the constructor makes origins, and it refuses an empty description.\<close>

definition origin_ok :: "config_origin \<Rightarrow> bool" where
  "origin_ok orig \<longleftrightarrow> desc orig \<noteq> []"

definition new_simple :: "string \<Rightarrow> config_exception + config_origin" where
  "new_simple description = make_origin description (- 1) (- 1) GENERIC []"

definition new_file :: "string \<Rightarrow> config_exception + config_origin" where
  "new_file filename = make_origin filename (- 1) (- 1) FILE []"

definition set_line_number :: "config_origin \<Rightarrow> int \<Rightarrow> config_exception + config_origin" where
  "set_line_number self n =
     (if n = line_no self \<and> n = end_line_no self then Inr self
      else make_origin (desc self) n n (origin_type self) (comments_or_null self))"

definition set_comments :: "config_origin \<Rightarrow> string list \<Rightarrow> config_exception + config_origin" where
  "set_comments self cs =
     (if cs = comments_or_null self then Inr self
      else make_origin (desc self) (line_no self) (end_line_no self)
             (origin_type self) cs)"

definition description :: "config_origin \<Rightarrow> string" where
  "description self =
     (if line_no self < 0 then desc self
      else if end_line_no self = line_no self
           then desc self @ '': '' @ show_int (line_no self)
           else desc self @ '': '' @ show_int (line_no self) @ ''-'' @
                show_int (end_line_no self))"

definition origin_equals :: "config_origin \<Rightarrow> config_origin \<Rightarrow> bool" where
  "origin_equals a b \<longleftrightarrow>
     desc a = desc b \<and> line_no a = line_no b \<and>
     end_line_no a = end_line_no b \<and> origin_type a = origin_type b"

text \<open>Unsigned 32-bit arithmetic; the hash of a string is the library's, an argument.\<close>

definition origin_type_code :: "origin_type \<Rightarrow> int" where
  "origin_type_code t = (case t of GENERIC \<Rightarrow> 0 | FILE \<Rightarrow> 1)"

definition origin_hash_code :: "(string \<Rightarrow> int) \<Rightarrow> (int \<Rightarrow> int) \<Rightarrow> config_origin \<Rightarrow> int" where
  "origin_hash_code hash_string hash_uint32 self =
     (let h = 41 * (41 + hash_string (desc self)) mod 2 ^ 32;
          h = 41 * (h + line_no self) mod 2 ^ 32;
          h = 41 * (h + end_line_no self) mod 2 ^ 32
      in 41 * (h + hash_uint32 (origin_type_code (origin_type self))) mod 2 ^ 32)"

definition origin_to_string :: "config_origin \<Rightarrow> string" where
  "origin_to_string self = ''ConfigOrigin('' @ desc self @ '')''"

definition filename :: "config_origin \<Rightarrow> string" where
  "filename self = (if origin_type self = FILE then desc self else '''')"

subsection \<open>Merging\<close>

definition merge_of_prefix :: string where
  "merge_of_prefix = ''merge of ''"

definition starts_with :: "string \<Rightarrow> string \<Rightarrow> bool" where
  "starts_with s p \<longleftrightarrow> take (length p) s = p"

definition drop_merge_of :: "string \<Rightarrow> string" where
  "drop_merge_of s = (if starts_with s merge_of_prefix then drop (length merge_of_prefix) s else s)"

definition merge_two :: "config_origin \<Rightarrow> config_origin \<Rightarrow> config_exception + config_origin" where
  "merge_two a b =
     (let merged_type = (if origin_type a = origin_type b then origin_type a else GENERIC);
          a_desc = drop_merge_of (desc a);
          b_desc = drop_merge_of (desc b);
          (merged_desc, merged_start_line, merged_end_line) =
            (if a_desc = b_desc
             then (a_desc,
                   if line_no a < 0 then line_no b
                   else if line_no b < 0 then line_no a
                   else min (line_no a) (line_no b),
                   max (end_line_no a) (end_line_no b))
             else (merge_of_prefix @ drop_merge_of (description a) @ '','' @ drop_merge_of (description b),
                   - 1, - 1));
          merged_comments =
            (if comments_or_null a = comments_or_null b then comments_or_null a
             else comments_or_null a @ comments_or_null b)
      in make_origin merged_desc merged_start_line merged_end_line merged_type merged_comments)"

definition similarity :: "config_origin \<Rightarrow> config_origin \<Rightarrow> nat" where
  "similarity a b =
     (let count = (if origin_type a = origin_type b then 1 else 0)
      in if desc a = desc b
         then count + 1 + (if line_no a = line_no b then 1 else 0)
                + (if end_line_no a = end_line_no b then 1 else 0)
         else count)"

definition merge_three ::
  "config_origin \<Rightarrow> config_origin \<Rightarrow> config_origin \<Rightarrow> config_exception + config_origin" where
  "merge_three a b c =
     (if similarity a b \<ge> similarity b c
      then case merge_two a b of Inl e \<Rightarrow> Inl e | Inr ab \<Rightarrow> merge_two ab c
      else case merge_two b c of Inl e \<Rightarrow> Inl e | Inr bc \<Rightarrow> merge_two a bc)"

text \<open>
  The \<^verbatim>\<open>while\<close> loop over the vector, which works from its back: the argument is the
  vector reversed.
\<close>

function merge_loop :: "config_origin list \<Rightarrow> config_exception + config_origin list" where
  "merge_loop (c # b # a # remaining) =
     (case merge_three a b c of
        Inl e \<Rightarrow> Inl e
      | Inr merged \<Rightarrow> merge_loop (merged # remaining))"
| "merge_loop [] = Inr []"
| "merge_loop [a] = Inr [a]"
| "merge_loop [b, a] = Inr [b, a]"
  by pat_completeness auto
termination
  by (relation "measure length") auto

definition merge_origins :: "config_origin list \<Rightarrow> config_exception + config_origin" where
  "merge_origins stack =
     (case stack of
        [] \<Rightarrow> Inl (ConfigExceptionBugOrBroken ''can't merge empty list of origins'')
      | [a] \<Rightarrow> Inr a
      | [a, b] \<Rightarrow> merge_two a b
      | _ \<Rightarrow> (case merge_loop (rev stack) of
                Inl e \<Rightarrow> Inl e
              | Inr [a] \<Rightarrow> Inr a
              | Inr [b, a] \<Rightarrow> merge_two a b
              | Inr _ \<Rightarrow> Inl (ConfigExceptionBugOrBroken ''can't merge empty list of origins'')))"

subsection \<open>Merging origins of one file gives the range of lines they cover\<close>

definition in_file :: "string \<Rightarrow> config_origin \<Rightarrow> bool" where
  "in_file d a \<longleftrightarrow> desc a = d \<and> 0 \<le> line_no a"

lemma drop_merge_of_plain: "\<not> starts_with d merge_of_prefix \<Longrightarrow> drop_merge_of d = d"
  by (simp add: drop_merge_of_def)

lemma merge_two_in_file:
  assumes "d \<noteq> []" "\<not> starts_with d merge_of_prefix" "in_file d a" "in_file d b"
  shows "\<exists>m. merge_two a b = Inr m \<and> in_file d m \<and>
             line_no m = min (line_no a) (line_no b) \<and> end_line_no m = max (end_line_no a) (end_line_no b)"
  using assms by (auto simp: merge_two_def make_origin_def in_file_def drop_merge_of_plain Let_def)

lemma merge_three_in_file:
  assumes "d \<noteq> []" "\<not> starts_with d merge_of_prefix" "in_file d a" "in_file d b" "in_file d c"
  shows "\<exists>m. merge_three a b c = Inr m \<and> in_file d m \<and>
             line_no m = min (line_no a) (min (line_no b) (line_no c)) \<and>
             end_line_no m = max (end_line_no a) (max (end_line_no b) (end_line_no c))"
proof -
  note two = merge_two_in_file [OF assms(1,2)]
  obtain ab where ab: "merge_two a b = Inr ab" "in_file d ab"
    "line_no ab = min (line_no a) (line_no b)" "end_line_no ab = max (end_line_no a) (end_line_no b)"
    using two [OF assms(3,4)] by blast
  obtain bc where bc: "merge_two b c = Inr bc" "in_file d bc"
    "line_no bc = min (line_no b) (line_no c)" "end_line_no bc = max (end_line_no b) (end_line_no c)"
    using two [OF assms(4,5)] by blast
  show ?thesis
    using two [OF ab(2) assms(5)] two [OF assms(3) bc(2)] ab bc
    by (auto simp: merge_three_def min.assoc max.assoc)
qed

text \<open>The lines a non-empty list of origins covers.\<close>

definition first_line :: "config_origin list \<Rightarrow> int" where
  "first_line os = Min (line_no ` set os)"

definition last_line :: "config_origin list \<Rightarrow> int" where
  "last_line os = Max (end_line_no ` set os)"

lemma first_line_Cons: "os \<noteq> [] \<Longrightarrow> first_line (a # os) = min (line_no a) (first_line os)"
  by (simp add: first_line_def)

lemma last_line_Cons: "os \<noteq> [] \<Longrightarrow> last_line (a # os) = max (end_line_no a) (last_line os)"
  by (simp add: last_line_def)

lemma line_singleton [simp]: "first_line [a] = line_no a" "last_line [a] = end_line_no a"
  by (simp_all add: first_line_def last_line_def)

lemmas line_Cons = first_line_Cons last_line_Cons

lemma merge_loop_in_file:
  assumes "d \<noteq> []" "\<not> starts_with d merge_of_prefix" "os \<noteq> []" "list_all (in_file d) os"
  shows "\<exists>rs. merge_loop os = Inr rs \<and> list_all (in_file d) rs \<and> rs \<noteq> [] \<and> length rs \<le> 2 \<and>
              first_line rs = first_line os \<and> last_line rs = last_line os"
  using assms(3,4)
proof (induction os rule: merge_loop.induct)
  case (1 c b a os)
  then have abc: "in_file d a" "in_file d b" "in_file d c" and os: "list_all (in_file d) os" by auto
  obtain m where m: "merge_three a b c = Inr m" "in_file d m"
    "line_no m = min (line_no a) (min (line_no b) (line_no c))"
    "end_line_no m = max (end_line_no a) (max (end_line_no b) (end_line_no c))"
    using merge_three_in_file [OF assms(1,2) abc] by blast
  have "first_line (m # os) = first_line (c # b # a # os) \<and> last_line (m # os) = last_line (c # b # a # os)"
    using m(3,4) by (cases "os = []") (auto simp: line_Cons ac_simps)
  moreover have "\<exists>rs. merge_loop (m # os) = Inr rs \<and> list_all (in_file d) rs \<and> rs \<noteq> [] \<and>
      length rs \<le> 2 \<and> first_line rs = first_line (m # os) \<and> last_line rs = last_line (m # os)"
    using "1.IH" [OF m(1)] m(2) os by simp
  ultimately show ?case using m(1) by auto
qed auto

text \<open>
  merging any non-empty stack of origins that lie in one file succeeds and gives an
  origin in that file whose lines run from the first line of any of them to the last,
  whatever order the pairwise similarity makes the loop merge them in.
\<close>

theorem merge_origins_covers:
  assumes "d \<noteq> []" and "\<not> starts_with d merge_of_prefix"
    and "stack \<noteq> []" and "list_all (in_file d) stack"
  shows "\<exists>m. merge_origins stack = Inr m \<and> in_file d m \<and>
             line_no m = first_line stack \<and> end_line_no m = last_line stack"
proof -
  note two = merge_two_in_file [OF assms(1,2)]
  consider a where "stack = [a]" | a b where "stack = [a, b]" | a b c os where "stack = a # b # c # os"
    using assms(3) by (metis list.exhaust)
  then show ?thesis
  proof cases
    case 1
    then show ?thesis using assms(4) by (simp add: merge_origins_def)
  next
    case (2 a b)
    then show ?thesis using assms(4) two [of a b] by (auto simp: merge_origins_def line_Cons)
  next
    case (3 a b c os)
    obtain rs where rs: "merge_loop (rev stack) = Inr rs" "list_all (in_file d) rs" "rs \<noteq> []" "length rs \<le> 2"
      "first_line rs = first_line (rev stack)" "last_line rs = last_line (rev stack)"
      using merge_loop_in_file [OF assms(1,2), of "rev stack"] assms(3,4) by (auto simp: list_all_iff)
    have lines: "first_line (rev stack) = first_line stack" "last_line (rev stack) = last_line stack"
      by (simp_all add: first_line_def last_line_def)
    from rs(3,4) consider y where "rs = [y]" | y x where "rs = [y, x]"
      by (cases rs; cases "tl rs") auto
    then show ?thesis
    proof cases
      case (1 y)
      with 3 rs lines show ?thesis by (auto simp: merge_origins_def)
    next
      case (2 y x)
      with rs obtain m where "merge_two x y = Inr m" "in_file d m"
        "line_no m = min (line_no x) (line_no y)" "end_line_no m = max (end_line_no x) (end_line_no y)"
        using two [of x y] by auto
      with 2 3 rs lines show ?thesis
        by (auto simp: merge_origins_def line_Cons min.commute max.commute)
    qed
  qed
qed

theorem merge_origins_covers_witness:
  "\<exists>m. merge_origins [\<lparr>desc = ''app.conf'', line_no = 7, end_line_no = 7, origin_type = FILE, comments_or_null = []\<rparr>,
                      \<lparr>desc = ''app.conf'', line_no = 3, end_line_no = 4, origin_type = FILE, comments_or_null = []\<rparr>,
                      \<lparr>desc = ''app.conf'', line_no = 9, end_line_no = 9, origin_type = FILE, comments_or_null = []\<rparr>] = Inr m
       \<and> line_no m = 3 \<and> end_line_no m = 9"
proof -
  let ?o = "\<lambda>a b. \<lparr>desc = ''app.conf'', line_no = a, end_line_no = b, origin_type = FILE, comments_or_null = []\<rparr>"
  have "\<exists>m. merge_origins [?o 7 7, ?o 3 4, ?o 9 9] = Inr m \<and> in_file ''app.conf'' m \<and>
        line_no m = first_line [?o 7 7, ?o 3 4, ?o 9 9] \<and> end_line_no m = last_line [?o 7 7, ?o 3 4, ?o 9 9]"
    by (rule merge_origins_covers) (simp_all add: in_file_def starts_with_def merge_of_prefix_def)
  then show ?thesis by (auto simp: line_Cons)
qed


lemma make_origin_ok: "make_origin d l e t cs = Inr orig \<Longrightarrow> origin_ok orig"
  by (auto simp: make_origin_def origin_ok_def split: if_splits)

lemma new_simple_ok: "new_simple d = Inr orig \<Longrightarrow> origin_ok orig"
  unfolding new_simple_def by (rule make_origin_ok)

subsection \<open>Merging never raises on named origins\<close>

text \<open>
  A description that is nothing but repetitions of the merge prefix would be emptied by
  merging; every other description survives.
\<close>

function named_text :: "string \<Rightarrow> bool" where
  "named_text s =
     (if s = [] then False
      else if starts_with s merge_of_prefix then named_text (drop (length merge_of_prefix) s)
      else True)"
  by pat_completeness auto
termination
  by (relation "measure length") (auto simp: merge_of_prefix_def)

declare named_text.simps [simp del]

definition origin_named :: "config_origin \<Rightarrow> bool" where
  "origin_named orig \<longleftrightarrow> named_text (desc orig)"

lemma named_text_not_Nil: "named_text s \<Longrightarrow> s \<noteq> []"
  by (subst (asm) named_text.simps) (simp split: if_splits)

lemma named_drop: "named_text s \<Longrightarrow> drop_merge_of s \<noteq> [] \<and> named_text (drop_merge_of s)"
proof -
  assume s: "named_text s"
  have "named_text (drop_merge_of s)"
  proof (cases "starts_with s merge_of_prefix")
    case True
    with s show ?thesis by (subst (asm) named_text.simps) (simp add: drop_merge_of_def split: if_splits)
  qed (simp add: drop_merge_of_def s)
  then show ?thesis using named_text_not_Nil by blast
qed

lemma not_merge_prefix: "hd s \<noteq> CHR ''m'' \<Longrightarrow> \<not> starts_with s merge_of_prefix"
  by (cases s) (auto simp: starts_with_def merge_of_prefix_def)

lemma comma_in_named: "CHR '','' \<in> set s \<Longrightarrow> named_text s"
proof (induction s rule: named_text.induct)
  case (1 s)
  show ?case
  proof (cases "starts_with s merge_of_prefix")
    case True
    then have "set s = set merge_of_prefix \<union> set (drop (length merge_of_prefix) s)"
      unfolding starts_with_def using append_take_drop_id [of "length merge_of_prefix" s] set_append by metis
    moreover have "CHR '','' \<notin> set merge_of_prefix" by (simp add: merge_of_prefix_def)
    ultimately have "CHR '','' \<in> set (drop (length merge_of_prefix) s)"
      using 1(2) by blast
    with 1 True show ?thesis by (subst named_text.simps) auto
  next
    case False
    with 1(2) show ?thesis by (subst named_text.simps) auto
  qed
qed

lemma merge_two_named:
  assumes "origin_named a" "origin_named b"
  shows "\<exists>m. merge_two a b = Inr m \<and> origin_named m"
proof (cases "drop_merge_of (desc a) = drop_merge_of (desc b)")
  case True
  then show ?thesis
    using named_drop [of "desc a"] named_drop [of "desc b"] assms
    by (auto simp: merge_two_def make_origin_def origin_named_def Let_def)
next
  case False
  have "named_text (merge_of_prefix @ drop_merge_of (description a) @ '','' @ drop_merge_of (description b))"
    by (rule comma_in_named) simp
  with False show ?thesis
    by (auto simp: merge_two_def make_origin_def origin_named_def Let_def merge_of_prefix_def)
qed

lemma merge_three_named:
  "origin_named a \<Longrightarrow> origin_named b \<Longrightarrow> origin_named c \<Longrightarrow> \<exists>m. merge_three a b c = Inr m \<and> origin_named m"
  using merge_two_named [of a b] merge_two_named [of b c] merge_two_named
  by (fastforce simp: merge_three_def)

lemma merge_loop_named:
  "os \<noteq> [] \<Longrightarrow> list_all origin_named os \<Longrightarrow>
   \<exists>rs. merge_loop os = Inr rs \<and> list_all origin_named rs \<and> rs \<noteq> [] \<and> length rs \<le> 2"
proof (induction os rule: merge_loop.induct)
  case (1 c b a os)
  then obtain m where m: "merge_three a b c = Inr m" "origin_named m"
    using merge_three_named [of a b c] by auto
  with 1 show ?case by simp
qed auto

lemma merge_origins_named:
  assumes "os \<noteq> []" "list_all origin_named os"
  shows "\<exists>m. merge_origins os = Inr m \<and> origin_named m"
proof -
  consider a where "os = [a]" | a b where "os = [a, b]" | a b c rs where "os = a # b # c # rs"
    using assms(1) by (metis list.exhaust)
  then show ?thesis
  proof cases
    case (3 a b c rs)
    obtain xs where xs: "merge_loop (rev os) = Inr xs" "list_all origin_named xs" "xs \<noteq> []" "length xs \<le> 2"
      using merge_loop_named [of "rev os"] assms by (auto simp: list_all_iff)
    from xs(3,4) consider y where "xs = [y]" | y x where "xs = [y, x]"
      by (cases xs; cases "tl xs") auto
    then show ?thesis
      using 3 xs merge_two_named by cases (auto simp: merge_origins_def)
  qed (use assms merge_two_named in \<open>auto simp: merge_origins_def\<close>)
qed

end
