(* ===== verification/Config_Util.thy ===== *)
theory Config_Util
  imports Config_Origin
begin

section \<open>Rendering strings (config/src/detail/config_impl_util.cpp)\<close>

text \<open>
  JSON string rendering, and the attempt to leave quotes out.  The proof that the
  tokenizer reads a rendered string back is in \<open>Tokenizer\<close>.
\<close>

definition lower_hex :: string where
  "lower_hex = ''0123456789abcdef''"

text \<open>\<^verbatim>\<open>std::hex << std::setfill('0') << std::setw(4)\<close> of a number below 256.\<close>

definition hex4 :: "nat \<Rightarrow> string" where
  "hex4 n = [CHR ''0'', CHR ''0'', lower_hex ! (n div 16), lower_hex ! (n mod 16)]"

definition render_json_char :: "char \<Rightarrow> string" where
  "render_json_char c =
     (if c = CHR 0x22 then [CHR 0x5C, CHR 0x22]
      else if c = CHR 0x5C then [CHR 0x5C, CHR 0x5C]
      else if c = CHR 0x0A then [CHR 0x5C, CHR ''n'']
      else if c = CHR 0x08 then [CHR 0x5C, CHR ''b'']
      else if c = CHR 0x0C then [CHR 0x5C, CHR ''f'']
      else if c = CHR 0x0D then [CHR 0x5C, CHR ''r'']
      else if c = CHR 0x09 then [CHR 0x5C, CHR ''t'']
      else if is_cntrl c then [CHR 0x5C, CHR ''u''] @ hex4 (code c)
      else [c])"

definition render_json_string :: "string \<Rightarrow> string" where
  "render_json_string s = CHR 0x22 # concat (map render_json_char s) @ [CHR 0x22]"

definition ends_with :: "string \<Rightarrow> string \<Rightarrow> bool" where
  "ends_with s p \<longleftrightarrow> length p \<le> length s \<and> drop (length s - length p) s = p"

fun contains :: "string \<Rightarrow> string \<Rightarrow> bool" where
  "contains [] p = (p = [])"
| "contains (c # cs) p = (starts_with (c # cs) p \<or> contains cs p)"

definition render_string_unquoted_if_possible :: "string \<Rightarrow> string" where
  "render_string_unquoted_if_possible s =
     (if s = [] then render_json_string s
      else if \<not> is_digit (hd s) then render_json_string s
      else if starts_with s ''include'' \<or> ends_with s ''true'' \<or> ends_with s ''false'' \<or>
              ends_with s ''null'' \<or> contains s ''//''
           then render_json_string s
      else if list_ex (\<lambda>c. is_alpha c \<or> is_digit c) s then render_json_string s
      else s)"

text \<open>
  The unquoting never happens.  A string is left to the last test only when its first
  character is a digit, and the last test quotes every string that holds a letter or a
  digit, so the routine is \<open>render_json_string\<close>.  The comment in the source asks for
  pure alphanumeric text to be left unquoted; both tests are inverted.
\<close>

theorem render_always_quotes: "render_string_unquoted_if_possible s = render_json_string s"
  by (cases s) (auto simp: render_string_unquoted_if_possible_def)

lemma render_json_char_not_Nil [simp]: "render_json_char c \<noteq> []"
  by (simp add: render_json_char_def)

end
