(* ===== verification/Config_Path.thy ===== *)
theory Config_Path
  imports Config_Util
begin

section \<open>Paths into a configuration (config/src/detail/path.cpp, path_builder.cpp)\<close>

text \<open>
  A path is a key and a possibly null pointer to the rest, built back to front by a
  \<open>PathBuilder\<close> that refuses further keys once its result was taken.  The abstraction is
  the list of keys, never empty; every operation is shown to be the list operation it
  is meant to be, the builder through the contract \<open>key_builder\<close>.
\<close>

datatype config_path = Path (first: string) (remainder: "config_path option")

fun path_keys :: "config_path \<Rightarrow> string list" where
  "path_keys (Path k r) = k # (case r of None \<Rightarrow> [] | Some p \<Rightarrow> path_keys p)"

definition opt_keys :: "config_path option \<Rightarrow> string list" where
  "opt_keys r = (case r of None \<Rightarrow> [] | Some p \<Rightarrow> path_keys p)"

subsection \<open>The builder\<close>

record path_builder =
  keys :: "string list"
  pb_result :: "config_path option"

definition new_builder :: path_builder where
  "new_builder = \<lparr>keys = [], pb_result = None\<rparr>"

definition check_can_append :: "path_builder \<Rightarrow> config_exception option" where
  "check_can_append pb =
     (if pb_result pb \<noteq> None
      then Some (ConfigExceptionBugOrBroken ''_adding to PathBuilder after getting result'')
      else None)"

definition append_key :: "path_builder \<Rightarrow> string \<Rightarrow> config_exception + path_builder" where
  "append_key pb key =
     (case check_can_append pb of
        Some e \<Rightarrow> Inl e
      | None \<Rightarrow> Inr (pb\<lparr>keys := key # keys pb\<rparr>))"

fun push_path_keys :: "string list \<Rightarrow> string \<Rightarrow> config_path option \<Rightarrow> string list" where
  "push_path_keys ks k None = k # ks"
| "push_path_keys ks k (Some (Path k' r')) = push_path_keys (k # ks) k' r'"

definition append_path :: "path_builder \<Rightarrow> config_path \<Rightarrow> config_exception + path_builder" where
  "append_path pb path =
     (case check_can_append pb of
        Some e \<Rightarrow> Inl e
      | None \<Rightarrow> Inr (pb\<lparr>keys := push_path_keys (keys pb) (first path) (remainder path)\<rparr>))"

fun link_keys :: "string list \<Rightarrow> config_path option \<Rightarrow> config_path option" where
  "link_keys [] r = r"
| "link_keys (k # ks) r = link_keys ks (Some (Path k r))"

definition result :: "path_builder \<Rightarrow> config_path option \<times> path_builder" where
  "result pb =
     (if pb_result pb = None
      then let r = link_keys (keys pb) None in (r, pb\<lparr>keys := [], pb_result := r\<rparr>)
      else (pb_result pb, pb))"

subsection \<open>Paths\<close>

definition bind_exc :: "'e + 'a \<Rightarrow> ('a \<Rightarrow> 'e + 'b) \<Rightarrow> 'e + 'b" where
  "bind_exc m f = (case m of Inl e \<Rightarrow> Inl e | Inr x \<Rightarrow> f x)"

text \<open>The loops that append a sequence of keys, or of paths, stopping at an exception.\<close>

definition append_keys :: "path_builder \<Rightarrow> string list \<Rightarrow> config_exception + path_builder" where
  "append_keys pb ks = foldl (\<lambda>m k. bind_exc m (\<lambda>pb. append_key pb k)) (Inr pb) ks"

definition append_paths :: "path_builder \<Rightarrow> config_path list \<Rightarrow> config_exception + path_builder" where
  "append_paths pb ps = foldl (\<lambda>m p. bind_exc m (\<lambda>pb. append_path pb p)) (Inr pb) ps"

definition path_of_elements :: "string list \<Rightarrow> config_exception + config_path" where
  "path_of_elements elements =
     (case elements of
        [] \<Rightarrow> Inl (ConfigExceptionBugOrBroken ''empty path'')
      | k # ks \<Rightarrow>
          if length elements > 1
          then bind_exc (append_keys new_builder ks) (\<lambda>pb. Inr (Path k (fst (result pb))))
          else Inr (Path k None))"

definition path_concat :: "config_path list \<Rightarrow> config_exception + config_path" where
  "path_concat paths =
     (case paths of
        [] \<Rightarrow> Inl (ConfigExceptionBugOrBroken ''empty path'')
      | p # ps \<Rightarrow>
          bind_exc (case remainder p of None \<Rightarrow> Inr new_builder | Some r \<Rightarrow> append_path new_builder r)
            (\<lambda>pb. bind_exc (append_paths pb ps) (\<lambda>pb'. Inr (Path (first p) (fst (result pb'))))))"

fun parent_keys :: "config_path \<Rightarrow> string list" where
  "parent_keys (Path k None) = []"
| "parent_keys (Path k (Some p)) = k # parent_keys p"

definition parent :: "config_path \<Rightarrow> config_exception + config_path option" where
  "parent path =
     (if remainder path = None then Inr None
      else bind_exc (append_keys new_builder (parent_keys path)) (\<lambda>pb. Inr (fst (result pb))))"

fun path_last :: "config_path \<Rightarrow> string" where
  "path_last (Path k None) = k"
| "path_last (Path k (Some p)) = path_last p"

definition prepend :: "config_path \<Rightarrow> config_path \<Rightarrow> config_exception + config_path option" where
  "prepend self to_prepend =
     bind_exc (append_path new_builder to_prepend)
       (\<lambda>pb. bind_exc (append_path pb self) (\<lambda>pb'. Inr (fst (result pb'))))"

fun path_length :: "config_path \<Rightarrow> nat" where
  "path_length (Path k None) = 1"
| "path_length (Path k (Some p)) = 1 + path_length p"

text \<open>\<^verbatim>\<open>int32_t count = remove_from_front\<close>: the unsigned argument read as signed.\<close>

definition int32_of_uint32 :: "nat \<Rightarrow> int" where
  "int32_of_uint32 n = (if n mod 2 ^ 32 < 2 ^ 31 then int (n mod 2 ^ 32) else int (n mod 2 ^ 32) - 2 ^ 32)"

fun drop_front :: "config_path option \<Rightarrow> nat \<Rightarrow> config_path option" where
  "drop_front p 0 = p"
| "drop_front None (Suc n) = None"
| "drop_front (Some p) (Suc n) = drop_front (remainder p) n"

definition sub_path_from :: "config_path \<Rightarrow> nat \<Rightarrow> config_path option" where
  "sub_path_from self remove_from_front = drop_front (Some self) (nat (int32_of_uint32 remove_from_front))"

fun sub_path_loop :: "nat \<Rightarrow> config_path option \<Rightarrow> nat \<Rightarrow> path_builder \<Rightarrow> config_exception + path_builder" where
  "sub_path_loop last_index from 0 pb = Inr pb"
| "sub_path_loop last_index None (Suc n) pb = Inl NullPointer"
| "sub_path_loop last_index (Some p) (Suc n) pb =
     bind_exc (append_key pb (first p))
       (\<lambda>pb'. case remainder p of
                 None \<Rightarrow> Inl (ConfigExceptionBugOrBroken (''sub_path last_index out of range '' @ show_nat last_index))
               | Some p' \<Rightarrow> sub_path_loop last_index (Some p') n pb')"

definition sub_path :: "config_path \<Rightarrow> nat \<Rightarrow> nat \<Rightarrow> config_exception + config_path option" where
  "sub_path self first_index last_index =
     (if last_index < first_index then Inl (ConfigExceptionBugOrBroken ''bad call to sub_path'')
      else bind_exc (sub_path_loop last_index (sub_path_from self first_index) (last_index - first_index) new_builder)
             (\<lambda>pb. Inr (fst (result pb))))"

fun path_equals :: "config_path \<Rightarrow> config_path \<Rightarrow> bool" where
  "path_equals (Path k None) (Path k' None) = (k = k')"
| "path_equals (Path k (Some p)) (Path k' (Some p')) = (k = k' \<and> path_equals p p')"
| "path_equals (Path k r) (Path k' r') = False"

fun path_hash_code :: "(string \<Rightarrow> int) \<Rightarrow> config_path \<Rightarrow> int" where
  "path_hash_code hash (Path k None) = (41 * (41 + hash k)) mod 2 ^ 32"
| "path_hash_code hash (Path k (Some p)) = (41 * (41 + hash k) + path_hash_code hash p) mod 2 ^ 32"

definition has_funky_chars :: "string \<Rightarrow> bool" where
  "has_funky_chars s =
     (case s of
        [] \<Rightarrow> False
      | c # cs \<Rightarrow> if \<not> is_alpha c then True
                  else list_ex (\<lambda>c. \<not> (is_alnum c \<or> c = CHR ''-'' \<or> c = CHR ''_'')) cs)"

definition render_key :: "string \<Rightarrow> string" where
  "render_key k = (if has_funky_chars k \<or> k = [] then render_json_string k else k)"

fun append_to_stream :: "config_path \<Rightarrow> string \<Rightarrow> string" where
  "append_to_stream (Path k None) s = s @ render_key k"
| "append_to_stream (Path k (Some p)) s = append_to_stream p (s @ render_key k @ ''.'')"

definition path_to_string :: "config_path \<Rightarrow> string" where
  "path_to_string p = append_to_stream p ''Path('' @ '')''"

definition path_render :: "config_path \<Rightarrow> string" where
  "path_render p = append_to_stream p []"

definition new_key :: "string \<Rightarrow> config_path" where
  "new_key key = Path key None"

subsection \<open>Paths are non-empty lists of keys\<close>

lemma path_keys_not_Nil [simp]: "path_keys p \<noteq> []" "[] \<noteq> path_keys p"
  by (cases p; simp)+

lemma opt_keys_simps [simp]: "opt_keys None = []" "opt_keys (Some p) = path_keys p"
  by (simp_all add: opt_keys_def)

lemma path_keys_Path [simp]: "path_keys (Path k r) = k # opt_keys r"
  by (simp add: opt_keys_def)

declare path_keys.simps [simp del]

lemma path_keys_inject: "path_keys p = path_keys q \<longleftrightarrow> p = q"
proof (induction p arbitrary: q)
  case (Path k r)
  obtain k' r' where q: "q = Path k' r'" by (cases q)
  show ?case
  proof (cases r)
    case None
    then show ?thesis using q by (cases r') auto
  next
    case (Some p)
    then show ?thesis using q Path [of p] by (cases r') auto
  qed
qed

lemma opt_keys_inject: "opt_keys r = opt_keys r' \<longleftrightarrow> r = r'"
  by (cases r; cases r') (auto simp: path_keys_inject dest: sym)

lemma path_induct [case_names single more]:
  assumes "\<And>k. P (Path k None)" and "\<And>k p. P p \<Longrightarrow> P (Path k (Some p))"
  shows "P p"
proof (induction p)
  case (Path k r)
  then show ?case by (cases r) (auto intro: assms)
qed

lemma opt_keys_link: "opt_keys (link_keys ks r) = rev ks @ opt_keys r"
  by (induction ks arbitrary: r) auto

lemma push_path_keys_eq: "push_path_keys ks k r = rev (opt_keys r) @ k # ks"
proof -
  have "push_path_keys ks k (Some p) = rev (path_keys p) @ k # ks" for p
    by (induction p arbitrary: ks k rule: path_induct) auto
  then show ?thesis by (cases r) auto
qed

subsection \<open>The contract of a builder\<close>

lemma bind_exc_Inr [simp]: "bind_exc (Inr x) f = f x"
  by (simp add: bind_exc_def)

lemma bind_exc_Inl [simp]: "bind_exc (Inl e) f = Inl e"
  by (simp add: bind_exc_def)

locale key_builder =
  fixes add_key :: "'b \<Rightarrow> string \<Rightarrow> 'e + 'b" and add_path :: "'b \<Rightarrow> config_path \<Rightarrow> 'e + 'b"
    and finish :: "'b \<Rightarrow> config_path option"
    and accepting :: "'b \<Rightarrow> bool" and collected :: "'b \<Rightarrow> string list"
  assumes add_key_ok: "accepting b \<Longrightarrow> \<exists>b'. add_key b k = Inr b' \<and> accepting b' \<and> collected b' = collected b @ [k]"
    and add_path_ok: "accepting b \<Longrightarrow> \<exists>b'. add_path b p = Inr b' \<and> accepting b' \<and> collected b' = collected b @ path_keys p"
    and finish_keys: "accepting b \<Longrightarrow> opt_keys (finish b) = collected b"
begin

lemma add_all_keys:
  "accepting b \<Longrightarrow>
   \<exists>b'. foldl (\<lambda>m k. bind_exc m (\<lambda>b. add_key b k)) (Inr b) ks = Inr b' \<and>
        accepting b' \<and> collected b' = collected b @ ks"
proof (induction ks arbitrary: b)
  case (Cons k ks)
  then obtain b1 where b1: "add_key b k = Inr b1" "accepting b1" "collected b1 = collected b @ [k]"
    using add_key_ok by blast
  with Cons.IH [of b1] show ?case by auto
qed simp

lemma add_all_paths:
  "accepting b \<Longrightarrow>
   \<exists>b'. foldl (\<lambda>m p. bind_exc m (\<lambda>b. add_path b p)) (Inr b) ps = Inr b' \<and>
        accepting b' \<and> collected b' = collected b @ concat (map path_keys ps)"
proof (induction ps arbitrary: b)
  case (Cons p ps)
  then obtain b1 where b1: "add_path b p = Inr b1" "accepting b1" "collected b1 = collected b @ path_keys p"
    using add_path_ok by blast
  with Cons.IH [of b1] show ?case by auto
qed simp

end

definition pb_open :: "path_builder \<Rightarrow> bool" where
  "pb_open pb \<longleftrightarrow> pb_result pb = None"

lemma append_key_ok:
  "pb_open pb \<Longrightarrow> \<exists>pb'. append_key pb k = Inr pb' \<and> pb_open pb' \<and> rev (keys pb') = rev (keys pb) @ [k]"
  by (simp add: append_key_def check_can_append_def pb_open_def)

lemma append_path_ok:
  "pb_open pb \<Longrightarrow> \<exists>pb'. append_path pb p = Inr pb' \<and> pb_open pb' \<and> rev (keys pb') = rev (keys pb) @ path_keys p"
  by (cases p) (simp add: append_path_def check_can_append_def pb_open_def push_path_keys_eq)

lemma result_keys: "pb_open pb \<Longrightarrow> opt_keys (fst (result pb)) = rev (keys pb)"
  by (simp add: result_def pb_open_def opt_keys_link Let_def)

interpretation pb: key_builder append_key append_path "\<lambda>pb. fst (result pb)" pb_open "\<lambda>pb. rev (keys pb)"
  by unfold_locales (simp_all add: append_key_ok append_path_ok result_keys)

lemma new_builder_open [simp]: "pb_open new_builder" "keys new_builder = []"
  by (simp_all add: pb_open_def new_builder_def)

lemma append_keys_new: "\<exists>pb. append_keys new_builder ks = Inr pb \<and> pb_open pb \<and> opt_keys (fst (result pb)) = ks"
  using pb.add_all_keys [of new_builder ks] pb.finish_keys by (force simp: append_keys_def)

subsection \<open>Each operation is the operation on lists of keys\<close>

lemma path_of_elements_keys:
  "ks \<noteq> [] \<Longrightarrow> \<exists>p. path_of_elements ks = Inr p \<and> path_keys p = ks"
proof (cases ks)
  case (Cons k ks')
  then show ?thesis
    using append_keys_new [of ks'] by (auto simp: path_of_elements_def)
qed simp

lemma path_concat_keys:
  "ps \<noteq> [] \<Longrightarrow> \<exists>p. path_concat ps = Inr p \<and> path_keys p = concat (map path_keys ps)"
proof (cases ps)
  case (Cons p ps')
  obtain pb where pb: "(case remainder p of None \<Rightarrow> Inr new_builder | Some r \<Rightarrow> append_path new_builder r) = Inr pb"
    "pb_open pb" "rev (keys pb) = opt_keys (remainder p)"
    using pb.add_path_ok [of new_builder] by (cases "remainder p") force+
  obtain pb' where "append_paths pb ps' = Inr pb'" "pb_open pb'"
    "rev (keys pb') = rev (keys pb) @ concat (map path_keys ps')"
    using pb.add_all_paths [OF pb(2), of ps'] by (auto simp: append_paths_def)
  with pb Cons pb.finish_keys [of pb'] show ?thesis
    by (cases p) (auto simp: path_concat_def)
qed simp

lemma parent_keys_eq: "parent_keys p = butlast (path_keys p)"
  by (induction p rule: path_induct) auto

lemma parent_ok: "\<exists>r. parent p = Inr r \<and> opt_keys r = butlast (path_keys p)"
  using append_keys_new [of "parent_keys p"]
  by (cases p) (auto simp: parent_def parent_keys_eq)

lemma path_last_eq: "path_last p = last (path_keys p)"
  by (induction p rule: path_induct) auto

lemma prepend_keys: "\<exists>q. prepend p t = Inr (Some q) \<and> path_keys q = path_keys t @ path_keys p"
proof -
  obtain b1 where b1: "append_path new_builder t = Inr b1" "pb_open b1" "rev (keys b1) = path_keys t"
    using pb.add_path_ok [of new_builder t] by auto
  obtain b2 where b2: "append_path b1 p = Inr b2" "pb_open b2" "rev (keys b2) = rev (keys b1) @ path_keys p"
    using pb.add_path_ok [OF b1(2), of p] by auto
  then obtain q where "fst (result b2) = Some q" "path_keys q = path_keys t @ path_keys p"
    using pb.finish_keys [OF b2(2)] b1(3) by (cases "fst (result b2)") auto
  with b1 b2 show ?thesis by (simp add: prepend_def)
qed

lemma path_length_eq: "path_length p = length (path_keys p)"
  by (induction p rule: path_induct) auto

lemma opt_keys_drop_front: "opt_keys (drop_front r n) = drop n (opt_keys r)"
proof (induction r n rule: drop_front.induct)
  case (3 p n)
  then show ?case by (cases p) simp
qed auto

lemma int32_small: "n < 2 ^ 31 \<Longrightarrow> nat (int32_of_uint32 n) = n"
  by (simp add: int32_of_uint32_def)

lemma path_equals_iff: "path_equals p q \<longleftrightarrow> path_keys p = path_keys q"
  by (induction p q rule: path_equals.induct) auto

text \<open>
  C35: a path stands for the non-empty list of its keys, and the operations are the list
  operations: building from elements, concatenation, prepending, parent, last key, length
  and equality.  None of them raises on a non-empty argument.
\<close>

theorem path_refines_key_list:
  "(ks \<noteq> [] \<longrightarrow> (\<exists>p. path_of_elements ks = Inr p \<and> path_keys p = ks)) \<and>
   (ps \<noteq> [] \<longrightarrow> (\<exists>p. path_concat ps = Inr p \<and> path_keys p = concat (map path_keys ps))) \<and>
   (\<exists>q. prepend p t = Inr (Some q) \<and> path_keys q = path_keys t @ path_keys p) \<and>
   (\<exists>r. parent p = Inr r \<and> opt_keys r = butlast (path_keys p)) \<and>
   path_last p = last (path_keys p) \<and> path_length p = length (path_keys p) \<and>
   path_equals p t = (p = t)"
  by (intro conjI impI path_of_elements_keys path_concat_keys prepend_keys parent_ok
      path_last_eq path_length_eq) (auto simp: path_equals_iff path_keys_inject)

theorem path_refines_key_list_witness:
  "(\<exists>p. path_of_elements [''a'', ''b''] = Inr p \<and> path_keys p = [''a'', ''b'']) \<and>
   (\<exists>p. path_concat [new_key ''a'', new_key ''b''] = Inr p \<and> path_keys p = [''a'', ''b''])"
  using path_refines_key_list [of "[''a'', ''b'']" "[new_key ''a'', new_key ''b'']" "new_key ''a''" "new_key ''b''"]
  by (simp add: new_key_def)


lemma sub_path_loop_ok:
  assumes "pb_open pb" "n < length (opt_keys r)"
  shows "\<exists>pb'. sub_path_loop l r n pb = Inr pb' \<and> pb_open pb' \<and> rev (keys pb') = rev (keys pb) @ take n (opt_keys r)"
  using assms
proof (induction n arbitrary: r pb)
  case (Suc n)
  then obtain k p where r: "r = Some (Path k (Some p))"
    by (cases r rule: option.exhaust; cases "the r"; cases "remainder (the r)") auto
  obtain b where b: "append_key pb k = Inr b" "pb_open b" "rev (keys b) = rev (keys pb) @ [k]"
    using append_key_ok [OF Suc.prems(1)] by blast
  then show ?case
    using Suc.IH [of b "Some p"] Suc.prems(2) r by auto
qed (cases r; simp)

lemma sub_path_loop_out_of_range:
  assumes "pb_open pb" "0 < length (opt_keys r)" "length (opt_keys r) \<le> n"
  shows "sub_path_loop l r n pb = Inl (ConfigExceptionBugOrBroken (''sub_path last_index out of range '' @ show_nat l))"
  using assms
proof (induction n arbitrary: r pb)
  case (Suc n)
  then obtain k q where r: "r = Some (Path k q)"
    by (cases r rule: option.exhaust; cases "the r") auto
  obtain b where b: "append_key pb k = Inr b" "pb_open b"
    using append_key_ok [OF Suc.prems(1)] by blast
  then show ?case
    using Suc.IH [of b q] Suc.prems r by (cases q) auto
qed simp

lemma sub_path_from_keys: "i < 2 ^ 31 \<Longrightarrow> opt_keys (sub_path_from p i) = drop i (path_keys p)"
  by (simp add: sub_path_from_def int32_small opt_keys_drop_front)

lemma sub_path_inside:
  "i < 2 ^ 31 \<Longrightarrow> i \<le> j \<Longrightarrow> j < path_length p \<Longrightarrow>
   \<exists>r. sub_path p i j = Inr r \<and> opt_keys r = take (j - i) (drop i (path_keys p))"
  using sub_path_loop_ok [of new_builder "j - i" "sub_path_from p i" j] result_keys
  by (fastforce simp: sub_path_def sub_path_from_keys path_length_eq)

lemma sub_path_beyond:
  "i < 2 ^ 31 \<Longrightarrow> i < path_length p \<Longrightarrow> path_length p \<le> j \<Longrightarrow>
   sub_path p i j = Inl (ConfigExceptionBugOrBroken (''sub_path last_index out of range '' @ show_nat j))"
  using sub_path_loop_out_of_range [of new_builder "sub_path_from p i" "j - i" j]
  by (simp add: sub_path_def sub_path_from_keys path_length_eq)

lemma sub_path_null: "i < 2 ^ 31 \<Longrightarrow> path_length p \<le> i \<Longrightarrow> i < j \<Longrightarrow> sub_path p i j = Inl NullPointer"
  using sub_path_from_keys [of i p]
  by (cases "j - i"; cases "sub_path_from p i") (auto simp: sub_path_def path_length_eq)

lemma sub_path_self: "sub_path p i i = Inr None"
  by (simp add: sub_path_def result_def new_builder_def)

text \<open>
  cutting a path.  \<open>sub_path(n)\<close> drops keys from the front and returns null when none
  is left; \<open>sub_path(i, j)\<close> returns the keys from \<open>i\<close> up to \<open>j\<close> only while a key remains
  after them: the full range up to the length, which the list operation allows, raises the
  out-of-range exception, and a non-empty range that starts at or beyond the length
  dereferences null.
\<close>

theorem sub_path_cases:
  "i < 2 ^ 31 \<Longrightarrow>
   opt_keys (sub_path_from p i) = drop i (path_keys p) \<and>
   sub_path p i i = Inr None \<and>
   (j < i \<longrightarrow> sub_path p i j = Inl (ConfigExceptionBugOrBroken ''bad call to sub_path'')) \<and>
   (i \<le> j \<and> j < path_length p \<longrightarrow>
     (\<exists>r. sub_path p i j = Inr r \<and> opt_keys r = take (j - i) (drop i (path_keys p)))) \<and>
   (i < path_length p \<and> path_length p \<le> j \<longrightarrow>
     sub_path p i j = Inl (ConfigExceptionBugOrBroken (''sub_path last_index out of range '' @ show_nat j))) \<and>
   (path_length p \<le> i \<and> i < j \<longrightarrow> sub_path p i j = Inl NullPointer)"
  by (intro conjI impI sub_path_from_keys sub_path_self sub_path_inside sub_path_beyond sub_path_null)
     (auto simp: sub_path_def)

theorem sub_path_cases_witness:
  "\<exists>r. sub_path (Path ''a'' (Some (Path ''b'' (Some (Path ''c'' None))))) 1 2 = Inr r \<and> opt_keys r = [''b'']"
  using sub_path_cases [of 1 "Path ''a'' (Some (Path ''b'' (Some (Path ''c'' None))))" 2]
  by (simp add: path_length_eq)

end
