(* ===== verification/Config_Value.thy ===== *)
theory Config_Value
  imports Config_Path
begin

section \<open>Configuration values (config/src/detail: config_*.cpp, default_transformer.cpp)\<close>

text \<open>
  The class hierarchy below \<open>AbstractConfigValue\<close> as one datatype, a constructor per class
  and the members of the class as arguments.  A \<^verbatim>\<open>double\<close> is its IEEE bit pattern, a
  64-bit word; the conversions between doubles and text belong to boost and are the
  record \<open>fp_text\<close>, an argument of the operations that use them.  Its last field is the
  text of an address, which is what the debug text of a container shows.  The members of
  an object are the association list of its \<^verbatim>\<open>unordered_map\<close>.
\<close>

subsection \<open>Doubles and decimal text\<close>

type_synonym double = "64 word"

record fp_text =
  lexical_double :: "string \<Rightarrow> double option"
  show_double :: "double \<Rightarrow> string"
  show_address :: string

definition int32_min :: int where "int32_min = - (2 ^ 31)"
definition int32_max :: int where "int32_max = 2 ^ 31 - 1"
definition int64_min :: int where "int64_min = - (2 ^ 63)"
definition int64_max :: int where "int64_max = 2 ^ 63 - 1"

text \<open>\<^verbatim>\<open>boost::lexical_cast<int64_t>\<close>: an optional sign, digits up to the end, a value in range.\<close>

definition lexical_int64 :: "string \<Rightarrow> int option" where
  "lexical_int64 s =
     (let neg = (case s of [] \<Rightarrow> False | c # _ \<Rightarrow> c = CHR ''-'');
          ds = (case s of [] \<Rightarrow> [] | c # r \<Rightarrow> if c = CHR ''-'' \<or> c = CHR ''+'' then r else s);
          v = (if neg then - int (digits_val 0 ds) else int (digits_val 0 ds))
      in if ds = [] \<or> \<not> list_all is_digit ds then None
         else if v < int64_min \<or> int64_max < v then None
         else Some v)"

text \<open>
  The integer a double stands for, when it is one that fits \<^verbatim>\<open>int64_t\<close>: the outcome of
  \<^verbatim>\<open>as_int64 == number\<close> after the truncating cast.  The cast of an out-of-range double is
  undefined in C++; the processors the program runs on give the smallest integer, which
  compares unequal.
\<close>

definition double_whole :: "double \<Rightarrow> int option" where
  "double_whole d =
     (let b = uint d; neg = (2 ^ 63 \<le> b); e = b div 2 ^ 52 mod 2 ^ 11; m = b mod 2 ^ 52;
          mant = (if e = 0 then m else m + 2 ^ 52);
          ex = (if e = 0 then 1 else e) - 1075;
          scaled = (if 0 \<le> ex then Some (mant * 2 ^ nat ex)
                    else if mant mod 2 ^ nat (- ex) = 0 then Some (mant div 2 ^ nat (- ex)) else None)
      in if e = 2047 then None
         else case scaled of
                None \<Rightarrow> None
              | Some a \<Rightarrow>
                  let v = (if neg then - a else a)
                  in if int64_min \<le> v \<and> v \<le> int64_max then Some v else None)"

subsection \<open>The values\<close>

datatype config_value_type = OBJECT | LIST | NUMBER | BOOLEAN | NONE | STRING

record substitution_expression =
  expr_path :: config_path
  expr_optional :: bool

datatype resolve_status = UNRESOLVED | RESOLVED

datatype config_value =
    ConfigNull config_origin
  | ConfigBoolean config_origin bool
  | ConfigInt config_origin int string
  | ConfigInt64 config_origin int string
  | ConfigDouble config_origin double string
  | ConfigString config_origin string
  | SimpleConfigList config_origin "config_value list" resolve_status
  | SimpleConfigObject config_origin "(string \<times> config_value) list" resolve_status bool
  | ConfigReference config_origin substitution_expression nat
  | ConfigConcatenation config_origin "config_value list"
  | ConfigDelayedMerge config_origin "config_value list"
  | ConfigDelayedMergeObject config_origin "config_value list"

fun value_origin :: "config_value \<Rightarrow> config_origin" where
  "value_origin (ConfigNull orig) = orig"
| "value_origin (ConfigBoolean orig _) = orig"
| "value_origin (ConfigInt orig _ _) = orig"
| "value_origin (ConfigInt64 orig _ _) = orig"
| "value_origin (ConfigDouble orig _ _) = orig"
| "value_origin (ConfigString orig _) = orig"
| "value_origin (SimpleConfigList orig _ _) = orig"
| "value_origin (SimpleConfigObject orig _ _ _) = orig"
| "value_origin (ConfigReference orig _ _) = orig"
| "value_origin (ConfigConcatenation orig _) = orig"
| "value_origin (ConfigDelayedMerge orig _) = orig"
| "value_origin (ConfigDelayedMergeObject orig _) = orig"

text \<open>
  \<open>value_type\<close> of the scalar classes and the containers; the unresolved classes raise.
\<close>

fun value_type :: "config_value \<Rightarrow> config_exception + config_value_type" where
  "value_type (ConfigNull _) = Inr NONE"
| "value_type (ConfigBoolean _ _) = Inr BOOLEAN"
| "value_type (ConfigInt _ _ _) = Inr NUMBER"
| "value_type (ConfigInt64 _ _ _) = Inr NUMBER"
| "value_type (ConfigDouble _ _ _) = Inr NUMBER"
| "value_type (ConfigString _ _) = Inr STRING"
| "value_type (SimpleConfigList _ _ _) = Inr LIST"
| "value_type (SimpleConfigObject _ _ _ _) = Inr OBJECT"
| "value_type (ConfigDelayedMergeObject _ _) = Inr OBJECT"
| "value_type (ConfigReference _ _ _) = Inl ConfigExceptionNotResolved"
| "value_type (ConfigConcatenation _ _) = Inl ConfigExceptionNotResolved"
| "value_type (ConfigDelayedMerge _ _) = Inl ConfigExceptionNotResolved"

fun value_type_name :: "config_value_type \<Rightarrow> string" where
  "value_type_name OBJECT = ''OBJECT''"
| "value_type_name LIST = ''LIST''"
| "value_type_name NUMBER = ''NUMBER''"
| "value_type_name BOOLEAN = ''BOOLEAN''"
| "value_type_name NONE = ''NONE''"
| "value_type_name STRING = ''STRING''"

text \<open>A number keeps the text it was read from; \<^verbatim>\<open>AbstractConfigValue\<close> gives the empty string.\<close>

fun transform_to_string :: "fp_text \<Rightarrow> config_value \<Rightarrow> string" where
  "transform_to_string fp (ConfigNull _) = ''null''"
| "transform_to_string fp (ConfigBoolean _ v) = (if v then ''true'' else ''false'')"
| "transform_to_string fp (ConfigInt _ v t) = (if t = [] then show_int v else t)"
| "transform_to_string fp (ConfigInt64 _ v t) = (if t = [] then show_int v else t)"
| "transform_to_string fp (ConfigDouble _ v t) = (if t = [] then show_double fp v else t)"
| "transform_to_string fp (ConfigString _ v) = v"
| "transform_to_string fp _ = []"

definition new_number_int64 :: "config_origin \<Rightarrow> int \<Rightarrow> string \<Rightarrow> config_value" where
  "new_number_int64 orig number original_text =
     (if number \<le> int32_max \<and> int32_min \<le> number
      then ConfigInt orig number original_text
      else ConfigInt64 orig number original_text)"

definition new_number_double :: "config_origin \<Rightarrow> double \<Rightarrow> string \<Rightarrow> config_value" where
  "new_number_double orig number original_text =
     (case double_whole number of
        Some as_int64 \<Rightarrow> new_number_int64 orig as_int64 original_text
      | None \<Rightarrow> ConfigDouble orig number original_text)"

definition transform_string :: "fp_text \<Rightarrow> config_origin \<Rightarrow> string \<Rightarrow> config_value_type \<Rightarrow> config_value option" where
  "transform_string fp orig s requested =
     (case requested of
        NUMBER \<Rightarrow>
          (case lexical_int64 s of
             Some i \<Rightarrow> Some (ConfigInt64 orig i s)
           | None \<Rightarrow> (case lexical_double fp s of
                        Some d \<Rightarrow> Some (ConfigDouble orig d s)
                      | None \<Rightarrow> None))
      | NONE \<Rightarrow> if s = ''null'' then Some (ConfigNull orig) else None
      | BOOLEAN \<Rightarrow>
          if s = ''true'' \<or> s = ''yes'' \<or> s = ''on'' then Some (ConfigBoolean orig True)
          else if s = ''false'' \<or> s = ''no'' \<or> s = ''off'' then Some (ConfigBoolean orig False)
          else None
      | _ \<Rightarrow> None)"

definition transform :: "fp_text \<Rightarrow> config_value \<Rightarrow> config_value_type \<Rightarrow> config_exception + config_value" where
  "transform fp v requested =
     bind_exc (value_type v)
       (\<lambda>t. if t = STRING
            then Inr (case transform_string fp (value_origin v) (transform_to_string fp v) requested of
                        Some w \<Rightarrow> w | None \<Rightarrow> v)
            else if requested = STRING \<and> (t = NUMBER \<or> t = BOOLEAN)
            then Inr (ConfigString (value_origin v) (transform_to_string fp v))
            else Inr v)"

text \<open>The numeric views of a number; the truncating cast of a double is an argument.\<close>

fun int64_value :: "(double \<Rightarrow> int) \<Rightarrow> config_value \<Rightarrow> int option" where
  "int64_value trunc (ConfigInt _ v _) = Some v"
| "int64_value trunc (ConfigInt64 _ v _) = Some v"
| "int64_value trunc (ConfigDouble _ v _) = Some (trunc v)"
| "int64_value trunc _ = None"

definition int_value_range_checked :: "(double \<Rightarrow> int) \<Rightarrow> config_value \<Rightarrow> string \<Rightarrow> (config_exception + int) option" where
  "int_value_range_checked trunc v p =
     (case int64_value trunc v of
        None \<Rightarrow> None
      | Some l \<Rightarrow>
          Some (if l < int32_min \<or> int32_max < l
                then Inl (ConfigExceptionWrongType (Some (value_origin v)) p ''32-bit integer''
                            (''out-of-range value '' @ show_int l))
                else Inr l))"

text \<open>A text conversion that knows no doubles, for concrete runs on input without them.\<close>

definition no_doubles :: fp_text where
  "no_doubles = \<lparr>lexical_double = (\<lambda>_. None), show_double = (\<lambda>_. []), show_address = []\<rparr>"

subsection \<open>Properties\<close>

lemma lexical_int64_not_Nil: "lexical_int64 s = Some i \<Longrightarrow> s \<noteq> []"
  by (auto simp: lexical_int64_def Let_def)

lemma digit_not_sign: "is_digit c \<Longrightarrow> c \<noteq> CHR ''-'' \<and> c \<noteq> CHR ''+''"
  by (auto simp: is_digit_def)

lemma lexical_int64_show_int:
  assumes "int64_min \<le> i" "i \<le> int64_max"
  shows "lexical_int64 (show_int i) = Some i"
proof (cases "i < 0")
  case True
  then show ?thesis
    using assms by (auto simp: show_int_def lexical_int64_def Let_def list_all_iff dest: show_nat_digits)
next
  case False
  obtain c cs where sn: "show_nat (nat i) = c # cs"
    by (metis show_nat_not_Nil neq_Nil_conv)
  have "list_all is_digit (c # cs)"
    unfolding sn [symmetric] by (auto simp: list_all_iff dest: show_nat_digits)
  moreover have "digits_val 0 (c # cs) = nat i"
    unfolding sn [symmetric] by simp
  ultimately show ?thesis
    using False assms digit_not_sign [of c] by (simp add: show_int_def sn lexical_int64_def Let_def)
qed


definition value_ok :: "config_value \<Rightarrow> bool" where
  "value_ok v =
     (case v of
        ConfigInt _ i _ \<Rightarrow> int32_min \<le> i \<and> i \<le> int32_max
      | ConfigInt64 _ i _ \<Rightarrow> int64_min \<le> i \<and> i \<le> int64_max
      | _ \<Rightarrow> True)"

lemmas int_limits = int32_min_def int32_max_def int64_min_def int64_max_def

lemma lexical_int64_range: "lexical_int64 s = Some i \<Longrightarrow> int64_min \<le> i \<and> i \<le> int64_max"
  by (auto simp: lexical_int64_def Let_def split: if_splits)



text \<open>
  reading a whole number gives a value of the narrowest class that holds it, so the
  value is in the range of its class, and asking for it as a 32-bit integer succeeds
  exactly for that class, with the value of the text.
\<close>

theorem new_number_narrow:
  "lexical_int64 s = Some i \<Longrightarrow>
   value_ok (new_number_int64 orig i s) \<and>
   int64_value tr (new_number_int64 orig i s) = Some i \<and>
   transform_to_string fp (new_number_int64 orig i s) = s \<and>
   (int_value_range_checked tr (new_number_int64 orig i s) p = Some (Inr i))
     = (new_number_int64 orig i s = ConfigInt orig i s)"
  using lexical_int64_range [of s i] lexical_int64_not_Nil [of s i]
  by (auto simp: new_number_int64_def value_ok_def int_value_range_checked_def int_limits)

theorem new_number_narrow_witness:
  "\<exists>orig. value_ok (new_number_int64 orig 4294967296 ''4294967296'') \<and>
     new_number_int64 orig 4294967296 ''4294967296'' = ConfigInt64 orig 4294967296 ''4294967296''"
proof -
  define orig where "orig = \<lparr>desc = ''x'', line_no = 1, end_line_no = 1, origin_type = GENERIC, comments_or_null = []\<rparr>"
  have "lexical_int64 ''4294967296'' = Some 4294967296"
    by (simp add: lexical_int64_def digit_val_def is_digit_def int_limits)
  then have "value_ok (new_number_int64 orig 4294967296 ''4294967296'')"
    using new_number_narrow by blast
  moreover have "new_number_int64 orig 4294967296 ''4294967296'' = ConfigInt64 orig 4294967296 ''4294967296''"
    by (simp add: new_number_int64_def int_limits)
  ultimately show ?thesis by blast
qed

end
