(* ===== verification/Config_Token.thy ===== *)
theory Config_Token
  imports Config_Value
begin

section \<open>Tokens (config/src/detail/token.cpp, token_type.cpp, tokens.cpp)\<close>

text \<open>
  The class \<open>Token\<close> and its subclasses.  The punctuation tokens are static singletons
  without an origin that the code compares by pointer; here they are the values
  \<open>Token t\<close>, so equality of values is the pointer comparison.
\<close>

datatype token_type =
    START | END | COMMA | EQUALS | COLON | OPEN_CURLY | CLOSE_CURLY | OPEN_SQUARE | CLOSE_SQUARE
  | VALUE | NEWLINE | UNQUOTED_TEXT | SUBSTITUTION | PROBLEM | COMMENT | PLUS_EQUALS

datatype token =
    Token token_type
  | ValueToken config_value
  | LineToken config_origin
  | UnquotedTextToken config_origin string
  | ProblemToken config_origin string string bool
  | CommentToken config_origin string
  | SubstitutionToken config_origin bool "token list"

fun token_type_of :: "token \<Rightarrow> token_type" where
  "token_type_of (Token t) = t"
| "token_type_of (ValueToken _) = VALUE"
| "token_type_of (LineToken _) = NEWLINE"
| "token_type_of (UnquotedTextToken _ _) = UNQUOTED_TEXT"
| "token_type_of (ProblemToken _ _ _ _) = PROBLEM"
| "token_type_of (CommentToken _ _) = COMMENT"
| "token_type_of (SubstitutionToken _ _ _) = SUBSTITUTION"

fun token_type_name :: "token_type \<Rightarrow> string" where
  "token_type_name START = ''start''"
| "token_type_name END = ''end''"
| "token_type_name COMMA = ''comma''"
| "token_type_name EQUALS = ''equals''"
| "token_type_name COLON = ''colon''"
| "token_type_name OPEN_CURLY = ''open_curly''"
| "token_type_name CLOSE_CURLY = ''close_curly''"
| "token_type_name OPEN_SQUARE = ''open_square''"
| "token_type_name CLOSE_SQUARE = ''close_square''"
| "token_type_name VALUE = ''value''"
| "token_type_name NEWLINE = ''newline''"
| "token_type_name UNQUOTED_TEXT = ''unquoted_text''"
| "token_type_name SUBSTITUTION = ''substitution''"
| "token_type_name PROBLEM = ''problem''"
| "token_type_name COMMENT = ''comment''"
| "token_type_name PLUS_EQUALS = ''plus_equals''"

text \<open>The debug strings the singletons are created with.\<close>

fun debug_string :: "token_type \<Rightarrow> string" where
  "debug_string START = ''start of file''"
| "debug_string END = ''end of file''"
| "debug_string COMMA = [CHR 0x27, CHR '','', CHR 0x27]"
| "debug_string EQUALS = [CHR 0x27, CHR ''='', CHR 0x27]"
| "debug_string COLON = [CHR 0x27, CHR '':'', CHR 0x27]"
| "debug_string OPEN_CURLY = [CHR 0x27, CHR ''{'', CHR 0x27]"
| "debug_string CLOSE_CURLY = [CHR 0x27, CHR ''}'', CHR 0x27]"
| "debug_string OPEN_SQUARE = [CHR 0x27, CHR ''['', CHR 0x27]"
| "debug_string CLOSE_SQUARE = [CHR 0x27, CHR '']'', CHR 0x27]"
| "debug_string PLUS_EQUALS = [CHR 0x27, CHR ''+'', CHR ''='', CHR 0x27]"
| "debug_string _ = []"

definition plain_to_string :: "token_type \<Rightarrow> string" where
  "plain_to_string t = (if debug_string t \<noteq> [] then debug_string t else token_type_name t)"

fun token_origin :: "token \<Rightarrow> config_exception + config_origin" where
  "token_origin (Token t) =
     Inl (ConfigExceptionBugOrBroken
            (''tried to get origin from token that doesn'' @ [CHR 0x27] @ ''t have one: '' @ plain_to_string t))"
| "token_origin (ValueToken v) = Inr (value_origin v)"
| "token_origin (LineToken orig) = Inr orig"
| "token_origin (UnquotedTextToken orig _) = Inr orig"
| "token_origin (ProblemToken orig _ _ _) = Inr orig"
| "token_origin (CommentToken orig _) = Inr orig"
| "token_origin (SubstitutionToken orig _ _) = Inr orig"

definition token_line_number :: "token \<Rightarrow> int" where
  "token_line_number t = (case token_origin t of Inr orig \<Rightarrow> line_no orig | Inl _ \<Rightarrow> -1)"

text \<open>
  The text of a value inside a token: the visitor \<open>_variant_string\<close> applied to the
  unwrapped value, which the unresolved classes refuse to give; a container is unwrapped
  member by member and shows as an address.
\<close>

fun unwrapped_string :: "fp_text \<Rightarrow> config_value \<Rightarrow> config_exception + string"
  and unwrapped_all :: "fp_text \<Rightarrow> config_value list \<Rightarrow> config_exception + string"
  and unwrapped_all_members :: "fp_text \<Rightarrow> (string \<times> config_value) list \<Rightarrow> config_exception + string" where
  "unwrapped_string fp (ConfigNull _) = Inr ''null''"
| "unwrapped_string fp (ConfigBoolean _ v) = Inr (if v then ''true'' else ''false'')"
| "unwrapped_string fp (ConfigInt _ v _) = Inr (show_int v)"
| "unwrapped_string fp (ConfigInt64 _ v _) = Inr (show_int v)"
| "unwrapped_string fp (ConfigDouble _ v _) = Inr (show_double fp v)"
| "unwrapped_string fp (ConfigString _ v) = Inr v"
| "unwrapped_string fp (SimpleConfigList _ vs _) = unwrapped_all fp vs"
| "unwrapped_string fp (SimpleConfigObject _ ms _ _) = unwrapped_all_members fp ms"
| "unwrapped_string fp _ = Inl ConfigExceptionNotResolved"
| "unwrapped_all fp [] = Inr (show_address fp)"
| "unwrapped_all fp (v # vs) = bind_exc (unwrapped_string fp v) (\<lambda>_. unwrapped_all fp vs)"
| "unwrapped_all_members fp [] = Inr (show_address fp)"
| "unwrapped_all_members fp ((k, v) # ms) = bind_exc (unwrapped_string fp v) (\<lambda>_. unwrapped_all_members fp ms)"

fun token_to_string :: "fp_text \<Rightarrow> token \<Rightarrow> config_exception + string"
  and tokens_to_string :: "fp_text \<Rightarrow> token list \<Rightarrow> config_exception + string" where
  "token_to_string fp (Token t) = Inr (plain_to_string t)"
| "token_to_string fp (ValueToken v) =
     bind_exc (unwrapped_string fp v)
       (\<lambda>s. bind_exc (value_type v)
         (\<lambda>t. Inr ([CHR 0x27] @ s @ [CHR 0x27] @ '' ('' @ value_type_name t @ '')'')))"
| "token_to_string fp (LineToken orig) =
     Inr ([CHR 0x27, CHR 0x5C, CHR ''n'', CHR 0x27, CHR ''@''] @ show_int (line_no orig))"
| "token_to_string fp (UnquotedTextToken _ s) = Inr ([CHR 0x27] @ s @ [CHR 0x27])"
| "token_to_string fp (ProblemToken _ what msg _) = Inr ([CHR 0x27] @ what @ [CHR 0x27] @ '' ('' @ msg @ '')'')"
| "token_to_string fp (CommentToken _ s) = Inr ([CHR 0x27, CHR 0x23] @ s @ [CHR 0x27] @ '' (comment)'')"
| "token_to_string fp (SubstitutionToken _ _ ts) =
     bind_exc (tokens_to_string fp ts) (\<lambda>s. Inr ([CHR 0x27] @ ''${'' @ s @ ''}'' @ [CHR 0x27]))"
| "tokens_to_string fp [] = Inr []"
| "tokens_to_string fp (t # ts) =
     bind_exc (token_to_string fp t) (\<lambda>s. bind_exc (tokens_to_string fp ts) (\<lambda>r. Inr (s @ r)))"

subsection \<open>Tests and accessors\<close>

fun is_value :: "token \<Rightarrow> bool" where
  "is_value (ValueToken _) = True" | "is_value _ = False"

fun is_newline :: "token \<Rightarrow> bool" where
  "is_newline (LineToken _) = True" | "is_newline _ = False"

fun is_problem :: "token \<Rightarrow> bool" where
  "is_problem (ProblemToken _ _ _ _) = True" | "is_problem _ = False"

fun is_comment :: "token \<Rightarrow> bool" where
  "is_comment (CommentToken _ _) = True" | "is_comment _ = False"

fun is_unquoted_text :: "token \<Rightarrow> bool" where
  "is_unquoted_text (UnquotedTextToken _ _) = True" | "is_unquoted_text _ = False"

fun is_substitution :: "token \<Rightarrow> bool" where
  "is_substitution (SubstitutionToken _ _ _) = True" | "is_substitution _ = False"

text \<open>An accessor applied to a token of the wrong class raises, with the token's text.\<close>

definition bug_token :: "fp_text \<Rightarrow> string \<Rightarrow> token \<Rightarrow> config_exception + 'a" where
  "bug_token fp msg t = bind_exc (token_to_string fp t) (\<lambda>s. Inl (ConfigExceptionBugOrBroken (msg @ s)))"

definition get_value :: "fp_text \<Rightarrow> token \<Rightarrow> config_exception + config_value" where
  "get_value fp t = (case t of ValueToken v \<Rightarrow> Inr v | _ \<Rightarrow> bug_token fp ''tried to get value of non-value token '' t)"

definition is_value_with_type :: "fp_text \<Rightarrow> token \<Rightarrow> config_value_type \<Rightarrow> config_exception + bool" where
  "is_value_with_type fp t ty =
     (if is_value t then bind_exc (get_value fp t) (\<lambda>v. bind_exc (value_type v) (\<lambda>u. Inr (u = ty)))
      else Inr False)"

definition get_problem_what :: "fp_text \<Rightarrow> token \<Rightarrow> config_exception + string" where
  "get_problem_what fp t =
     (case t of ProblemToken _ w _ _ \<Rightarrow> Inr w | _ \<Rightarrow> bug_token fp ''tried to get problem what from '' t)"

definition get_problem_message :: "fp_text \<Rightarrow> token \<Rightarrow> config_exception + string" where
  "get_problem_message fp t =
     (case t of ProblemToken _ _ m _ \<Rightarrow> Inr m | _ \<Rightarrow> bug_token fp ''tried to get problem message from '' t)"

definition get_problem_suggest_quotes :: "fp_text \<Rightarrow> token \<Rightarrow> config_exception + bool" where
  "get_problem_suggest_quotes fp t =
     (case t of ProblemToken _ _ _ q \<Rightarrow> Inr q | _ \<Rightarrow> bug_token fp ''tried to get problem suggest_quotes from '' t)"

definition get_comment_text :: "fp_text \<Rightarrow> token \<Rightarrow> config_exception + string" where
  "get_comment_text fp t =
     (case t of CommentToken _ s \<Rightarrow> Inr s | _ \<Rightarrow> bug_token fp ''tried to get comment text from '' t)"

definition get_unquoted_text :: "fp_text \<Rightarrow> token \<Rightarrow> config_exception + string" where
  "get_unquoted_text fp t =
     (case t of UnquotedTextToken _ s \<Rightarrow> Inr s | _ \<Rightarrow> bug_token fp ''tried to get unquoted text from '' t)"

definition get_substitution_path_expression :: "fp_text \<Rightarrow> token \<Rightarrow> config_exception + token list" where
  "get_substitution_path_expression fp t =
     (case t of SubstitutionToken _ _ ts \<Rightarrow> Inr ts | _ \<Rightarrow> bug_token fp ''tried to get substitution from '' t)"

definition get_substitution_optional :: "fp_text \<Rightarrow> token \<Rightarrow> config_exception + bool" where
  "get_substitution_optional fp t =
     (case t of SubstitutionToken _ q _ \<Rightarrow> Inr q
      | _ \<Rightarrow> bug_token fp ''tried to get substitution optionality from '' t)"

subsection \<open>Constructors for value tokens\<close>

definition new_string :: "config_origin \<Rightarrow> string \<Rightarrow> token" where
  "new_string orig s = ValueToken (ConfigString orig s)"

definition new_double :: "config_origin \<Rightarrow> double \<Rightarrow> string \<Rightarrow> token" where
  "new_double orig v t = ValueToken (new_number_double orig v t)"

definition new_int64 :: "config_origin \<Rightarrow> int \<Rightarrow> string \<Rightarrow> token" where
  "new_int64 orig v t = ValueToken (new_number_int64 orig v t)"

definition new_null :: "config_origin \<Rightarrow> token" where
  "new_null orig = ValueToken (ConfigNull orig)"

definition new_boolean :: "config_origin \<Rightarrow> bool \<Rightarrow> token" where
  "new_boolean orig v = ValueToken (ConfigBoolean orig v)"

lemma get_value_ValueToken [simp]: "get_value fp (ValueToken v) = Inr v"
  by (simp add: get_value_def)

lemma get_unquoted_text_Unquoted [simp]: "get_unquoted_text fp (UnquotedTextToken orig s) = Inr s"
  by (simp add: get_unquoted_text_def)

lemma is_value_with_type_simps [simp]:
  "is_value_with_type fp (ValueToken v) ty = bind_exc (value_type v) (\<lambda>u. Inr (u = ty))"
  "\<not> is_value t \<Longrightarrow> is_value_with_type fp t ty = Inr False"
  by (simp_all add: is_value_with_type_def)

end
