(* ===== verification/Reader.thy ===== *)
theory Reader
  imports Config_Token
begin

section \<open>Character streams (config/src/detail/string_reader.cpp, file_reader.cpp)\<close>

text \<open>
  The interface \<open>Reader\<close> and its two implementations.  A character travels as an
  \<^verbatim>\<open>int32_t\<close> converted from a signed \<^verbatim>\<open>char\<close>, and \<open>READER_EOF\<close> is -1, so the byte 255
  cannot be told from the end.  The contract, that reading yields the bytes of the source
  in order and then the end mark for ever, is the locale \<open>reader\<close>; both classes and their
  union, the dispatch of the virtual call, are interpretations of it.
\<close>

definition char_to_int :: "char \<Rightarrow> int" where
  "char_to_int c = (if code c < 128 then int (code c) else int (code c) - 256)"

definition int_to_char :: "int \<Rightarrow> char" where
  "int_to_char i = char_of (nat (i mod 256))"

definition READER_EOF :: int where "READER_EOF = -1"

record string_reader =
  str :: string
  position :: nat

definition new_string_reader :: "string \<Rightarrow> string_reader" where
  "new_string_reader s = \<lparr>str = s, position = 0\<rparr>"

definition string_read :: "string_reader \<Rightarrow> int \<times> string_reader" where
  "string_read r =
     (if length (str r) \<le> position r then (READER_EOF, r)
      else (char_to_int (str r ! position r), r\<lparr>position := position r + 1\<rparr>))"

definition string_close :: "string_reader \<Rightarrow> string_reader" where
  "string_close r = r\<lparr>str := [], position := 0\<rparr>"

definition BUFFER_SIZE :: nat where "BUFFER_SIZE = 8096"

text \<open>
  The file stream is what is still unread and its end-of-file flag, which a read sets when
  it got fewer bytes than it asked for.  Opening may fail (\<open>None\<close>).
\<close>

record file_reader =
  unread :: string
  at_eof :: bool
  file_buffer :: string
  size :: nat
  file_position :: nat

definition new_file_reader :: "string option \<Rightarrow> string \<Rightarrow> config_exception + file_reader" where
  "new_file_reader contents file =
     (case contents of
        None \<Rightarrow> Inl (ConfigExceptionIO (file @ '' not found''))
      | Some s \<Rightarrow> Inr \<lparr>unread = s, at_eof = False, file_buffer = [], size = 0, file_position = BUFFER_SIZE\<rparr>)"

definition fill_buffer :: "file_reader \<Rightarrow> bool \<times> file_reader" where
  "fill_buffer r =
     (if at_eof r then (READER_EOF \<noteq> 0, r)
      else let got = take BUFFER_SIZE (unread r)
           in (0 < length got,
               r\<lparr>unread := drop BUFFER_SIZE (unread r), at_eof := (length got < BUFFER_SIZE),
                 file_buffer := got @ drop (length got) (file_buffer r),
                 size := length got, file_position := 0\<rparr>))"

definition file_read_at :: "file_reader \<Rightarrow> int \<times> file_reader" where
  "file_read_at r =
     (if size r \<le> file_position r then (READER_EOF, r)
      else (char_to_int (file_buffer r ! file_position r), r\<lparr>file_position := file_position r + 1\<rparr>))"

definition file_read :: "file_reader \<Rightarrow> int \<times> file_reader" where
  "file_read r =
     (if BUFFER_SIZE \<le> file_position r
      then (let (filled, r') = fill_buffer r
            in if \<not> filled then (READER_EOF, r') else file_read_at r')
      else file_read_at r)"

definition file_close :: "file_reader \<Rightarrow> file_reader" where
  "file_close r = r\<lparr>file_position := BUFFER_SIZE, unread := []\<rparr>"

datatype reader = StringReader string_reader | FileReader file_reader

fun read_char :: "reader \<Rightarrow> int \<times> reader" where
  "read_char (StringReader r) = (let (c, r') = string_read r in (c, StringReader r'))"
| "read_char (FileReader r) = (let (c, r') = file_read r in (c, FileReader r'))"

fun close_reader :: "reader \<Rightarrow> reader" where
  "close_reader (StringReader r) = StringReader (string_close r)"
| "close_reader (FileReader r) = FileReader (file_close r)"

subsection \<open>Signed characters\<close>

lemma char_to_int_inject [simp]: "char_to_int c = char_to_int d \<longleftrightarrow> c = d"
proof -
  have "int (code c) < 256" "int (code d) < 256" by simp_all
  then have "char_to_int c = char_to_int d \<longleftrightarrow> int (code c) = int (code d)"
    unfolding char_to_int_def by (simp only: split: if_split) linarith
  then show ?thesis by simp
qed

lemma int_to_char_to_int [simp]: "int_to_char (char_to_int c) = c"
proof -
  have "char_to_int c mod 256 = int (code c) mod 256"
    by (simp add: char_to_int_def mod_diff_eq)
  then have "nat (char_to_int c mod 256) = code c" by simp
  then show ?thesis by (simp add: int_to_char_def)
qed

lemma char_to_int_range: "- 128 \<le> char_to_int c" "char_to_int c \<le> 127"
proof -
  have "int (code c) < 256" by simp
  then show "- 128 \<le> char_to_int c" "char_to_int c \<le> 127"
    unfolding char_to_int_def by (simp_all only: split: if_split) linarith+
qed

lemma char_to_int_eof: "char_to_int c = -1 \<longleftrightarrow> c = CHR 0xFF"
proof -
  have "char_to_int (CHR 0xFF) = -1" by (simp add: char_to_int_def)
  then show ?thesis using char_to_int_inject by metis
qed

subsection \<open>The contract\<close>

text \<open>The outcome of a number of successive reads.\<close>

fun read_many :: "('r \<Rightarrow> int \<times> 'r) \<Rightarrow> nat \<Rightarrow> 'r \<Rightarrow> int list" where
  "read_many read 0 r = []"
| "read_many read (Suc n) r = (let (c, r') = read r in c # read_many read n r')"

locale reader_spec =
  fixes read :: "'r \<Rightarrow> int \<times> 'r" and ok :: "'r \<Rightarrow> bool" and rest :: "'r \<Rightarrow> string"
  assumes read_end: "ok r \<Longrightarrow> rest r = [] \<Longrightarrow> \<exists>r'. read r = (READER_EOF, r') \<and> ok r' \<and> rest r' = []"
    and read_more: "ok r \<Longrightarrow> rest r = c # cs \<Longrightarrow> \<exists>r'. read r = (char_to_int c, r') \<and> ok r' \<and> rest r' = cs"
begin

lemma read_many_eq:
  "ok r \<Longrightarrow> read_many read n r = map char_to_int (take n (rest r)) @ replicate (n - length (rest r)) READER_EOF"
proof (induction n arbitrary: r)
  case (Suc n)
  show ?case
  proof (cases "rest r")
    case Nil
    obtain r' where r': "read r = (READER_EOF, r')" "ok r'" "rest r' = []"
      using read_end [OF Suc.prems Nil] by blast
    with Suc.IH [OF r'(2)] Nil show ?thesis by simp
  next
    case (Cons c cs)
    obtain r' where r': "read r = (char_to_int c, r')" "ok r'" "rest r' = cs"
      using read_more [OF Suc.prems Cons] by blast
    with Suc.IH [OF r'(2)] Cons show ?thesis by simp
  qed
qed simp

end

definition string_rest :: "string_reader \<Rightarrow> string" where
  "string_rest r = drop (position r) (str r)"

definition file_ok :: "file_reader \<Rightarrow> bool" where
  "file_ok r \<longleftrightarrow> size r \<le> length (file_buffer r) \<and> size r \<le> BUFFER_SIZE \<and>
     (file_position r < BUFFER_SIZE \<and> size r < BUFFER_SIZE \<longrightarrow> unread r = []) \<and>
     (at_eof r \<longrightarrow> unread r = [])"

definition file_rest :: "file_reader \<Rightarrow> string" where
  "file_rest r = drop (file_position r) (take (size r) (file_buffer r)) @ unread r"

fun reader_ok :: "reader \<Rightarrow> bool" where
  "reader_ok (StringReader r) = True"
| "reader_ok (FileReader r) = file_ok r"

fun reader_rest :: "reader \<Rightarrow> string" where
  "reader_rest (StringReader r) = string_rest r"
| "reader_rest (FileReader r) = file_rest r"

lemma file_read_at_end:
  "file_ok r \<Longrightarrow> size r \<le> file_position r \<Longrightarrow> file_read_at r = (READER_EOF, r)"
  by (simp add: file_read_at_def)

lemma file_read_at_more:
  assumes "file_ok r" "file_position r < size r" "file_rest r = c # cs"
  shows "\<exists>r'. file_read_at r = (char_to_int c, r') \<and> file_ok r' \<and> file_rest r' = cs"
proof -
  have "file_buffer r ! file_position r = c \<and>
        drop (Suc (file_position r)) (take (size r) (file_buffer r)) @ unread r = cs"
    using assms by (auto simp: file_ok_def file_rest_def Cons_nth_drop_Suc [symmetric])
  then show ?thesis
    using assms by (auto simp: file_read_at_def file_ok_def file_rest_def)
qed

lemma fill_buffer_ok:
  assumes "file_ok r" "BUFFER_SIZE \<le> file_position r" "unread r \<noteq> []"
  shows "\<exists>r'. fill_buffer r = (True, r') \<and> file_ok r' \<and> file_position r' < size r' \<and> file_rest r' = file_rest r"
  using assms by (auto simp: fill_buffer_def file_ok_def file_rest_def BUFFER_SIZE_def Let_def min_def)

lemma fill_buffer_empty:
  assumes "file_ok r" "BUFFER_SIZE \<le> file_position r" "unread r = []"
  shows "\<exists>b r'. fill_buffer r = (b, r') \<and> file_ok r' \<and> size r' \<le> file_position r' \<and> unread r' = []"
  using assms by (auto simp: fill_buffer_def file_ok_def Let_def)

interpretation sr: reader_spec string_read "\<lambda>_. True" string_rest
proof
  fix r :: string_reader and c cs
  assume "string_rest r = c # cs"
  then have "position r < length (str r)" "str r ! position r = c" "drop (Suc (position r)) (str r) = cs"
    by (auto simp: string_rest_def drop_Suc nth_via_drop drop_tl not_le [symmetric] simp flip: tl_drop)
  then show "\<exists>r'. string_read r = (char_to_int c, r') \<and> True \<and> string_rest r' = cs"
    by (simp add: string_read_def string_rest_def)
qed (simp add: string_read_def string_rest_def)

interpretation fr: reader_spec file_read file_ok file_rest
proof
  fix r :: file_reader
  assume r: "file_ok r" "file_rest r = []"
  then have *: "size r \<le> file_position r" "unread r = []"
    by (auto simp: file_rest_def file_ok_def)
  show "\<exists>r'. file_read r = (READER_EOF, r') \<and> file_ok r' \<and> file_rest r' = []"
  proof (cases "BUFFER_SIZE \<le> file_position r")
    case True
    with fill_buffer_empty [OF r(1) True *(2)] show ?thesis
      by (auto simp: file_read_def file_read_at_end file_rest_def)
  next
    case False
    with * r show ?thesis by (simp add: file_read_def file_read_at_end)
  qed
next
  fix r :: file_reader and c cs
  assume r: "file_ok r" "file_rest r = c # cs"
  show "\<exists>r'. file_read r = (char_to_int c, r') \<and> file_ok r' \<and> file_rest r' = cs"
  proof (cases "BUFFER_SIZE \<le> file_position r")
    case True
    with r have "unread r \<noteq> []" by (auto simp: file_rest_def file_ok_def)
    then obtain r' where r': "fill_buffer r = (True, r')" "file_ok r'" "file_position r' < size r'" "file_rest r' = c # cs"
      using fill_buffer_ok [OF r(1) True] r(2) by auto
    with file_read_at_more [OF r'(2) r'(3) r'(4)] True show ?thesis by (simp add: file_read_def)
  next
    case False
    with r have "drop (file_position r) (take (size r) (file_buffer r)) \<noteq> []"
      by (auto simp: file_rest_def file_ok_def)
    then have "file_position r < size r" by simp
    with file_read_at_more [OF r(1) _ r(2)] False show ?thesis by (simp add: file_read_def)
  qed
qed

interpretation rd: reader_spec read_char reader_ok reader_rest
proof
  fix r
  assume "reader_ok r" "reader_rest r = []"
  then show "\<exists>r'. read_char r = (READER_EOF, r') \<and> reader_ok r' \<and> reader_rest r' = []"
    using sr.read_end fr.read_end by (cases r) fastforce+
next
  fix r c cs
  assume "reader_ok r" "reader_rest r = c # cs"
  then show "\<exists>r'. read_char r = (char_to_int c, r') \<and> reader_ok r' \<and> reader_rest r' = cs"
    using sr.read_more fr.read_more by (cases r) fastforce+
qed


lemma new_file_reader_ok:
  "new_file_reader (Some s) f = Inr r \<Longrightarrow> file_ok r \<and> file_rest r = s"
  by (auto simp: new_file_reader_def file_ok_def file_rest_def)

lemma new_string_reader_rest [simp]: "string_rest (new_string_reader s) = s"
  by (simp add: string_rest_def new_string_reader_def)



subsection \<open>How much is left\<close>

text \<open>
  The number of bytes a reader can still deliver.  Every read that does not give the end
  mark makes it smaller, in every state: this is what the loops of the tokenizer
  terminate by.
\<close>

fun reader_size :: "reader \<Rightarrow> nat" where
  "reader_size (StringReader r) = length (str r) - position r"
| "reader_size (FileReader r) = (size r - file_position r) + length (unread r)"

lemma file_read_at_size:
  "file_read_at r = (c, r') \<Longrightarrow>
   (size r' - file_position r') + length (unread r') + (if c = READER_EOF then 0 else 1)
     \<le> (size r - file_position r) + length (unread r)"
  by (auto simp: file_read_at_def split: if_splits)

lemma fill_buffer_size:
  "fill_buffer r = (b, r') \<Longrightarrow>
   (size r' - file_position r') + length (unread r') \<le> (size r - file_position r) + length (unread r)"
  by (auto simp: fill_buffer_def Let_def split: if_splits)

lemma file_read_size:
  assumes "file_read r = (c, r')"
  shows "(size r' - file_position r') + length (unread r') + (if c = READER_EOF then 0 else 1)
     \<le> (size r - file_position r) + length (unread r)"
proof (cases "BUFFER_SIZE \<le> file_position r")
  case True
  obtain b r1 where fb: "fill_buffer r = (b, r1)" by fastforce
  show ?thesis
  proof (cases b)
    case True
    with assms fb \<open>BUFFER_SIZE \<le> file_position r\<close> have "file_read_at r1 = (c, r')"
      by (simp add: file_read_def)
    from file_read_at_size [OF this] fill_buffer_size [OF fb] show ?thesis by linarith
  next
    case False
    with assms fb True have "c = READER_EOF" "r' = r1" by (auto simp: file_read_def)
    with fill_buffer_size [OF fb] show ?thesis by simp
  qed
next
  case False
  with assms file_read_at_size show ?thesis by (simp add: file_read_def)
qed

lemma read_char_size:
  "read_char r = (c, r') \<Longrightarrow> reader_size r' + (if c = READER_EOF then 0 else 1) \<le> reader_size r"
proof (cases r)
  case (StringReader s)
  then show "read_char r = (c, r') \<Longrightarrow> ?thesis"
    by (auto simp: string_read_def split: if_splits)
next
  case (FileReader s)
  then show "read_char r = (c, r') \<Longrightarrow> ?thesis"
    using file_read_size [of s] by (cases "file_read s") auto
qed

end
