(* ===== verification/Tokenizer.thy ===== *)
theory Tokenizer
  imports Reader
begin

section \<open>The tokenizer (config/src/detail/tokenizer.cpp)\<close>

text \<open>
  \<open>TokenStream\<close> pulls characters from a reader through a small put-back buffer and
  queues tokens one at a time.  An operation takes the stream and returns an exception
  or a result together with the changed stream, since the stream survives a tokenizer
  problem: \<open>next\<close> catches it and queues it as a token.  The loops terminate by the number of
  characters left; the mutual recursion of \<open>pull_next_token\<close> and \<open>pull_substitution\<close> runs
  on fuel, and it is shown that the fuel \<open>next\<close> supplies is always enough.
\<close>

subsection \<open>State\<close>

datatype tok_exception = TokenizerProblem token | TokException config_exception | OutOfFuel

record whitespace_saver =
  whitespace :: string
  last_token_was_simple_value :: bool

record token_stream =
  ts_origin :: config_origin
  input :: reader
  allow_comments :: bool
  line_number :: int
  line_origin :: config_origin
  tokens :: "token list"
  buffer :: "int list"
  whitespace_saver :: whitespace_saver

type_synonym 'a pull = "(tok_exception + 'a) \<times> token_stream"

abbreviation ord_of :: "char \<Rightarrow> int" where "ord_of \<equiv> char_to_int"

definition new_saver :: whitespace_saver where
  "new_saver = \<lparr>whitespace = [], last_token_was_simple_value = False\<rparr>"

definition new_token_stream :: "config_origin \<Rightarrow> reader \<Rightarrow> bool \<Rightarrow> config_exception + token_stream" where
  "new_token_stream orig rd comments =
     bind_exc (set_line_number orig 1)
       (\<lambda>lo. Inr \<lparr>ts_origin = orig, input = rd, allow_comments = comments, line_number = 1,
                  line_origin = lo, tokens = [Token START], buffer = [],
                  whitespace_saver = new_saver\<rparr>)"

datatype config_syntax = SYNTAX_NONE | JSON | CONF

definition tokenize :: "config_origin \<Rightarrow> reader \<Rightarrow> config_syntax \<Rightarrow> config_exception + token_stream" where
  "tokenize orig rd flavor = new_token_stream orig rd (flavor \<noteq> JSON)"

text \<open>Sequencing of operations that may raise; the stream is threaded through.\<close>

definition then_pull :: "'a pull \<Rightarrow> ('a \<Rightarrow> token_stream \<Rightarrow> 'b pull) \<Rightarrow> 'b pull" where
  "then_pull m f = (case m of (Inl e, ts) \<Rightarrow> (Inl e, ts) | (Inr x, ts) \<Rightarrow> f x ts)"

subsection \<open>Characters\<close>

definition as_string :: "int \<Rightarrow> string" where
  "as_string codepoint =
     (if int_to_char codepoint = CHR 0x0A then ''newline''
      else if int_to_char codepoint = CHR 0x09 then ''tab''
      else if codepoint = -1 then ''end of file''
      else if is_cntrl (int_to_char codepoint)
           then ''control character 0x'' @
                [lower_hex ! (nat codepoint div 16), lower_hex ! (nat codepoint mod 16)]
      else [int_to_char codepoint])"

definition next_char_raw :: "token_stream \<Rightarrow> int \<times> token_stream" where
  "next_char_raw ts =
     (case buffer ts of
        [] \<Rightarrow> (let (c, r) = read_char (input ts) in (c, ts\<lparr>input := r\<rparr>))
      | c # cs \<Rightarrow> (c, ts\<lparr>buffer := cs\<rparr>))"

definition put_back :: "int \<Rightarrow> token_stream \<Rightarrow> unit pull" where
  "put_back c ts =
     (if 2 < length (buffer ts)
      then (Inl (TokException (ConfigExceptionBugOrBroken
                   ''bug: put_back() three times, undesirable look-ahead'')), ts)
      else (Inr (), ts\<lparr>buffer := c # buffer ts\<rparr>))"

definition is_whitespace :: "int \<Rightarrow> bool" where
  "is_whitespace c \<longleftrightarrow> (9 \<le> c \<and> c \<le> 13) \<or> c = 32"

definition is_whitespace_not_newline :: "int \<Rightarrow> bool" where
  "is_whitespace_not_newline c \<longleftrightarrow> c \<noteq> 10 \<and> is_whitespace c"

definition start_of_comment :: "int \<Rightarrow> token_stream \<Rightarrow> bool pull" where
  "start_of_comment c ts =
     (if c = -1 then (Inr False, ts)
      else if allow_comments ts
      then if c = ord_of CHR 0x23 then (Inr True, ts)
           else if c = ord_of CHR ''/''
           then let (maybe_second_slash, ts1) = next_char_raw ts
                in then_pull (put_back maybe_second_slash ts1)
                     (\<lambda>_ ts2. (Inr (maybe_second_slash = ord_of CHR ''/''), ts2))
           else (Inr False, ts)
      else (Inr False, ts))"

text \<open>What the termination of the loops rests on: the characters still to come.\<close>

definition stream_size :: "token_stream \<Rightarrow> nat" where
  "stream_size ts = length (filter (\<lambda>c. c \<noteq> -1) (buffer ts)) + reader_size (input ts)"

lemma next_char_raw_size:
  "next_char_raw ts = (c, ts') \<Longrightarrow> stream_size ts' + (if c = -1 then 0 else 1) \<le> stream_size ts"
  using read_char_size [of "input ts"]
  by (cases "buffer ts"; cases "read_char (input ts)")
     (auto simp: next_char_raw_def stream_size_def READER_EOF_def split: if_splits)

lemma put_back_size:
  "put_back c ts = (r, ts') \<Longrightarrow> stream_size ts' \<le> stream_size ts + (if c = -1 then 0 else 1)"
  by (auto simp: put_back_def stream_size_def split: if_splits)

lemma start_of_comment_size: "start_of_comment c ts = (r, ts') \<Longrightarrow> stream_size ts' \<le> stream_size ts"
proof (cases "next_char_raw ts")
  case (Pair d ts1)
  obtain q ts2 where pb: "put_back d ts1 = (q, ts2)" by fastforce
  have "stream_size ts2 \<le> stream_size ts"
    using next_char_raw_size [OF Pair] put_back_size [OF pb] by (auto split: if_splits)
  then show "start_of_comment c ts = (r, ts') \<Longrightarrow> ?thesis"
    using Pair pb by (auto simp: start_of_comment_def then_pull_def split: if_splits sum.splits)
qed

subsection \<open>The white space saver\<close>

definition saver_add :: "int \<Rightarrow> whitespace_saver \<Rightarrow> whitespace_saver" where
  "saver_add c s =
     (if last_token_was_simple_value s then s\<lparr>whitespace := whitespace s @ [int_to_char c]\<rparr> else s)"

definition next_is_not_a_simple_value :: "whitespace_saver \<Rightarrow> whitespace_saver" where
  "next_is_not_a_simple_value s = s\<lparr>last_token_was_simple_value := False, whitespace := []\<rparr>"

definition next_is_a_simple_value ::
  "config_origin \<Rightarrow> int \<Rightarrow> whitespace_saver \<Rightarrow> (config_exception + token option) \<times> whitespace_saver" where
  "next_is_a_simple_value base_origin n s =
     (if last_token_was_simple_value s
      then if whitespace s \<noteq> []
           then case set_line_number base_origin n of
                  Inl e \<Rightarrow> (Inl e, s)
                | Inr lo \<Rightarrow> (Inr (Some (UnquotedTextToken lo (whitespace s))), s\<lparr>whitespace := []\<rparr>)
           else (Inr None, s)
      else (Inr None, s\<lparr>last_token_was_simple_value := True, whitespace := []\<rparr>))"

definition is_simple_value :: "token \<Rightarrow> bool" where
  "is_simple_value t \<longleftrightarrow> is_substitution t \<or> is_unquoted_text t \<or> is_value t"

definition saver_check ::
  "token \<Rightarrow> config_origin \<Rightarrow> int \<Rightarrow> whitespace_saver \<Rightarrow> (config_exception + token option) \<times> whitespace_saver" where
  "saver_check t base_origin n s =
     (if is_simple_value t then next_is_a_simple_value base_origin n s
      else (Inr None, next_is_not_a_simple_value s))"

function next_char_after_whitespace ::
  "whitespace_saver \<Rightarrow> token_stream \<Rightarrow> int \<times> whitespace_saver \<times> token_stream" where
  "next_char_after_whitespace saver ts =
     (let (c, ts') = next_char_raw ts
      in if c = -1 then (-1, saver, ts')
         else if is_whitespace_not_newline c then next_char_after_whitespace (saver_add c saver) ts'
         else (c, saver, ts'))"
  by pat_completeness auto
termination
  by (relation "measure (\<lambda>(saver, ts). stream_size ts)") (auto dest!: next_char_raw_size [OF sym])

declare next_char_after_whitespace.simps [simp del]

subsection \<open>Problems\<close>

definition problem_at :: "config_origin \<Rightarrow> string \<Rightarrow> string \<Rightarrow> bool \<Rightarrow> tok_exception" where
  "problem_at orig what message suggest_quotes = TokenizerProblem (ProblemToken orig what message suggest_quotes)"

definition problem :: "token_stream \<Rightarrow> string \<Rightarrow> string \<Rightarrow> bool \<Rightarrow> tok_exception" where
  "problem ts what message suggest_quotes = problem_at (line_origin ts) what message suggest_quotes"

text \<open>A character between the quotation marks of a message.\<close>

definition quoted :: "string \<Rightarrow> string" where
  "quoted s = [CHR 0x27] @ s @ [CHR 0x27]"

subsection \<open>Comments, unquoted text and numbers\<close>

function comment_loop :: "string \<Rightarrow> token_stream \<Rightarrow> token pull" where
  "comment_loop s ts =
     (let (c, ts') = next_char_raw ts
      in if c = -1 \<or> c = 10
         then then_pull (put_back c ts') (\<lambda>_ ts''. (Inr (CommentToken (line_origin ts'') s), ts''))
         else comment_loop (s @ [int_to_char c]) ts')"
  by pat_completeness auto
termination
  by (relation "measure (\<lambda>(s, ts). stream_size ts)") (auto dest!: next_char_raw_size [OF sym])

declare comment_loop.simps [simp del]

definition pull_comment :: "int \<Rightarrow> token_stream \<Rightarrow> token pull" where
  "pull_comment first_char ts =
     (if first_char = ord_of CHR ''/''
      then let (discard, ts') = next_char_raw ts
           in if discard \<noteq> ord_of CHR ''/''
              then (Inl (TokException (ConfigExceptionBugOrBroken ''called pull_comment but // not seen'')), ts')
              else comment_loop [] ts'
      else comment_loop [] ts)"

definition not_in_unquoted_text :: string where
  "not_in_unquoted_text = ''$'' @ [CHR 0x22] @ ''{}[]:=,+#`^?!@*&'' @ [CHR 0x5C]"

definition first_number_chars :: string where
  "first_number_chars = ''0123456789-''"

definition number_chars :: string where
  "number_chars = ''0123456789e_e+-.''"

definition end_unquoted :: "config_origin \<Rightarrow> string \<Rightarrow> int \<Rightarrow> token_stream \<Rightarrow> token pull" where
  "end_unquoted orig sb c ts = then_pull (put_back c ts) (\<lambda>_ ts'. (Inr (UnquotedTextToken orig sb), ts'))"

function unquoted_loop :: "config_origin \<Rightarrow> string \<Rightarrow> int \<Rightarrow> token_stream \<Rightarrow> token pull" where
  "unquoted_loop orig sb c ts =
     (if c = -1 \<or> int_to_char c \<in> set not_in_unquoted_text \<or> is_whitespace c
      then end_unquoted orig sb c ts
      else case start_of_comment c ts of
             (Inl e, ts1) \<Rightarrow> (Inl e, ts1)
           | (Inr comment, ts1) \<Rightarrow>
               (if comment then end_unquoted orig sb c ts1
                else let sb' = sb @ [int_to_char c]
                     in if sb' = ''true'' then (Inr (new_boolean orig True), ts1)
                        else if sb' = ''null'' then (Inr (new_null orig), ts1)
                        else if sb' = ''false'' then (Inr (new_boolean orig False), ts1)
                        else let (c', ts2) = next_char_raw ts1 in unquoted_loop orig sb' c' ts2))"
  by pat_completeness auto
termination
proof (relation "measure (\<lambda>(orig, sb, c, ts). stream_size ts + (if c = -1 then 0 else 1))", goal_cases)
  case (2 orig sb c ts a ts1 comment sb' x c' ts2)
  then have "start_of_comment c ts = (Inr comment, ts1)" and "next_char_raw ts1 = (c', ts2)" by auto
  with start_of_comment_size [OF this(1)] next_char_raw_size [OF this(2)] 2(1) show ?case
    by simp
qed simp

declare unquoted_loop.simps [simp del]

definition pull_unquoted_text :: "token_stream \<Rightarrow> token pull" where
  "pull_unquoted_text ts =
     (let (c, ts') = next_char_raw ts in unquoted_loop (line_origin ts) [] c ts')"

text \<open>
  The source compares with the multi-character constant \<^verbatim>\<open>'_e'\<close>, whose value no character has.
\<close>

definition multichar_e :: int where "multichar_e = 0x5F * 256 + 0x65"

function number_loop :: "string \<Rightarrow> bool \<Rightarrow> int \<Rightarrow> token_stream \<Rightarrow> (string \<times> bool \<times> int) \<times> token_stream" where
  "number_loop s contained_decimal_or_e c ts =
     (if c \<noteq> -1 \<and> int_to_char c \<in> set number_chars
      then let (c', ts') = next_char_raw ts
           in number_loop (s @ [int_to_char c])
                (contained_decimal_or_e \<or> c = ord_of CHR ''.'' \<or> c = ord_of CHR ''e'' \<or> c = multichar_e) c' ts'
      else ((s, contained_decimal_or_e, c), ts))"
  by pat_completeness auto
termination
proof (relation "measure (\<lambda>(s, d, c, ts). stream_size ts + (if c = -1 then 0 else 1))", goal_cases)
  case (2 s d c ts x c' ts')
  then have "next_char_raw ts = (c', ts')" by simp
  with next_char_raw_size [OF this] 2(1) show ?case by simp
qed simp

declare number_loop.simps [simp del]

definition pull_number :: "fp_text \<Rightarrow> int \<Rightarrow> token_stream \<Rightarrow> token pull" where
  "pull_number fp first_char ts =
     (let (c, ts1) = next_char_raw ts;
          ((s, contained_decimal_or_e, c'), ts2) = number_loop [int_to_char first_char] False c ts1
      in then_pull (put_back c' ts2)
           (\<lambda>_ ts3.
              let invalid = Inl (problem ts3 s (''_invalid number: '' @ quoted s) True)
              in if contained_decimal_or_e
                 then case lexical_double fp s of
                        Some v \<Rightarrow> (Inr (new_double (line_origin ts3) v s), ts3)
                      | None \<Rightarrow> (invalid, ts3)
                 else case lexical_int64 s of
                        Some v \<Rightarrow> (Inr (new_int64 (line_origin ts3) v s), ts3)
                      | None \<Rightarrow> (invalid, ts3)))"


subsection \<open>Quoted strings\<close>

text \<open>
  \<^verbatim>\<open>strtol(s, 0, 16)\<close>: white space, an optional sign, an optional \<^verbatim>\<open>0x\<close> before a hexadecimal
  digit, then digits; zero when there are none.
\<close>

definition hex_val :: "char \<Rightarrow> nat option" where
  "hex_val c =
     (if is_digit c then Some (code c - 48)
      else if 97 \<le> code c \<and> code c \<le> 102 then Some (code c - 87)
      else if 65 \<le> code c \<and> code c \<le> 70 then Some (code c - 55)
      else None)"

fun hex_digits_val :: "nat \<Rightarrow> string \<Rightarrow> nat" where
  "hex_digits_val acc [] = acc"
| "hex_digits_val acc (c # cs) =
     (case hex_val c of None \<Rightarrow> acc | Some v \<Rightarrow> hex_digits_val (16 * acc + v) cs)"

definition drop_0x :: "string \<Rightarrow> string" where
  "drop_0x s =
     (case s of
        z # x # d # r \<Rightarrow>
          if z = CHR ''0'' \<and> (x = CHR ''x'' \<or> x = CHR ''X'') \<and> hex_val d \<noteq> None then d # r else s
      | _ \<Rightarrow> s)"

definition strtol16 :: "string \<Rightarrow> int" where
  "strtol16 s =
     (let t = dropWhile is_space (c_str s)
      in case t of
           [] \<Rightarrow> 0
         | c # r \<Rightarrow>
             if c = CHR ''-'' then - int (hex_digits_val 0 (drop_0x r))
             else if c = CHR ''+'' then int (hex_digits_val 0 (drop_0x r))
             else int (hex_digits_val 0 (drop_0x t)))"

fun pull_hex_digits :: "nat \<Rightarrow> string \<Rightarrow> token_stream \<Rightarrow> string pull" where
  "pull_hex_digits 0 digits ts = (Inr digits, ts)"
| "pull_hex_digits (Suc n) digits ts =
     (let (c, ts') = next_char_raw ts
      in if c = -1
         then (Inl (problem ts' [] (''_end of input but expecting 4 hex digits for '' @ [CHR 0x5C] @
                                    ''u_x_x_x_x escape'') False), ts')
         else pull_hex_digits n (digits @ [int_to_char c]) ts')"

definition simple_escape :: "int \<Rightarrow> char option" where
  "simple_escape escaped =
     (if escaped = ord_of CHR 0x22 then Some CHR 0x22
      else if escaped = ord_of CHR 0x5C then Some CHR 0x5C
      else if escaped = ord_of CHR ''/'' then Some CHR ''/''
      else if escaped = ord_of CHR ''b'' then Some CHR 0x08
      else if escaped = ord_of CHR ''f'' then Some CHR 0x0C
      else if escaped = ord_of CHR ''n'' then Some CHR 0x0A
      else if escaped = ord_of CHR ''r'' then Some CHR 0x0D
      else if escaped = ord_of CHR ''t'' then Some CHR 0x09
      else None)"

definition pull_escape_sequence :: "string \<Rightarrow> token_stream \<Rightarrow> string pull" where
  "pull_escape_sequence s ts =
     (let (escaped, ts') = next_char_raw ts
      in if escaped = -1
         then (Inl (problem ts' [] ''_end of input but backslash in string had nothing after it'' False), ts')
         else case simple_escape escaped of
                Some ch \<Rightarrow> (Inr (s @ [ch]), ts')
              | None \<Rightarrow>
                  if escaped = ord_of CHR ''u''
                  then then_pull (pull_hex_digits 4 [] ts')
                         (\<lambda>digits ts''. (Inr (s @ [int_to_char (strtol16 digits)]), ts''))
                  else (Inl (problem ts' (as_string escaped)
                              (''backslash followed by '' @ quoted (as_string escaped) @
                               '', this is not a valid escape sequence (quoted strings use JSON escaping, so use double-backslash ''
                               @ [CHR 0x5C, CHR 0x5C] @ '' for literal backslash)'') False), ts'))"

lemma pull_hex_digits_size: "pull_hex_digits n d ts = (r, ts') \<Longrightarrow> stream_size ts' \<le> stream_size ts"
proof (induction n d ts rule: pull_hex_digits.induct)
  case (2 n d ts)
  obtain c ts1 where c: "next_char_raw ts = (c, ts1)" by fastforce
  from next_char_raw_size [OF this] 2 show ?case
    by (fastforce simp: c split: if_splits)
qed simp

lemma pull_escape_sequence_size:
  "pull_escape_sequence s ts = (r, ts') \<Longrightarrow> stream_size ts' \<le> stream_size ts"
proof -
  assume a: "pull_escape_sequence s ts = (r, ts')"
  obtain c ts1 where c: "next_char_raw ts = (c, ts1)" by fastforce
  obtain q ts2 where d: "pull_hex_digits 4 [] ts1 = (q, ts2)" by fastforce
  have "ts' = ts1 \<or> ts' = ts2"
    using a by (auto simp: pull_escape_sequence_def c d then_pull_def split: if_splits option.splits sum.splits)
  then show ?thesis
    using next_char_raw_size [OF c] pull_hex_digits_size [OF d] by auto
qed

function triple_loop :: "nat \<Rightarrow> string \<Rightarrow> token_stream \<Rightarrow> string pull" where
  "triple_loop consecutive_quotes s ts =
     (let (c, ts') = next_char_raw ts
      in if c = ord_of CHR 0x22 then triple_loop (consecutive_quotes + 1) (s @ [int_to_char c]) ts'
         else if 3 \<le> consecutive_quotes
         then then_pull (put_back c ts') (\<lambda>_ ts''. (Inr (take (length s - 3) s), ts''))
         else if c = -1
         then (Inl (problem ts' [] ''_end of input but triple-quoted string was still open'' False), ts')
         else triple_loop 0 (s @ [int_to_char c]) ts')"
  by pat_completeness auto
termination
  by (relation "measure (\<lambda>(q, s, ts). stream_size ts)")
     (auto dest!: next_char_raw_size [OF sym] simp: char_to_int_def)

declare triple_loop.simps [simp del]

definition append_triple_quoted_string :: "string \<Rightarrow> token_stream \<Rightarrow> string pull" where
  "append_triple_quoted_string s ts = triple_loop 0 s ts"

function quoted_loop :: "string \<Rightarrow> token_stream \<Rightarrow> string pull" where
  "quoted_loop s ts =
     (let (c, ts') = next_char_raw ts
      in if c = -1 then (Inl (problem ts' [] ''_end of input but string quote was still open'' False), ts')
         else if c = ord_of CHR 0x5C
         then (case pull_escape_sequence s ts' of
                 (Inl e, ts'') \<Rightarrow> (Inl e, ts'')
               | (Inr s', ts'') \<Rightarrow> quoted_loop s' ts'')
         else if c = ord_of CHR 0x22 then (Inr s, ts')
         else if is_cntrl (int_to_char c)
         then (Inl (problem ts' (as_string c)
                     (''JSON does not allow unescaped '' @ as_string c @
                      '' in quoted strings, use a backslash escape'') False), ts')
         else quoted_loop (s @ [int_to_char c]) ts')"
  by pat_completeness auto
termination
proof (relation "measure (\<lambda>(s, ts). stream_size ts)", goal_cases)
  case (2 s ts x c ts' r ts'' s')
  then have "next_char_raw ts = (c, ts')" "pull_escape_sequence s ts' = (Inr s', ts'')" by simp_all
  from next_char_raw_size [OF this(1)] pull_escape_sequence_size [OF this(2)] 2(3) show ?case by simp
qed (auto dest!: next_char_raw_size [OF sym])

declare quoted_loop.simps [simp del]

definition pull_quoted_string :: "token_stream \<Rightarrow> token pull" where
  "pull_quoted_string ts =
     then_pull (quoted_loop [] ts)
       (\<lambda>s ts1.
          then_pull
            (if s = []
             then let (third, ts2) = next_char_raw ts1
                  in if third = ord_of CHR 0x22 then append_triple_quoted_string s ts2
                     else then_pull (put_back third ts2) (\<lambda>_ ts3. (Inr s, ts3))
             else (Inr s, ts1))
            (\<lambda>s' ts4. (Inr (new_string (line_origin ts4) s'), ts4)))"

definition pull_plus_equals :: "token_stream \<Rightarrow> token pull" where
  "pull_plus_equals ts =
     (let (c, ts') = next_char_raw ts
      in if c \<noteq> ord_of CHR ''=''
         then (Inl (problem ts' (as_string c)
                     (quoted ''+'' @ '' not followed by =, '' @ quoted (as_string c) @ '' not allowed after '' @ quoted ''+'')
                     True), ts')
         else (Inr (Token PLUS_EQUALS), ts'))"

subsection \<open>The next token\<close>

text \<open>The part of \<open>pull_substitution\<close> before its loop: the brace and the question mark.\<close>

definition substitution_head :: "token_stream \<Rightarrow> bool pull" where
  "substitution_head ts =
     (let (c, ts1) = next_char_raw ts
      in if c \<noteq> ord_of CHR ''{''
         then (Inl (problem ts1 (as_string c)
                     (quoted ''$'' @ '' not followed by {, '' @ quoted (as_string c) @ '' not allowed after '' @ quoted ''$'')
                     True), ts1)
         else let (d, ts2) = next_char_raw ts1
              in if d = ord_of CHR ''?'' then (Inr True, ts2)
                 else then_pull (put_back d ts2) (\<lambda>_ ts3. (Inr False, ts3)))"

definition end_of_line :: "token_stream \<Rightarrow> token pull" where
  "end_of_line ts =
     (let line = LineToken (line_origin ts); n = line_number ts + 1
      in case set_line_number (ts_origin ts) n of
           Inl e \<Rightarrow> (Inl (TokException e), ts\<lparr>line_number := n\<rparr>)
         | Inr lo \<Rightarrow> (Inr line, ts\<lparr>line_number := n, line_origin := lo\<rparr>))"

definition punctuation :: "int \<Rightarrow> token option" where
  "punctuation c =
     (if c = ord_of CHR '':'' then Some (Token COLON)
      else if c = ord_of CHR '','' then Some (Token COMMA)
      else if c = ord_of CHR ''='' then Some (Token EQUALS)
      else if c = ord_of CHR ''{'' then Some (Token OPEN_CURLY)
      else if c = ord_of CHR ''}'' then Some (Token CLOSE_CURLY)
      else if c = ord_of CHR ''['' then Some (Token OPEN_SQUARE)
      else if c = ord_of CHR '']'' then Some (Token CLOSE_SQUARE)
      else None)"

text \<open>The branch that is neither a comment, a string, a substitution nor punctuation.\<close>

definition pull_other :: "fp_text \<Rightarrow> int \<Rightarrow> token_stream \<Rightarrow> token pull" where
  "pull_other fp c ts =
     (if int_to_char c \<in> set first_number_chars then pull_number fp c ts
      else if int_to_char c \<in> set not_in_unquoted_text
      then (Inl (problem ts (as_string c)
                  (''_reserved character '' @ quoted (as_string c) @ '' is not allowed outside quotes'') True), ts)
      else then_pull (put_back c ts) (\<lambda>_ ts'. pull_unquoted_text ts'))"

fun pull_next_token :: "fp_text \<Rightarrow> nat \<Rightarrow> whitespace_saver \<Rightarrow> token_stream \<Rightarrow> whitespace_saver \<times> token pull"
  and substitution_loop ::
    "fp_text \<Rightarrow> nat \<Rightarrow> config_origin \<Rightarrow> bool \<Rightarrow> token list \<Rightarrow> whitespace_saver \<Rightarrow> token_stream \<Rightarrow> token pull" where
  "pull_next_token fp 0 saver ts = (saver, Inl OutOfFuel, ts)"
| "pull_next_token fp (Suc n) saver ts =
     (let (c, saver', ts1) = next_char_after_whitespace saver ts
      in (saver',
          if c = -1 then (Inr (Token END), ts1)
          else if c = 10 then end_of_line ts1
          else then_pull (start_of_comment c ts1)
                 (\<lambda>comment ts2.
                    if comment then pull_comment c ts2
                    else if c = ord_of CHR 0x22 then pull_quoted_string ts2
                    else if c = ord_of CHR ''$''
                    then then_pull (substitution_head ts2)
                           (\<lambda>opt ts3. substitution_loop fp n (line_origin ts2) opt [] new_saver ts3)
                    else case punctuation c of
                           Some t \<Rightarrow> (Inr t, ts2)
                         | None \<Rightarrow> if c = ord_of CHR ''+'' then pull_plus_equals ts2
                                   else pull_other fp c ts2)))"
| "substitution_loop fp 0 orig opt expression saver ts = (Inl OutOfFuel, ts)"
| "substitution_loop fp (Suc n) orig opt expression saver ts =
     (let (saver', m) = pull_next_token fp n saver ts
      in then_pull m
           (\<lambda>t ts'.
              if t = Token CLOSE_CURLY then (Inr (SubstitutionToken orig opt expression), ts')
              else if t = Token END
              then (Inl (problem_at orig [] ''_substitution ${ was not closed with a }'' False), ts')
              else case saver_check t orig (line_number ts') saver' of
                     (Inl e, saver'') \<Rightarrow> (Inl (TokException e), ts')
                   | (Inr None, saver'') \<Rightarrow>
                       substitution_loop fp n orig opt (expression @ [t]) saver'' ts'
                   | (Inr (Some w), saver'') \<Rightarrow>
                       substitution_loop fp n orig opt (expression @ [w, t]) saver'' ts'))"

declare pull_next_token.simps(2) [simp del] substitution_loop.simps(2) [simp del]

definition token_fuel :: "token_stream \<Rightarrow> nat" where
  "token_fuel ts = 2 * stream_size ts + 1"

definition queue_next_token :: "fp_text \<Rightarrow> token_stream \<Rightarrow> unit pull" where
  "queue_next_token fp ts =
     (let (saver, m) = pull_next_token fp (token_fuel ts) (whitespace_saver ts) ts
      in case m of
           (Inl e, ts') \<Rightarrow> (Inl e, ts'\<lparr>whitespace_saver := saver\<rparr>)
         | (Inr t, ts') \<Rightarrow>
             (case saver_check t (ts_origin ts') (line_number ts') saver of
                (Inl e, saver') \<Rightarrow> (Inl (TokException e), ts'\<lparr>whitespace_saver := saver'\<rparr>)
              | (Inr w, saver') \<Rightarrow>
                  (Inr (), ts'\<lparr>whitespace_saver := saver',
                              tokens := tokens ts' @ (case w of None \<Rightarrow> [] | Some u \<Rightarrow> [u]) @ [t]\<rparr>)))"

definition has_next :: "token_stream \<Rightarrow> bool" where
  "has_next ts \<longleftrightarrow> tokens ts \<noteq> []"

definition next_token :: "fp_text \<Rightarrow> token_stream \<Rightarrow> token pull" where
  "next_token fp ts =
     (case tokens ts of
        [] \<Rightarrow> (Inl (TokException NullPointer), ts)
      | t # rest \<Rightarrow>
          let ts1 = ts\<lparr>tokens := rest\<rparr>
          in if rest = [] \<and> t \<noteq> Token END
             then case queue_next_token fp ts1 of
                    (Inl (TokenizerProblem p), ts2) \<Rightarrow> (Inr t, ts2\<lparr>tokens := tokens ts2 @ [p]\<rparr>)
                  | (Inl e, ts2) \<Rightarrow> (Inl e, ts2)
                  | (Inr _, ts2) \<Rightarrow>
                      if tokens ts2 = []
                      then (Inl (TokException (ConfigExceptionBugOrBroken
                                   ''bug: tokens queue should not be empty here'')), ts2)
                      else (Inr t, ts2)
             else (Inr t, ts1))"


subsection \<open>What an operation keeps\<close>

abbreviation buffered :: "token_stream \<Rightarrow> nat" where
  "buffered ts \<equiv> length (buffer ts)"

definition same_frame :: "token_stream \<Rightarrow> token_stream \<Rightarrow> bool" where
  "same_frame ts ts' \<longleftrightarrow>
     ts_origin ts' = ts_origin ts \<and> allow_comments ts' = allow_comments ts \<and> tokens ts' = tokens ts \<and>
     whitespace_saver ts' = whitespace_saver ts \<and> desc (line_origin ts') = desc (line_origin ts)"

definition only_problems :: "tok_exception + 'a \<Rightarrow> bool" where
  "only_problems r \<longleftrightarrow>
     (case r of Inl (TokenizerProblem p) \<Rightarrow> is_problem p | Inl _ \<Rightarrow> False | Inr _ \<Rightarrow> True)"

text \<open>
  The outcome \<open>m\<close> of an operation on \<open>ts\<close> leaves at most \<open>b\<close> characters in the put-back
  buffer and at most \<open>n\<close> characters to read, touches nothing else of the stream, and if
  it raises then a tokenizer problem.
\<close>

definition pulled :: "nat \<Rightarrow> nat \<Rightarrow> token_stream \<Rightarrow> 'a pull \<Rightarrow> bool" where
  "pulled b n ts m \<longleftrightarrow>
     buffered (snd m) \<le> b \<and> stream_size (snd m) \<le> n \<and> same_frame ts (snd m) \<and> only_problems (fst m)"

lemma same_frame_refl [simp]: "same_frame ts ts"
  by (simp add: same_frame_def)

lemma same_frame_trans: "same_frame ts ts' \<Longrightarrow> same_frame ts' ts'' \<Longrightarrow> same_frame ts ts''"
  by (simp add: same_frame_def)

lemma only_problems_simps [simp]:
  "only_problems (Inr x)" "only_problems (Inl (problem ts w m q))" "only_problems (Inl (problem_at orig w m q))"
  "\<not> only_problems (Inl (TokException e))" "\<not> only_problems (Inl OutOfFuel)"
  by (simp_all add: only_problems_def problem_def problem_at_def)

lemma pulledI [intro]:
  "buffered ts' \<le> b \<Longrightarrow> stream_size ts' \<le> n \<Longrightarrow> same_frame ts ts' \<Longrightarrow> only_problems r \<Longrightarrow> pulled b n ts (r, ts')"
  by (simp add: pulled_def)

lemma pulledD:
  "pulled b n ts (r, ts') \<Longrightarrow> buffered ts' \<le> b \<and> stream_size ts' \<le> n \<and> same_frame ts ts' \<and> only_problems r"
  by (simp add: pulled_def)

lemma pulled_weaken:
  "pulled b n ts' m \<Longrightarrow> same_frame ts ts' \<Longrightarrow> b \<le> b' \<Longrightarrow> n \<le> n' \<Longrightarrow> pulled b' n' ts m"
  by (auto simp: pulled_def intro: same_frame_trans)

lemma pulled_then:
  assumes "pulled b n ts m" and "b \<le> b'" "n \<le> n'"
    and "\<And>x ts'. m = (Inr x, ts') \<Longrightarrow> buffered ts' \<le> b \<Longrightarrow> stream_size ts' \<le> n \<Longrightarrow> same_frame ts ts' \<Longrightarrow>
           pulled b' n' ts' (f x ts')"
  shows "pulled b' n' ts (then_pull m f)"
proof (cases m)
  case (Pair r ts')
  note ts' = pulledD [OF assms(1) [unfolded Pair]]
  show ?thesis
  proof (cases r)
    case (Inl e)
    with Pair ts' assms(2,3) show ?thesis by (auto simp: then_pull_def only_problems_def)
  next
    case (Inr x)
    with assms(4) [of x ts'] Pair ts' show ?thesis
      by (auto simp: then_pull_def intro: pulled_weaken)
  qed
qed

lemma next_char_raw_frame [frame_simps]:
  assumes "next_char_raw ts = (c, ts')"
  shows "same_frame ts ts'" "buffered ts' = buffered ts - 1" "line_origin ts' = line_origin ts"
    "line_number ts' = line_number ts"
  using assms
  by (cases "buffer ts"; cases "read_char (input ts)"; auto simp: next_char_raw_def same_frame_def)+

lemma put_back_ok:
  assumes "buffered ts \<le> 2"
  shows "\<exists>ts'. put_back c ts = (Inr (), ts') \<and> same_frame ts ts' \<and> buffered ts' = buffered ts + 1 \<and>
           next_char_raw ts' = (c, ts) \<and> stream_size ts' = stream_size ts + (if c = -1 then 0 else 1) \<and>
           line_origin ts' = line_origin ts \<and> line_number ts' = line_number ts"
  using assms by (auto simp: put_back_def same_frame_def next_char_raw_def stream_size_def)

lemma pulled_put_back:
  "buffered ts < b \<Longrightarrow> b \<le> 3 \<Longrightarrow> stream_size ts + (if c = -1 then 0 else 1) \<le> n \<Longrightarrow> pulled b n ts (put_back c ts)"
  using put_back_ok [of ts c] by (auto simp: pulled_def)

lemma pulled_put_back_then:
  assumes "buffered ts \<le> 1" "stream_size ts + (if c = -1 then 0 else 1) \<le> n" "same_frame ts0 ts"
    and "\<And>ts'. buffered ts' \<le> 2 \<Longrightarrow> stream_size ts' \<le> n \<Longrightarrow> same_frame ts ts' \<Longrightarrow> pulled 2 n ts' (f () ts')"
  shows "pulled 2 n ts0 (then_pull (put_back c ts) f)"
proof -
  have "pulled 2 n ts (then_pull (put_back c ts) f)"
    by (rule pulled_then [OF pulled_put_back [where b = 2 and n = n]]) (use assms in auto)
  then show ?thesis using assms(3) by (auto intro: pulled_weaken)
qed

lemma start_of_comment_ok:
  assumes "buffered ts \<le> 1"
  obtains comment ts' where "start_of_comment c ts = (Inr comment, ts')" "same_frame ts ts'"
    "buffered ts' \<le> 1" "stream_size ts' \<le> stream_size ts" "line_origin ts' = line_origin ts"
    "start_of_comment c ts' = (Inr comment, ts')"
    "comment \<longrightarrow> c = ord_of CHR ''/'' \<longrightarrow> (\<exists>ts''. next_char_raw ts' = (ord_of CHR ''/'', ts''))"
proof (cases "c \<noteq> -1 \<and> allow_comments ts \<and> c = ord_of CHR ''/''")
  case True
  obtain d ts1 where d: "next_char_raw ts = (d, ts1)" by fastforce
  have b: "buffered ts1 = 0" using next_char_raw_frame(2) [OF d] assms by simp
  obtain ts2 where ts2: "put_back d ts1 = (Inr (), ts2)" "same_frame ts1 ts2" "buffered ts2 = 1"
      "next_char_raw ts2 = (d, ts1)" "stream_size ts2 = stream_size ts1 + (if d = -1 then 0 else 1)"
      "line_origin ts2 = line_origin ts1"
    using put_back_ok [of ts1 d] b by auto
  have f: "same_frame ts ts2"
    using next_char_raw_frame(1) [OF d] ts2(2) same_frame_trans by blast
  then have "allow_comments ts2" using True by (simp add: same_frame_def)
  then show ?thesis
    using that [of "d = ord_of CHR ''/''" ts2] True d ts2 f next_char_raw_size [OF d] next_char_raw_frame(3) [OF d]
    by (auto simp: start_of_comment_def then_pull_def char_to_int_def split: if_splits)
next
  case False
  then show ?thesis
    using that [of "c \<noteq> -1 \<and> allow_comments ts \<and> c = ord_of CHR 0x23" ts] assms
    by (auto simp: start_of_comment_def char_to_int_def)
qed

lemma comment_loop_ok: "buffered ts \<le> 2 \<Longrightarrow> pulled 2 (stream_size ts) ts (comment_loop s ts)"
proof (induction s ts rule: comment_loop.induct)
  case (1 s ts)
  obtain c ts1 where c: "next_char_raw ts = (c, ts1)" by fastforce
  note f = next_char_raw_frame [OF c] next_char_raw_size [OF c]
  show ?case
  proof (cases "c = -1 \<or> c = 10")
    case True
    have "pulled 2 (stream_size ts) ts (then_pull (put_back c ts1) (\<lambda>_ ts''. (Inr (CommentToken (line_origin ts'') s), ts'')))"
      by (rule pulled_put_back_then) (use f "1.prems" in \<open>auto split: if_splits\<close>)
    with True show ?thesis
      by (subst comment_loop.simps) (simp add: c)
  next
    case False
    have "pulled 2 (stream_size ts1) ts1 (comment_loop (s @ [int_to_char c]) ts1)"
      using "1.IH" [OF c [symmetric]] False f "1.prems" by simp
    then show ?thesis
      using False f by (subst comment_loop.simps) (auto simp: c intro: pulled_weaken)
  qed
qed


lemma pull_comment_ok:
  assumes "buffered ts \<le> 2" "c = ord_of CHR ''/'' \<longrightarrow> (\<exists>ts'. next_char_raw ts = (ord_of CHR ''/'', ts'))"
  shows "pulled 2 (stream_size ts) ts (pull_comment c ts)"
proof (cases "c = ord_of CHR ''/''")
  case True
  with assms(2) obtain ts1 where n: "next_char_raw ts = (ord_of CHR ''/'', ts1)" by blast
  note f = next_char_raw_frame [OF n] next_char_raw_size [OF n]
  have "pulled 2 (stream_size ts1) ts1 (comment_loop [] ts1)"
    using comment_loop_ok f(2) assms(1) by simp
  then show ?thesis
    using True n f by (auto simp: pull_comment_def intro: pulled_weaken)
next
  case False
  then show ?thesis using comment_loop_ok assms(1) by (simp add: pull_comment_def)
qed

lemma end_unquoted_ok:
  assumes "buffered ts \<le> 1" "stream_size ts + (if c = -1 then 0 else 1) \<le> n"
  shows "pulled 2 n ts (end_unquoted orig sb c ts)"
  unfolding end_unquoted_def
  by (rule pulled_put_back_then) (use assms in auto)

lemma unquoted_loop_ok:
  "buffered ts \<le> 1 \<Longrightarrow> stream_size ts + (if c = -1 then 0 else 1) \<le> n \<Longrightarrow>
   pulled 2 n ts (unquoted_loop orig sb c ts)"
proof (induction orig sb c ts arbitrary: n rule: unquoted_loop.induct)
  case (1 orig sb c ts)
  show ?case
  proof (cases "c = -1 \<or> int_to_char c \<in> set not_in_unquoted_text \<or> is_whitespace c")
    case True
    then show ?thesis
      by (subst unquoted_loop.simps) (simp only: simp_thms if_True end_unquoted_ok [OF "1.prems"])
  next
    case False
    obtain comment ts1 where soc: "start_of_comment c ts = (Inr comment, ts1)" "same_frame ts ts1"
        "buffered ts1 \<le> 1" "stream_size ts1 \<le> stream_size ts"
      using start_of_comment_ok [OF "1.prems"(1), of c] by metis
    have n: "stream_size ts1 + 1 \<le> n" using "1.prems"(2) soc(4) False by simp
    have e: "pulled 2 n ts (end_unquoted orig sb c ts1)"
      by (rule pulled_weaken [OF end_unquoted_ok [OF soc(3)] soc(2)]) (use n in auto)
    have stop: "pulled 2 n ts (Inr t, ts1)" for t :: token
      using soc n by auto
    obtain c' ts2 where c': "next_char_raw ts1 = (c', ts2)" by fastforce
    note f = next_char_raw_frame [OF c'] next_char_raw_size [OF c']
    have rec: "pulled 2 n ts (unquoted_loop orig (sb @ [int_to_char c]) c' ts2)"
      if "\<not> comment" "sb @ [int_to_char c] \<noteq> ''true''" "sb @ [int_to_char c] \<noteq> ''null''" "sb @ [int_to_char c] \<noteq> ''false''"
    proof -
      have "pulled 2 n ts2 (unquoted_loop orig (sb @ [int_to_char c]) c' ts2)"
        by (rule "1.IH" [OF False soc(1) [symmetric] refl that(1) refl that(2-4) c' [symmetric] refl])
           (use f n soc(3) in \<open>auto split: if_splits\<close>)
      then show ?thesis using f(1) soc(2) same_frame_trans pulled_weaken by blast
    qed
    show ?thesis
      by (subst unquoted_loop.simps)
         (use False soc(1) e stop rec in \<open>simp add: c' Let_def del: append_eq_Cons_conv Cons_eq_append_conv\<close>)
  qed
qed

text \<open>The first character is consumed when it cannot end the text.\<close>

lemma unquoted_loop_first:
  assumes "buffered ts \<le> 1" "c \<noteq> -1" "int_to_char c \<notin> set not_in_unquoted_text" "\<not> is_whitespace c"
    "start_of_comment c ts = (Inr False, ts)"
  shows "pulled 2 (stream_size ts) ts (unquoted_loop orig [] c ts)"
proof -
  obtain c' ts2 where c': "next_char_raw ts = (c', ts2)" by fastforce
  note f = next_char_raw_frame [OF c'] next_char_raw_size [OF c']
  have "pulled 2 (stream_size ts) ts (unquoted_loop orig [int_to_char c] c' ts2)"
    using unquoted_loop_ok [of ts2 c' "stream_size ts"] f assms(1) by (auto intro: pulled_weaken split: if_splits)
  then show ?thesis
    using assms c' by (subst unquoted_loop.simps) simp
qed

lemma number_loop_ok:
  "buffered ts \<le> 1 \<Longrightarrow> number_loop s d c ts = ((s', d', c'), ts') \<Longrightarrow>
   buffered ts' \<le> 1 \<and> same_frame ts ts' \<and>
   stream_size ts' + (if c' = -1 then 0 else 1) \<le> stream_size ts + (if c = -1 then 0 else 1)"
proof (induction s d c ts rule: number_loop.induct)
  case (1 s d c ts)
  obtain e ts1 where e: "next_char_raw ts = (e, ts1)" by fastforce
  note f = next_char_raw_frame [OF e] next_char_raw_size [OF e]
  show ?case
  proof (cases "c \<noteq> -1 \<and> int_to_char c \<in> set number_chars")
    case True
    with "1.prems" have "number_loop (s @ [int_to_char c])
        (d \<or> c = ord_of CHR ''.'' \<or> c = ord_of CHR ''e'' \<or> c = multichar_e) e ts1 = ((s', d', c'), ts')"
      by (subst (asm) number_loop.simps) (simp add: e)
    from "1.IH" [OF True e [symmetric] refl _ this] f "1.prems"(1) True show ?thesis
      by (auto intro: same_frame_trans split: if_splits)
  next
    case False
    with "1.prems" show ?thesis by (subst (asm) number_loop.simps) auto
  qed
qed

lemma pull_number_ok:
  assumes "buffered ts \<le> 2"
  shows "pulled 2 (stream_size ts) ts (pull_number fp c ts)"
proof -
  obtain e ts1 where e: "next_char_raw ts = (e, ts1)" by fastforce
  note f = next_char_raw_frame [OF e] next_char_raw_size [OF e]
  obtain s d c' ts2 where l: "number_loop [int_to_char c] False e ts1 = ((s, d, c'), ts2)"
    by (metis surj_pair)
  have g: "buffered ts2 \<le> 1" "same_frame ts1 ts2" "stream_size ts2 + (if c' = -1 then 0 else 1) \<le> stream_size ts"
    using number_loop_ok [OF _ l] f(2,5) assms by linarith+
  have h: "same_frame ts ts2" using f(1) g(2) same_frame_trans by blast
  show ?thesis
    unfolding pull_number_def e l Let_def case_prod_conv
    by (rule pulled_put_back_then) (use g h in \<open>auto split: option.splits\<close>)
qed

lemma pull_hex_digits_ok:
  "buffered ts \<le> 2 \<Longrightarrow> pulled 2 (stream_size ts) ts (pull_hex_digits n d ts)"
proof (induction n d ts rule: pull_hex_digits.induct)
  case (2 n d ts)
  obtain c ts1 where c: "next_char_raw ts = (c, ts1)" by fastforce
  note f = next_char_raw_frame [OF c] next_char_raw_size [OF c]
  have "buffered ts1 \<le> 2" using f(2) "2.prems" by simp
  then show ?case
    using "2.IH" [OF c [symmetric] refl] f by (auto simp: c intro: pulled_weaken split: if_splits)
qed auto

lemma pull_escape_sequence_ok:
  assumes "buffered ts \<le> 2"
  shows "pulled 2 (stream_size ts) ts (pull_escape_sequence s ts)"
proof -
  obtain c ts1 where c: "next_char_raw ts = (c, ts1)" by fastforce
  note f = next_char_raw_frame [OF c] next_char_raw_size [OF c]
  have "pulled 2 (stream_size ts1) ts1 (then_pull (pull_hex_digits 4 [] ts1)
          (\<lambda>digits ts''. (Inr (s @ [int_to_char (strtol16 digits)]), ts'')))"
    by (rule pulled_then [OF pull_hex_digits_ok]) (use f assms in auto)
  then show ?thesis
    using f assms by (auto simp: pull_escape_sequence_def c intro: pulled_weaken split: option.splits)
qed

lemma triple_loop_ok: "buffered ts \<le> 2 \<Longrightarrow> pulled 2 (stream_size ts) ts (triple_loop q s ts)"
proof (induction q s ts rule: triple_loop.induct)
  case (1 q s ts)
  obtain c ts1 where c: "next_char_raw ts = (c, ts1)" by fastforce
  note f = next_char_raw_frame [OF c] next_char_raw_size [OF c]
  have stop: "pulled 2 (stream_size ts) ts (then_pull (put_back c ts1) (\<lambda>_ ts''. (Inr (take (length s - 3) s), ts'')))"
    by (rule pulled_put_back_then) (use f "1.prems" in \<open>auto split: if_splits\<close>)
  have b1: "buffered ts1 \<le> 2" using f(2) "1.prems" by simp
  have "pulled 2 (stream_size ts) ts (triple_loop (q + 1) (s @ [int_to_char c]) ts1)" if "c = ord_of CHR 0x22"
    using "1.IH"(1) [OF c [symmetric] refl that b1] f(1,5) by (auto intro: pulled_weaken split: if_splits)
  moreover have "pulled 2 (stream_size ts) ts (triple_loop 0 (s @ [int_to_char c]) ts1)"
    if "c \<noteq> ord_of CHR 0x22" "\<not> 3 \<le> q" "c \<noteq> -1"
    using "1.IH"(2) [OF c [symmetric] refl that b1] f(1,5) by (auto intro: pulled_weaken split: if_splits)
  ultimately show ?case
    using stop f(1,5) b1 by (subst triple_loop.simps) (auto simp: c split: if_splits)
qed

lemma quoted_loop_ok: "buffered ts \<le> 2 \<Longrightarrow> pulled 2 (stream_size ts) ts (quoted_loop s ts)"
proof (induction s ts rule: quoted_loop.induct)
  case (1 s ts)
  obtain c ts1 where c: "next_char_raw ts = (c, ts1)" by fastforce
  note f = next_char_raw_frame [OF c] next_char_raw_size [OF c]
  have b1: "buffered ts1 \<le> 2" using f(2) "1.prems" by simp
  obtain r ts2 where esc: "pull_escape_sequence s ts1 = (r, ts2)" by fastforce
  note g = pulledD [OF pull_escape_sequence_ok [OF b1, of s, unfolded esc]]
  have fr: "same_frame ts ts2" using g f(1) same_frame_trans by blast
  show ?case
  proof (cases "c = ord_of CHR 0x5C")
    case True
    then have "c \<noteq> -1" by (simp add: char_to_int_def)
    show ?thesis
    proof (cases r)
      case (Inl e)
      with True \<open>c \<noteq> -1\<close> g f fr show ?thesis
        by (subst quoted_loop.simps) (auto simp: c esc only_problems_def)
    next
      case (Inr s')
      have "pulled 2 (stream_size ts2) ts2 (quoted_loop s' ts2)"
        using "1.IH"(1) [OF c [symmetric] refl \<open>c \<noteq> -1\<close> True esc [symmetric] Inr] g by simp
      with True \<open>c \<noteq> -1\<close> g f fr Inr show ?thesis
        by (subst quoted_loop.simps) (auto simp: c esc intro: pulled_weaken)
    qed
  next
    case False
    then show ?thesis
      using "1.IH"(2) [OF c [symmetric] refl] f b1
      by (subst quoted_loop.simps) (auto simp: c intro: pulled_weaken)
  qed
qed


lemma pull_quoted_string_ok:
  assumes "buffered ts \<le> 2"
  shows "pulled 2 (stream_size ts) ts (pull_quoted_string ts)"
  unfolding pull_quoted_string_def
proof (rule pulled_then [OF quoted_loop_ok [OF assms]]; (rule order_refl)?)
  fix s ts1
  assume ts1: "buffered ts1 \<le> 2" "stream_size ts1 \<le> stream_size ts"
  obtain c ts2 where c: "next_char_raw ts1 = (c, ts2)" by fastforce
  note f = next_char_raw_frame [OF c] next_char_raw_size [OF c]
  have b: "buffered ts2 \<le> 1" using f(2) ts1 by simp
  have "pulled 2 (stream_size ts) ts1 (then_pull (put_back c ts2) (\<lambda>_ ts3. (Inr s, ts3)))" for s :: string
    by (rule pulled_put_back_then) (use b f(1,5) ts1 in \<open>auto split: if_splits\<close>)
  moreover have "pulled 2 (stream_size ts) ts1 (append_triple_quoted_string s ts2)"
    unfolding append_triple_quoted_string_def
    by (rule pulled_weaken [OF triple_loop_ok f(1)]) (use b f(5) ts1 in \<open>auto split: if_splits\<close>)
  ultimately have m: "pulled 2 (stream_size ts) ts1
      (if s = [] then let (third, ts2) = next_char_raw ts1
          in if third = ord_of CHR 0x22 then append_triple_quoted_string s ts2
             else then_pull (put_back third ts2) (\<lambda>_ ts3. (Inr s, ts3))
       else (Inr s, ts1))"
    using ts1 by (auto simp: c)
  show "pulled 2 (stream_size ts) ts1 (then_pull
      (if s = [] then let (third, ts2) = next_char_raw ts1
          in if third = ord_of CHR 0x22 then append_triple_quoted_string s ts2
             else then_pull (put_back third ts2) (\<lambda>_ ts3. (Inr s, ts3))
       else (Inr s, ts1)) (\<lambda>s' ts4. (Inr (new_string (line_origin ts4) s'), ts4)))"
    by (rule pulled_then [OF m]) auto
qed

lemma pull_plus_equals_ok:
  assumes "buffered ts \<le> 2"
  shows "pulled 2 (stream_size ts) ts (pull_plus_equals ts)"
proof -
  obtain c ts1 where c: "next_char_raw ts = (c, ts1)" by fastforce
  show ?thesis
    using next_char_raw_frame [OF c] next_char_raw_size [OF c] assms by (auto simp: pull_plus_equals_def c)
qed

lemma substitution_head_ok:
  assumes "buffered ts \<le> 2"
  shows "pulled 2 (stream_size ts) ts (substitution_head ts)"
proof -
  obtain c ts1 where c: "next_char_raw ts = (c, ts1)" by fastforce
  obtain d ts2 where d: "next_char_raw ts1 = (d, ts2)" by fastforce
  note f = next_char_raw_frame [OF c] next_char_raw_size [OF c]
  note g = next_char_raw_frame [OF d] next_char_raw_size [OF d]
  have fr: "same_frame ts ts2" using f(1) g(1) same_frame_trans by blast
  have "pulled 2 (stream_size ts) ts (then_pull (put_back d ts2) (\<lambda>_ ts3. (Inr False, ts3)))"
    by (rule pulled_put_back_then) (use f(2,5) g(2,5) fr assms in \<open>auto split: if_splits\<close>)
  then show ?thesis
    using f g fr assms by (auto simp: substitution_head_def c d)
qed

definition stream_ok :: "token_stream \<Rightarrow> bool" where
  "stream_ok ts \<longleftrightarrow> desc (ts_origin ts) \<noteq> [] \<and> desc (line_origin ts) = desc (ts_origin ts)"

lemma stream_ok_frame: "same_frame ts ts' \<Longrightarrow> stream_ok ts \<Longrightarrow> stream_ok ts'"
  by (simp add: same_frame_def stream_ok_def)

lemma set_line_number_ok: "desc orig \<noteq> [] \<Longrightarrow> \<exists>lo. set_line_number orig n = Inr lo \<and> desc lo = desc orig"
  by (simp add: set_line_number_def make_origin_def)

lemma end_of_line_ok:
  assumes "stream_ok ts"
  shows "pulled (buffered ts) (stream_size ts) ts (end_of_line ts)"
proof -
  obtain lo where "set_line_number (ts_origin ts) (line_number ts + 1) = Inr lo" "desc lo = desc (ts_origin ts)"
    using set_line_number_ok assms unfolding stream_ok_def by blast
  then show ?thesis
    using assms by (auto simp: end_of_line_def same_frame_def stream_ok_def stream_size_def)
qed

lemma saver_check_ok:
  assumes "desc orig \<noteq> []"
  shows "\<exists>w s'. saver_check t orig n s = (Inr w, s')"
  using set_line_number_ok [OF assms, of n]
  by (auto simp: saver_check_def next_is_a_simple_value_def split: if_splits)

lemma next_char_after_whitespace_ok:
  "next_char_after_whitespace saver ts = (c, saver', ts') \<Longrightarrow>
   same_frame ts ts' \<and> buffered ts' \<le> buffered ts - 1 \<and> stream_size ts' + (if c = -1 then 0 else 1) \<le> stream_size ts \<and>
   \<not> is_whitespace_not_newline c"
proof (induction saver ts rule: next_char_after_whitespace.induct)
  case (1 saver ts)
  obtain d ts1 where d: "next_char_raw ts = (d, ts1)" by fastforce
  note f = next_char_raw_frame [OF d] next_char_raw_size [OF d]
  show ?case
  proof (cases "d \<noteq> -1 \<and> is_whitespace_not_newline d")
    case True
    then have "next_char_after_whitespace (saver_add d saver) ts1 = (c, saver', ts')"
      using "1.prems" by (subst (asm) next_char_after_whitespace.simps) (simp add: d)
    from "1.IH" [OF d [symmetric] refl _ _ this] True f show ?thesis
      by (auto intro: same_frame_trans)
  next
    case False
    then have "c = d" "ts' = ts1" "\<not> is_whitespace_not_newline c"
      using "1.prems" by (subst (asm) next_char_after_whitespace.simps,
          auto simp: d is_whitespace_not_newline_def is_whitespace_def split: if_splits)+
    with f show ?thesis by simp
  qed
qed

lemma pull_other_ok:
  assumes "buffered ts \<le> 1" "c \<noteq> -1" "c \<noteq> 10" "\<not> is_whitespace_not_newline c"
    "start_of_comment c ts = (Inr False, ts)"
  shows "pulled 2 (stream_size ts) ts (pull_other fp c ts)"
proof -
  obtain ts1 where ts1: "put_back c ts = (Inr (), ts1)" "next_char_raw ts1 = (c, ts)" "same_frame ts ts1"
    using put_back_ok [of ts c] assms(1) by auto
  have "pulled 2 (stream_size ts) ts (unquoted_loop (line_origin ts1) [] c ts)"
    if "int_to_char c \<notin> set not_in_unquoted_text"
    by (rule unquoted_loop_first) (use that assms in \<open>auto simp: is_whitespace_not_newline_def\<close>)
  then show ?thesis
    using pull_number_ok [of ts fp c] assms(1) ts1
    by (auto simp: pull_other_def pull_unquoted_text_def then_pull_def)
qed

text \<open>
  The next token: the outcome is a token or a problem, never a complaint about look-ahead
  or the end of the fuel; and unless the end was reached, a character was consumed.
\<close>

definition token_pulled :: "token_stream \<Rightarrow> token pull \<Rightarrow> bool" where
  "token_pulled ts m \<longleftrightarrow>
     pulled 2 (stream_size ts) ts m \<and> (fst m \<noteq> Inr (Token END) \<longrightarrow> stream_size (snd m) < stream_size ts)"

lemma token_pulled_less: "pulled 2 n ts' m \<Longrightarrow> same_frame ts ts' \<Longrightarrow> n < stream_size ts \<Longrightarrow> token_pulled ts m"
  by (auto simp: token_pulled_def pulled_def intro: same_frame_trans)

lemma pull_next_token_step:
  assumes ok: "stream_ok ts" and b: "buffered ts \<le> 2"
    and loop: "\<And>orig opt ts'. stream_ok ts' \<Longrightarrow> desc orig \<noteq> [] \<Longrightarrow> buffered ts' \<le> 2 \<Longrightarrow> stream_size ts' < stream_size ts \<Longrightarrow>
                 pulled 2 (stream_size ts') ts' (substitution_loop fp n orig opt [] new_saver ts')"
  shows "token_pulled ts (snd (pull_next_token fp (Suc n) saver ts))"
proof -
  obtain c saver' ts1 where c: "next_char_after_whitespace saver ts = (c, saver', ts1)"
    by (metis prod_cases3)
  note f = next_char_after_whitespace_ok [OF c]
  show ?thesis
  proof (cases "c = -1 \<or> c = 10")
    case True
    have "stream_ok ts1" using f ok stream_ok_frame by blast
    from end_of_line_ok [OF this] have "pulled 2 (stream_size ts1) ts1 (end_of_line ts1)"
      using f b by (auto elim!: pulled_weaken)
    then have "c = 10 \<Longrightarrow> token_pulled ts (end_of_line ts1)"
      using f by (auto intro: token_pulled_less)
    moreover have "c = -1 \<Longrightarrow> token_pulled ts (Inr (Token END), ts1)"
      using f b by (auto simp: token_pulled_def)
    ultimately show ?thesis
      using True by (auto simp: pull_next_token.simps(2) c)
  next
    case False
    have "buffered ts1 \<le> 1" using f b by auto
    then obtain comment ts2 where soc: "start_of_comment c ts1 = (Inr comment, ts2)" "same_frame ts1 ts2"
      "buffered ts2 \<le> 1" "stream_size ts2 \<le> stream_size ts1" "start_of_comment c ts2 = (Inr comment, ts2)"
      "comment \<longrightarrow> c = ord_of CHR ''/'' \<longrightarrow> (\<exists>ts''. next_char_raw ts2 = (ord_of CHR ''/'', ts''))"
      using start_of_comment_ok by metis
    have fr: "same_frame ts ts2" and lt: "stream_size ts2 < stream_size ts" and b2: "buffered ts2 \<le> 2"
      using f soc False same_frame_trans by (blast, auto)
    have ok2: "stream_ok ts2" using fr ok stream_ok_frame by blast
    have subst: "pulled 2 (stream_size ts2) ts2 (then_pull (substitution_head ts2)
                   (\<lambda>opt ts3. substitution_loop fp n (line_origin ts2) opt [] new_saver ts3))"
    proof (rule pulled_then [OF substitution_head_ok [OF b2]]; (rule order_refl)?)
      fix opt ts3
      assume ts3: "buffered ts3 \<le> 2" "stream_size ts3 \<le> stream_size ts2" "same_frame ts2 ts3"
      have "pulled 2 (stream_size ts3) ts3 (substitution_loop fp n (line_origin ts2) opt [] new_saver ts3)"
        by (rule loop) (use ts3 lt ok2 stream_ok_frame in \<open>auto simp: stream_ok_def same_frame_def\<close>)
      then show "pulled 2 (stream_size ts2) ts3 (substitution_loop fp n (line_origin ts2) opt [] new_saver ts3)"
        using ts3(2) by (auto intro: pulled_weaken)
    qed
    define m where "m = (if comment then pull_comment c ts2
                    else if c = ord_of CHR 0x22 then pull_quoted_string ts2
                    else if c = ord_of CHR ''$''
                    then then_pull (substitution_head ts2)
                           (\<lambda>opt ts3. substitution_loop fp n (line_origin ts2) opt [] new_saver ts3)
                    else case punctuation c of
                           Some t \<Rightarrow> (Inr t, ts2)
                         | None \<Rightarrow> if c = ord_of CHR ''+'' then pull_plus_equals ts2
                                   else pull_other fp c ts2)"
    have "pulled 2 (stream_size ts2) ts2 m"
      using subst soc(5,6) False f b2 soc(3) pull_other_ok [OF soc(3), of c fp]
      by (auto simp: m_def pull_comment_ok pull_quoted_string_ok pull_plus_equals_ok split: option.splits)
    moreover have "snd (pull_next_token fp (Suc n) saver ts) = m"
      using False soc(1) by (simp add: pull_next_token.simps(2) c then_pull_def m_def)
    ultimately show ?thesis using fr lt token_pulled_less by metis
  qed
qed

lemma substitution_loop_step:
  assumes ok: "stream_ok ts" "desc orig \<noteq> []"
    and pull: "token_pulled ts (snd (pull_next_token fp n saver ts))"
    and loop: "\<And>ex saver ts'. stream_ok ts' \<Longrightarrow> buffered ts' \<le> 2 \<Longrightarrow> stream_size ts' < stream_size ts \<Longrightarrow>
                 pulled 2 (stream_size ts') ts' (substitution_loop fp n orig opt ex saver ts')"
  shows "pulled 2 (stream_size ts) ts (substitution_loop fp (Suc n) orig opt ex saver ts)"
proof -
  obtain saver' m where m: "pull_next_token fp n saver ts = (saver', m)" by (rule prod.exhaust)
  have p: "pulled 2 (stream_size ts) ts m" using pull m by (simp add: token_pulled_def)
  show ?thesis
    unfolding substitution_loop.simps(2) m Let_def case_prod_conv
  proof (rule pulled_then [OF p]; (rule order_refl)?)
    fix t ts'
    assume r: "m = (Inr t, ts')" "buffered ts' \<le> 2" "stream_size ts' \<le> stream_size ts" "same_frame ts ts'"
    obtain w s' where w: "saver_check t orig (line_number ts') saver' = (Inr w, s')"
      using saver_check_ok [OF ok(2)] by blast
    have "pulled 2 (stream_size ts) ts' (substitution_loop fp n orig opt ex' s' ts')" if "t \<noteq> Token END" for ex'
    proof -
      have "stream_size ts' < stream_size ts"
        using pull m r(1) that by (simp add: token_pulled_def)
      with loop [of ts' ex' s'] r ok stream_ok_frame show ?thesis by (auto intro: pulled_weaken)
    qed
    then show "pulled 2 (stream_size ts) ts'
       (if t = Token CLOSE_CURLY then (Inr (SubstitutionToken orig opt ex), ts')
        else if t = Token END then (Inl (problem_at orig [] ''_substitution ${ was not closed with a }'' False), ts')
        else case saver_check t orig (line_number ts') saver' of
               (Inl e, saver'') \<Rightarrow> (Inl (TokException e), ts')
             | (Inr None, saver'') \<Rightarrow> substitution_loop fp n orig opt (ex @ [t]) saver'' ts'
             | (Inr (Some w), saver'') \<Rightarrow> substitution_loop fp n orig opt (ex @ [w, t]) saver'' ts')"
      using r w by (auto split: option.splits)
  qed
qed

lemma pull_enough_fuel:
  "(stream_ok ts \<and> buffered ts \<le> 2 \<and> 2 * stream_size ts + 1 \<le> n \<longrightarrow>
      token_pulled ts (snd (pull_next_token fp n saver ts))) \<and>
   (stream_ok ts \<and> desc orig \<noteq> [] \<and> buffered ts \<le> 2 \<and> 2 * stream_size ts + 2 \<le> n \<longrightarrow>
      pulled 2 (stream_size ts) ts (substitution_loop fp n orig opt ex saver ts))"
proof (induction n arbitrary: ts saver orig opt ex)
  case (Suc n)
  show ?case
    by (intro conjI impI pull_next_token_step substitution_loop_step) (use Suc in auto)
qed simp


subsection \<open>The iterator\<close>

definition stream_inv :: "token_stream \<Rightarrow> bool" where
  "stream_inv ts \<longleftrightarrow> stream_ok ts \<and> buffered ts \<le> 2 \<and> Token END \<notin> set (butlast (tokens ts))"

text \<open>How many tokens the stream can still deliver: those queued, and two per character left.\<close>

definition token_rank :: "token_stream \<Rightarrow> nat" where
  "token_rank ts = length (tokens ts) + (if tokens ts = [] \<or> Token END \<in> set (tokens ts) then 0 else 2 * stream_size ts + 2)"

lemma saver_check_token:
  "saver_check t orig n s = (Inr (Some w), s') \<Longrightarrow> w \<noteq> Token END \<and> t \<noteq> Token END"
  by (auto simp: saver_check_def next_is_a_simple_value_def is_simple_value_def split: if_splits sum.splits)

lemma queue_next_token_ok:
  assumes "stream_ok ts" "buffered ts \<le> 2" "tokens ts = []"
  shows "\<exists>r ts'. queue_next_token fp ts = (r, ts') \<and> stream_ok ts' \<and> buffered ts' \<le> 2 \<and> only_problems r \<and>
           (case r of
              Inl e \<Rightarrow> tokens ts' = [] \<and> stream_size ts' < stream_size ts
            | Inr _ \<Rightarrow> tokens ts' = [Token END] \<or>
                (tokens ts' \<noteq> [] \<and> length (tokens ts') \<le> 2 \<and> Token END \<notin> set (tokens ts') \<and>
                 stream_size ts' < stream_size ts))"
proof -
  obtain saver r ts1 where m: "pull_next_token fp (token_fuel ts) (whitespace_saver ts) ts = (saver, r, ts1)"
    by (rule prod_cases3)
  have "token_pulled ts (r, ts1)"
    using pull_enough_fuel [of ts "token_fuel ts" fp "whitespace_saver ts"] assms m by (simp add: token_fuel_def)
  then have p: "buffered ts1 \<le> 2" "same_frame ts ts1" "only_problems r" "r \<noteq> Inr (Token END) \<longrightarrow> stream_size ts1 < stream_size ts"
    by (auto simp: token_pulled_def pulled_def)
  have f: "stream_ok ts1" "tokens ts1 = []" "ts_origin ts1 = ts_origin ts"
    using p(2) assms stream_ok_frame by (blast, auto simp: same_frame_def)
  show ?thesis
  proof (cases r)
    case (Inl e)
    with m p f show ?thesis
      by (simp add: queue_next_token_def stream_ok_def stream_size_def only_problems_def)
  next
    case (Inr t)
    obtain w s' where w: "saver_check t (ts_origin ts1) (line_number ts1) saver = (Inr w, s')"
      using saver_check_ok f(1) unfolding stream_ok_def by blast
    show ?thesis
      using saver_check_token [of t "ts_origin ts1" "line_number ts1" saver] m p f Inr w
      by (cases "t = Token END"; cases w)
         (auto simp: queue_next_token_def stream_ok_def stream_size_def)
  qed
qed

lemma next_token_ok:
  assumes "stream_inv ts" "tokens ts = t # rest"
  shows "\<exists>ts'. next_token fp ts = (Inr t, ts') \<and> stream_inv ts' \<and> token_rank ts' < token_rank ts \<and>
           (tokens ts' = [] \<longleftrightarrow> t = Token END)"
proof (cases "rest = [] \<and> t \<noteq> Token END")
  case True
  let ?ts = "ts\<lparr>tokens := rest\<rparr>"
  have ok: "stream_ok ?ts" "buffered ?ts \<le> 2" "tokens ?ts = []"
    using assms True by (auto simp: stream_inv_def stream_ok_def)
  obtain r ts2 where q: "queue_next_token fp ?ts = (r, ts2)" "stream_ok ts2" "buffered ts2 \<le> 2" "only_problems r"
    "case r of Inl e \<Rightarrow> tokens ts2 = [] \<and> stream_size ts2 < stream_size ?ts
     | Inr _ \<Rightarrow> tokens ts2 = [Token END] \<or> (tokens ts2 \<noteq> [] \<and> length (tokens ts2) \<le> 2 \<and>
         Token END \<notin> set (tokens ts2) \<and> stream_size ts2 < stream_size ?ts)"
    using queue_next_token_ok [OF ok] by blast
  have s: "stream_size ?ts = stream_size ts" by (simp add: stream_size_def)
  show ?thesis
  proof (cases r)
    case (Inl e)
    then obtain p where p: "e = TokenizerProblem p" "is_problem p"
      using q(4) by (cases e) (auto simp: only_problems_def)
    with Inl q s True assms(2) show ?thesis
      by (cases p) (auto simp: next_token_def stream_inv_def stream_ok_def token_rank_def stream_size_def Let_def)
  next
    case (Inr u)
    then show ?thesis
      using q s True assms(2)
      by (auto simp: next_token_def stream_inv_def stream_ok_def token_rank_def Let_def dest: in_set_butlastD)
  qed
next
  case False
  then show ?thesis
    using assms
    by (cases "rest = []")
       (auto simp: next_token_def stream_inv_def stream_ok_def token_rank_def stream_size_def Let_def)
qed

lemma tokenize_ok: "origin_ok orig \<Longrightarrow> \<exists>ts. tokenize orig rd flavor = Inr ts"
  using set_line_number_ok [of orig 1] by (auto simp: tokenize_def new_token_stream_def origin_ok_def)

lemma tokenize_inv:
  "origin_ok orig \<Longrightarrow> tokenize orig rd flavor = Inr ts \<Longrightarrow>
   stream_inv ts \<and> tokens ts = [Token START] \<and> stream_size ts = reader_size rd \<and> input ts = rd"
  by (auto simp: tokenize_def new_token_stream_def bind_exc_def stream_inv_def stream_ok_def stream_size_def origin_ok_def
      set_line_number_def make_origin_def split: sum.splits if_splits)

interpretation tok: transition_system
  "\<lambda>ts. \<exists>orig rd flavor. origin_ok orig \<and> tokenize orig rd flavor = Inr ts"
  "\<lambda>ts ts'. \<exists>fp t. next_token fp ts = (Inr t, ts')"
  stream_inv
proof
  fix s t
  assume s: "stream_inv s" and "\<exists>fp u. next_token fp s = (Inr u, t)"
  then obtain fp u where u: "next_token fp s = (Inr u, t)" by blast
  then obtain x rest where "tokens s = x # rest"
    by (cases "tokens s") (auto simp: next_token_def)
  with next_token_ok [OF s this, of fp] u show "stream_inv t" by auto
qed (use tokenize_inv in blast)

text \<open>The client's loop: \<^verbatim>\<open>while (tokens->has_next()) tokens->next();\<close>\<close>

fun all_tokens :: "fp_text \<Rightarrow> nat \<Rightarrow> token_stream \<Rightarrow> tok_exception + token list" where
  "all_tokens fp 0 ts = Inl OutOfFuel"
| "all_tokens fp (Suc n) ts =
     (if \<not> has_next ts then Inr []
      else case next_token fp ts of
             (Inl e, _) \<Rightarrow> Inl e
           | (Inr t, ts') \<Rightarrow> (case all_tokens fp n ts' of Inl e \<Rightarrow> Inl e | Inr l \<Rightarrow> Inr (t # l)))"

lemma all_tokens_ok:
  "stream_inv ts \<Longrightarrow> tokens ts \<noteq> [] \<Longrightarrow> token_rank ts < n \<Longrightarrow>
   \<exists>l. all_tokens fp n ts = Inr (l @ [Token END]) \<and> Token END \<notin> set l \<and> hd (l @ [Token END]) = hd (tokens ts)"
proof (induction n arbitrary: ts)
  case (Suc n)
  then obtain t rest where t: "tokens ts = t # rest" by (cases "tokens ts") auto
  obtain ts' where ts': "next_token fp ts = (Inr t, ts')" "stream_inv ts'" "token_rank ts' < token_rank ts"
    "tokens ts' = [] \<longleftrightarrow> t = Token END"
    using next_token_ok [OF Suc.prems(1) t] by blast
  have n: "token_rank ts' < n" using ts'(3) Suc.prems(3) by simp
  show ?case
  proof (cases "t = Token END")
    case True
    with n ts' t have "all_tokens fp n ts' = Inr []" by (cases n) (auto simp: has_next_def)
    with True t ts' show ?thesis by (intro exI [of _ "[]"]) (simp add: has_next_def)
  next
    case False
    with Suc.IH [OF ts'(2) _ n] ts' obtain l where
      "all_tokens fp n ts' = Inr (l @ [Token END])" "Token END \<notin> set l" by auto
    with False t ts' show ?thesis by (intro exI [of _ "t # l"]) (simp add: has_next_def)
  qed
qed simp


lemma tokenize_sample:
  "\<exists>orig ts. new_simple ''x'' = Inr orig \<and> tokenize orig (StringReader (new_string_reader s)) CONF = Inr ts"
  by (simp add: new_simple_def make_origin_def tokenize_def new_token_stream_def set_line_number_def)


text \<open>
  C10: in every state the iterator can reach, at most two characters are put back, so the
  exception for undesirable look-ahead is unreachable, and taking the next token succeeds
  as long as there is one.
\<close>

theorem next_token_never_raises:
  "origin_ok orig \<Longrightarrow> tokenize orig rd flavor = Inr ts0 \<Longrightarrow> (\<lambda>ts ts'. \<exists>fp t. next_token fp ts = (Inr t, ts'))\<^sup>*\<^sup>* ts0 ts \<Longrightarrow>
   length (buffer ts) \<le> 2 \<and> (has_next ts \<longrightarrow> (\<exists>ts'. next_token fp ts = (Inr (hd (tokens ts)), ts')))"
proof -
  assume "origin_ok orig" "tokenize orig rd flavor = Inr ts0" "(\<lambda>ts ts'. \<exists>fp t. next_token fp ts = (Inr t, ts'))\<^sup>*\<^sup>* ts0 ts"
  then have inv: "stream_inv ts" using tok.inv_reachable by blast
  with next_token_ok [OF inv, where fp = fp] show ?thesis
    by (cases "tokens ts") (fastforce simp: stream_inv_def has_next_def)+
qed


theorem next_token_never_raises_witness:
  "\<exists>orig ts ts'. new_simple ''x'' = Inr orig \<and> tokenize orig (StringReader (new_string_reader ''a:+'')) CONF = Inr ts \<and>
     next_token no_doubles ts = (Inr (Token START), ts')"
proof -
  obtain orig ts where a: "new_simple ''x'' = Inr orig"
      "tokenize orig (StringReader (new_string_reader ''a:+'')) CONF = Inr ts"
    using tokenize_sample by blast
  have "\<exists>ts'. next_token no_doubles ts = (Inr (hd (tokens ts)), ts')"
    using next_token_never_raises [OF new_simple_ok [OF a(1)] a(2) rtranclp.rtrancl_refl, of no_doubles]
      tokenize_inv [OF new_simple_ok [OF a(1)] a(2)] by (simp add: has_next_def)
  with a tokenize_inv [OF new_simple_ok [OF a(1)] a(2)] show ?thesis by auto
qed

end
