(* ===== verification/Token_Text.thy ===== *)
theory Token_Text
  imports Tokenizer "HOL-Library.Sublist"
begin

section \<open>What the tokenizer reads from a given text\<close>

text \<open>
  \<open>at_text b ts s\<close>: the characters ahead of the stream are those of \<open>s\<close>, then the end,
  with at most \<open>b\<close> of them in the put-back buffer; end marks may have been put back.  The
  lemmas step through the pulling functions on a known text, up to the round trip of
  rendered strings and the tokens of a run of plain text.
\<close>

definition pending :: "token_stream \<Rightarrow> int list" where
  "pending ts = buffer ts @ map ord_of (reader_rest (input ts))"

definition at_text :: "nat \<Rightarrow> token_stream \<Rightarrow> string \<Rightarrow> bool" where
  "at_text b ts s \<longleftrightarrow> reader_ok (input ts) \<and> buffered ts \<le> b \<and> (\<exists>k. pending ts = map ord_of s @ replicate k (-1))"

definition same_line :: "token_stream \<Rightarrow> token_stream \<Rightarrow> bool" where
  "same_line ts ts' \<longleftrightarrow> same_frame ts ts' \<and> line_origin ts' = line_origin ts \<and> line_number ts' = line_number ts"

lemma same_line_refl [simp]: "same_line ts ts"
  by (simp add: same_line_def)

lemma same_line_trans [trans]: "same_line ts ts' \<Longrightarrow> same_line ts' ts'' \<Longrightarrow> same_line ts ts''"
  by (auto simp: same_line_def intro: same_frame_trans)

lemma at_text_weaken: "at_text b ts s \<Longrightarrow> b \<le> b' \<Longrightarrow> at_text b' ts s"
  by (auto simp: at_text_def)

lemma next_char_pending:
  assumes "reader_ok (input ts)"
  shows "case pending ts of
           [] \<Rightarrow> (\<exists>ts'. next_char_raw ts = (-1, ts') \<and> reader_ok (input ts') \<and> pending ts' = [])
         | c # cs \<Rightarrow> (\<exists>ts'. next_char_raw ts = (c, ts') \<and> reader_ok (input ts') \<and> pending ts' = cs)"
proof (cases "buffer ts")
  case Nil
  show ?thesis
  proof (cases "reader_rest (input ts)")
    case Nil
    with rd.read_end [OF assms Nil] \<open>buffer ts = []\<close> show ?thesis
      by (auto simp: pending_def next_char_raw_def READER_EOF_def)
  next
    case (Cons c cs)
    with rd.read_more [OF assms Cons] \<open>buffer ts = []\<close> show ?thesis
      by (auto simp: pending_def next_char_raw_def)
  qed
next
  case (Cons c cs)
  with assms show ?thesis by (simp add: pending_def next_char_raw_def)
qed

lemma next_text:
  assumes "at_text b ts (c # s)"
  shows "\<exists>ts'. next_char_raw ts = (ord_of c, ts') \<and> at_text (b - 1) ts' s \<and> same_line ts ts'"
proof -
  obtain k where k: "reader_ok (input ts)" "buffered ts \<le> b" "pending ts = ord_of c # map ord_of s @ replicate k (-1)"
    using assms by (auto simp: at_text_def)
  then obtain ts' where "next_char_raw ts = (ord_of c, ts')" "reader_ok (input ts')" "pending ts' = map ord_of s @ replicate k (-1)"
    using next_char_pending [OF k(1)] by auto
  with next_char_raw_frame [OF this(1)] k(2) show ?thesis
    by (auto simp: at_text_def same_line_def)
qed

lemma next_text_end:
  assumes "at_text b ts []"
  shows "\<exists>ts'. next_char_raw ts = (-1, ts') \<and> at_text (b - 1) ts' [] \<and> same_line ts ts'"
proof -
  obtain k where k: "reader_ok (input ts)" "buffered ts \<le> b" "pending ts = replicate k (-1)"
    using assms by (auto simp: at_text_def)
  then obtain ts' where "next_char_raw ts = (-1, ts')" "reader_ok (input ts')" "pending ts' = replicate (k - 1) (-1)"
    using next_char_pending [OF k(1)] by (cases k) auto
  with next_char_raw_frame [OF this(1)] k(2) show ?thesis
    by (auto simp: at_text_def same_line_def)
qed

lemma put_back_text:
  assumes "at_text b ts s" "b \<le> 2"
  shows "\<exists>ts'. put_back (ord_of c) ts = (Inr (), ts') \<and> at_text (b + 1) ts' (c # s) \<and> same_line ts ts'"
  using assms by (auto simp: put_back_def at_text_def pending_def same_line_def same_frame_def)

lemma put_back_end:
  assumes "at_text b ts []" "b \<le> 2"
  shows "\<exists>ts'. put_back (-1) ts = (Inr (), ts') \<and> at_text (b + 1) ts' [] \<and> same_line ts ts'"
proof -
  obtain k where "pending ts = replicate k (-1)" using assms by (auto simp: at_text_def)
  then show ?thesis
    using assms by (auto simp: put_back_def at_text_def pending_def same_line_def same_frame_def intro: exI [of _ "Suc k"])
qed

lemma new_stream_text:
  assumes "origin_ok orig" "tokenize orig rd flavor = Inr ts" "reader_ok rd"
  shows "at_text 0 ts (reader_rest rd) \<and> tokens ts = [Token START] \<and> buffer ts = [] \<and> whitespace_saver ts = new_saver \<and>
    ts_origin ts = orig \<and> stream_inv ts"
proof -
  obtain lo where ts: "ts = \<lparr>ts_origin = orig, input = rd, allow_comments = (flavor \<noteq> JSON), line_number = 1,
      line_origin = lo, tokens = [Token START], buffer = [], whitespace_saver = new_saver\<rparr>"
    using assms(2) by (auto simp: tokenize_def new_token_stream_def bind_exc_def split: sum.splits)
  have "at_text 0 ts (reader_rest rd)"
    unfolding at_text_def pending_def ts using assms(3) by (auto intro: exI [of _ 0])
  then show ?thesis using tokenize_inv [OF assms(1,2)] ts by simp
qed

subsection \<open>Rendered strings\<close>

lemma strtol16_hex4: "is_cntrl c \<Longrightarrow> strtol16 (hex4 (code c)) = int (code c)"
proof -
  have all: "list_all (\<lambda>n. strtol16 (hex4 n) = int n) ([0..<32] @ [127])" by code_simp
  assume "is_cntrl c"
  then have "code c \<in> set ([0..<32] @ [127])" by (auto simp: is_cntrl_def)
  with all show ?thesis by (auto simp: list_all_iff)
qed

lemma hex4_chars: "list_all (\<lambda>c. ord_of c \<noteq> -1) (hex4 (code c))" if "is_cntrl c"
proof -
  have all: "list_all (\<lambda>n. list_all (\<lambda>c. ord_of c \<noteq> -1) (hex4 n)) ([0..<32] @ [127])" by code_simp
  have "code c \<in> set ([0..<32] @ [127])" using that by (auto simp: is_cntrl_def)
  with all show ?thesis by (auto simp: list_all_iff)
qed

lemma pull_hex_digits_text:
  "at_text b ts (ds @ s) \<Longrightarrow> list_all (\<lambda>c. ord_of c \<noteq> -1) ds \<Longrightarrow>
   \<exists>ts'. pull_hex_digits (length ds) acc ts = (Inr (acc @ ds), ts') \<and> at_text b ts' s \<and> same_line ts ts'"
proof (induction ds arbitrary: ts acc)
  case (Cons d ds)
  obtain ts1 where n: "next_char_raw ts = (ord_of d, ts1)" "at_text (b - 1) ts1 (ds @ s)" "same_line ts ts1"
    using next_text [of b ts d] Cons.prems(1) by auto
  from Cons.IH [OF at_text_weaken [OF n(2), of b], of "acc @ [d]"] Cons.prems(2) n show ?case
    by (auto intro: same_line_trans)
qed auto

lemma pull_escape_text:
  assumes "at_text b ts (tl (render_json_char c) @ s)" "hd (render_json_char c) = CHR 0x5C" "b \<le> 2"
    "render_json_char c \<noteq> [c]"
  shows "\<exists>ts'. pull_escape_sequence acc ts = (Inr (acc @ [c]), ts') \<and> at_text b ts' s \<and> same_line ts ts'"
proof -
  have ne: "tl (render_json_char c) \<noteq> []" using assms(2,4) by (auto simp: render_json_char_def split: if_splits)
  then obtain e es where e: "tl (render_json_char c) = e # es" by (cases "tl (render_json_char c)") auto
  obtain ts1 where n: "next_char_raw ts = (ord_of e, ts1)" "at_text (b - 1) ts1 (es @ s)" "same_line ts ts1"
    using next_text [of b ts e "es @ s"] assms(1) e by auto
  have a1: "at_text b ts1 (es @ s)" using n(2) by (rule at_text_weaken) simp
  show ?thesis
  proof (cases "e = CHR ''u''")
    case True
    then have u: "is_cntrl c" "es = hex4 (code c)"
      using e assms(4) by (auto simp: render_json_char_def split: if_splits)
    have four: "length (hex4 (code c)) = 4" by (simp add: hex4_def)
    obtain ts2 where "pull_hex_digits 4 [] ts1 = (Inr (hex4 (code c)), ts2)" "at_text b ts2 s" "same_line ts1 ts2"
      using pull_hex_digits_text [OF a1 [unfolded u(2)] hex4_chars [OF u(1)], of "[]", unfolded four] by auto
    moreover have "int_to_char (strtol16 (hex4 (code c))) = c"
      unfolding strtol16_hex4 [OF u(1)] by (simp add: int_to_char_def)
    ultimately show ?thesis
      using n(1,3) True
      by (auto simp: pull_escape_sequence_def then_pull_def simple_escape_def char_to_int_eof intro: same_line_trans)
  next
    case False
    then have "simple_escape (ord_of e) = Some c" "es = []"
      using e assms(4) by (auto simp: render_json_char_def simple_escape_def split: if_splits)
    then show ?thesis
      using n a1 by (auto simp: pull_escape_sequence_def char_to_int_eof simple_escape_def split: if_splits)
  qed
qed

lemma render_json_char_cases:
  "render_json_char c = [c] \<and> c \<noteq> CHR 0x5C \<and> c \<noteq> CHR 0x22 \<and> \<not> is_cntrl c \<or>
   render_json_char c \<noteq> [c] \<and> hd (render_json_char c) = CHR 0x5C"
  by (auto simp: render_json_char_def is_cntrl_def)

lemma quoted_loop_text:
  "at_text b ts (concat (map render_json_char t) @ CHR 0x22 # s) \<Longrightarrow> b \<le> 2 \<Longrightarrow> CHR 0xFF \<notin> set t \<Longrightarrow>
   \<exists>ts'. quoted_loop acc ts = (Inr (acc @ t), ts') \<and> at_text b ts' s \<and> same_line ts ts'"
proof (induction t arbitrary: ts acc)
  case Nil
  obtain ts1 where "next_char_raw ts = (ord_of CHR 0x22, ts1)" "at_text (b - 1) ts1 s" "same_line ts ts1"
    using next_text [of b ts "CHR 0x22" s] Nil.prems by auto
  then show ?case
    by (subst quoted_loop.simps) (auto simp: char_to_int_eof intro: at_text_weaken)
next
  case (Cons c t)
  let ?rest = "concat (map render_json_char t) @ CHR 0x22 # s"
  consider (plain) "render_json_char c = [c]" "c \<noteq> CHR 0x5C" "c \<noteq> CHR 0x22" "\<not> is_cntrl c"
    | (escaped) "render_json_char c \<noteq> [c]" "hd (render_json_char c) = CHR 0x5C"
    using render_json_char_cases by blast
  then show ?case
  proof cases
    case plain
    obtain ts1 where n: "next_char_raw ts = (ord_of c, ts1)" "at_text (b - 1) ts1 ?rest" "same_line ts ts1"
      using next_text [of b ts c ?rest] Cons.prems(1) plain(1) by auto
    have a1: "at_text b ts1 ?rest" using n(2) by (rule at_text_weaken) simp
    from Cons.IH [OF a1 Cons.prems(2), of "acc @ [c]"] Cons.prems(3) n plain show ?thesis
      by (subst quoted_loop.simps) (auto simp: char_to_int_eof intro: same_line_trans)
  next
    case escaped
    obtain es where split: "render_json_char c = CHR 0x5C # es"
      using escaped(2) by (cases "render_json_char c") auto
    obtain ts1 where n: "next_char_raw ts = (ord_of CHR 0x5C, ts1)" "at_text (b - 1) ts1 (tl (render_json_char c) @ ?rest)"
      "same_line ts ts1"
      using next_text [of b ts "CHR 0x5C" "tl (render_json_char c) @ ?rest"] Cons.prems(1) split by auto
    have a1: "at_text b ts1 (tl (render_json_char c) @ ?rest)" using n(2) by (rule at_text_weaken) simp
    obtain ts2 where e: "pull_escape_sequence acc ts1 = (Inr (acc @ [c]), ts2)" "at_text b ts2 ?rest" "same_line ts1 ts2"
      using pull_escape_text [OF a1 escaped(2) Cons.prems(2) escaped(1)] by blast
    from Cons.IH [OF e(2) Cons.prems(2), of "acc @ [c]"] Cons.prems(3) n(1,3) e(1,3) show ?thesis
      by (subst quoted_loop.simps) (auto simp: char_to_int_eof intro: same_line_trans)
  qed
qed

lemma pull_quoted_string_text:
  assumes "at_text b ts (tl (render_json_string t) @ s)" "b \<le> 2" "CHR 0xFF \<notin> set t"
    "t = [] \<longrightarrow> s = [] \<or> hd s \<noteq> CHR 0x22"
  shows "\<exists>ts'. pull_quoted_string ts = (Inr (new_string (line_origin ts) t), ts') \<and> at_text (max b 1) ts' s \<and> same_line ts ts'"
proof -
  obtain ts1 where q: "quoted_loop [] ts = (Inr t, ts1)" "at_text b ts1 s" "same_line ts ts1"
    using quoted_loop_text [of b ts t s "[]"] assms by (auto simp: render_json_string_def)
  show ?thesis
  proof (cases "t = []")
    case False
    with q show ?thesis
      by (auto simp: pull_quoted_string_def then_pull_def same_line_def intro: at_text_weaken)
  next
    case True
    have b: "b - 1 \<le> 2" "b - 1 + 1 \<le> max b 1" using assms(2) by auto
    show ?thesis
    proof (cases s)
      case Nil
      obtain ts2 where n: "next_char_raw ts1 = (-1, ts2)" "at_text (b - 1) ts2 []" "same_line ts1 ts2"
        using next_text_end q(2) Nil by blast
      obtain ts3 where "put_back (-1) ts2 = (Inr (), ts3)" "at_text (b - 1 + 1) ts3 []" "same_line ts2 ts3"
        using put_back_end [OF n(2) b(1)] by blast
      with q(1,3) n True Nil b(2) show ?thesis
        by (auto simp: pull_quoted_string_def then_pull_def char_to_int_def same_line_def
            intro: at_text_weaken same_frame_trans)
    next
      case (Cons c s')
      obtain ts2 where n: "next_char_raw ts1 = (ord_of c, ts2)" "at_text (b - 1) ts2 s'" "same_line ts1 ts2"
        using next_text q(2) Cons by blast
      obtain ts3 where "put_back (ord_of c) ts2 = (Inr (), ts3)" "at_text (b - 1 + 1) ts3 s" "same_line ts2 ts3"
        using put_back_text [OF n(2) b(1)] Cons by blast
      with q(1,3) n True Cons assms(4) b(2) show ?thesis
        by (auto simp: pull_quoted_string_def then_pull_def same_line_def
            intro: at_text_weaken same_frame_trans)
    qed
  qed
qed


subsection \<open>White space and single tokens\<close>

lemma skip_nothing:
  assumes "at_text b ts (c # s)" "c \<noteq> CHR 0xFF" "\<not> is_whitespace_not_newline (ord_of c)"
  shows "\<exists>ts'. next_char_after_whitespace sv ts = (ord_of c, sv, ts') \<and> at_text (b - 1) ts' s \<and> same_line ts ts'"
proof -
  obtain ts1 where "next_char_raw ts = (ord_of c, ts1)" "at_text (b - 1) ts1 s" "same_line ts ts1"
    using next_text [OF assms(1)] by blast
  with assms show ?thesis
    by (subst next_char_after_whitespace.simps) (simp add: char_to_int_eof)
qed

lemma skip_to_end:
  "at_text b ts ws \<Longrightarrow> list_all (\<lambda>c. is_whitespace_not_newline (ord_of c)) ws \<Longrightarrow>
   \<exists>sv' ts'. next_char_after_whitespace sv ts = (-1, sv', ts') \<and> at_text b ts' [] \<and> same_line ts ts'"
proof (induction ws arbitrary: ts sv)
  case Nil
  obtain ts1 where "next_char_raw ts = (-1, ts1)" "at_text (b - 1) ts1 []" "same_line ts ts1"
    using next_text_end [OF Nil(1)] by blast
  then show ?case
    by (subst next_char_after_whitespace.simps) (auto intro: at_text_weaken)
next
  case (Cons w ws)
  obtain ts1 where n: "next_char_raw ts = (ord_of w, ts1)" "at_text (b - 1) ts1 ws" "same_line ts ts1"
    using next_text [OF Cons.prems(1)] by blast
  have "ord_of w \<noteq> -1" using Cons.prems(2) by (auto simp: is_whitespace_not_newline_def is_whitespace_def)
  with Cons.IH [OF at_text_weaken [OF n(2), of b], of "saver_add (ord_of w) sv"] n Cons.prems(2) show ?case
    by (subst next_char_after_whitespace.simps) (auto intro: same_line_trans)
qed

text \<open>White space before the first simple value leaves no trace.\<close>

lemma skip_leading:
  "at_text b ts (ws @ s) \<Longrightarrow> list_all (\<lambda>c. is_whitespace_not_newline (ord_of c)) ws \<Longrightarrow>
   \<not> last_token_was_simple_value sv \<Longrightarrow>
   \<exists>ts'. next_char_after_whitespace sv ts = next_char_after_whitespace sv ts' \<and> at_text b ts' s \<and> same_line ts ts'"
proof (induction ws arbitrary: ts)
  case (Cons w ws)
  obtain ts1 where n: "next_char_raw ts = (ord_of w, ts1)" "at_text (b - 1) ts1 (ws @ s)" "same_line ts ts1"
    using next_text [of b ts w "ws @ s"] Cons.prems(1) by auto
  have "ord_of w \<noteq> -1" using Cons.prems(2) by (auto simp: is_whitespace_not_newline_def is_whitespace_def)
  then have "next_char_after_whitespace sv ts = next_char_after_whitespace sv ts1"
    using n(1) Cons.prems(2,3) by (subst next_char_after_whitespace.simps) (simp add: saver_add_def)
  with Cons.IH [OF at_text_weaken [OF n(2), of b]] n(3) Cons.prems(2,3) show ?case
    by (auto intro: same_line_trans)
qed auto

lemma no_comment:
  "c \<noteq> CHR 0x23 \<Longrightarrow> c \<noteq> CHR ''/'' \<Longrightarrow> start_of_comment (ord_of c) ts = (Inr False, ts)"
  by (simp add: start_of_comment_def)

lemma pull_next_quoted:
  assumes "at_text 2 ts (render_json_string t @ s)" "CHR 0xFF \<notin> set t" "t = [] \<longrightarrow> s = [] \<or> hd s \<noteq> CHR 0x22"
  shows "\<exists>ts'. pull_next_token fp (Suc n) sv ts = (sv, Inr (new_string (line_origin ts) t), ts') \<and>
           at_text 2 ts' s \<and> same_line ts ts'"
proof -
  have q: "render_json_string t @ s = CHR 0x22 # (tl (render_json_string t) @ s)"
    by (simp add: render_json_string_def)
  obtain ts1 where n: "next_char_after_whitespace sv ts = (ord_of CHR 0x22, sv, ts1)"
    "at_text 1 ts1 (tl (render_json_string t) @ s)" "same_line ts ts1"
    using skip_nothing [OF assms(1) [unfolded q], of sv]
    by (auto simp: is_whitespace_not_newline_def is_whitespace_def char_to_int_def)
  obtain ts2 where "pull_quoted_string ts1 = (Inr (new_string (line_origin ts1) t), ts2)" "at_text 1 ts2 s" "same_line ts1 ts2"
    using pull_quoted_string_text [OF n(2) _ assms(2,3)] by auto
  moreover have "ord_of CHR 0x22 \<noteq> 10" "ord_of CHR 0x22 \<noteq> -1" by (simp_all add: char_to_int_def)
  ultimately show ?thesis
    using n unfolding pull_next_token.simps
    by (auto simp: no_comment then_pull_def same_line_def intro: at_text_weaken same_frame_trans)
qed

subsection \<open>Plain text\<close>

definition plain_char :: "char \<Rightarrow> bool" where
  "plain_char c \<longleftrightarrow> is_alnum c \<or> c = CHR ''-'' \<or> c = CHR ''_'' \<or> c = CHR ''.''"

definition literals :: "string set" where
  "literals = {''true'', ''null'', ''false''}"

lemma plain_char_facts:
  assumes "plain_char c"
  shows "c \<notin> set not_in_unquoted_text" "\<not> is_whitespace (ord_of c)" "c \<noteq> CHR 0x23" "c \<noteq> CHR ''/''" "c \<noteq> CHR 0xFF"
    "ord_of c \<noteq> 10" "ord_of c \<noteq> -1"
  using assms
  by (auto simp: plain_char_def not_in_unquoted_text_def ctype_defs is_whitespace_def char_to_int_def)

definition unquoted :: "config_origin \<Rightarrow> string \<Rightarrow> token_stream \<Rightarrow> token pull" where
  "unquoted orig sb ts = (let (c, ts') = next_char_raw ts in unquoted_loop orig sb c ts')"

lemma unquoted_step:
  assumes "at_text b ts (c # s)" "plain_char c"
  shows "\<exists>ts'. at_text (b - 1) ts' s \<and> same_line ts ts' \<and>
    unquoted orig sb ts =
      (if sb @ [c] = ''true'' then (Inr (new_boolean orig True), ts')
       else if sb @ [c] = ''null'' then (Inr (new_null orig), ts')
       else if sb @ [c] = ''false'' then (Inr (new_boolean orig False), ts')
       else unquoted orig (sb @ [c]) ts')"
proof -
  obtain ts1 where n: "next_char_raw ts = (ord_of c, ts1)" "at_text (b - 1) ts1 s" "same_line ts ts1"
    using next_text [OF assms(1)] by blast
  note p = plain_char_facts [OF assms(2)]
  have "unquoted_loop orig sb (ord_of c) ts1 =
      (if sb @ [c] = ''true'' then (Inr (new_boolean orig True), ts1)
       else if sb @ [c] = ''null'' then (Inr (new_null orig), ts1)
       else if sb @ [c] = ''false'' then (Inr (new_boolean orig False), ts1)
       else unquoted orig (sb @ [c]) ts1)"
    using p by (subst unquoted_loop.simps) (simp add: no_comment unquoted_def Let_def del: append_eq_Cons_conv)
  with n show ?thesis unfolding unquoted_def by auto
qed

lemma unquoted_run:
  "at_text b ts (u @ s) \<Longrightarrow> list_all plain_char u \<Longrightarrow> (\<And>p. p \<in> set (tl (prefixes u)) \<Longrightarrow> sb @ p \<notin> literals) \<Longrightarrow>
   \<exists>ts'. at_text b ts' s \<and> same_line ts ts' \<and> unquoted orig sb ts = unquoted orig (sb @ u) ts'"
proof (induction u arbitrary: ts sb)
  case (Cons c u)
  have nk: "sb @ [c] \<notin> literals" using Cons.prems(3) [of "[c]"] by (cases u) auto
  obtain ts1 where u1: "at_text (b - 1) ts1 (u @ s)" "same_line ts ts1" "unquoted orig sb ts = unquoted orig (sb @ [c]) ts1"
    using unquoted_step [of b ts c "u @ s" orig sb] Cons.prems(1,2) nk
    by (auto simp: literals_def simp del: append_eq_Cons_conv)
  have "(sb @ [c]) @ p \<notin> literals" if "p \<in> set (tl (prefixes u))" for p
    using Cons.prems(3) [of "c # p"] that by (cases u) auto
  from Cons.IH [OF at_text_weaken [OF u1(1), of b] _ this] Cons.prems(2) u1(2,3) show ?case
    by (auto intro: same_line_trans)
qed auto

text \<open>Text ends at the end of the input, at white space and at a reserved character.\<close>

definition ends_text :: "string \<Rightarrow> bool" where
  "ends_text s \<longleftrightarrow> s = [] \<or> (hd s \<noteq> CHR 0xFF \<and> (hd s \<in> set not_in_unquoted_text \<or> is_whitespace (ord_of (hd s))))"

lemma unquoted_stop:
  assumes "at_text 2 ts s" "ends_text s"
  shows "\<exists>ts'. unquoted orig sb ts = (Inr (UnquotedTextToken orig sb), ts') \<and> at_text 2 ts' s \<and> same_line ts ts'"
proof (cases s)
  case Nil
  obtain ts1 where n: "next_char_raw ts = (-1, ts1)" "at_text 1 ts1 []" "same_line ts ts1"
    using next_text_end [of 2 ts] assms(1) Nil by auto
  obtain ts2 where "put_back (-1) ts1 = (Inr (), ts2)" "at_text 2 ts2 []" "same_line ts1 ts2"
    using put_back_end [OF n(2)] by (auto simp: numeral_2_eq_2)
  with n Nil show ?thesis
    by (auto simp: unquoted_def unquoted_loop.simps end_unquoted_def then_pull_def intro: same_line_trans)
next
  case (Cons c s')
  obtain ts1 where n: "next_char_raw ts = (ord_of c, ts1)" "at_text 1 ts1 s'" "same_line ts ts1"
    using next_text [of 2 ts c s'] assms(1) Cons by auto
  obtain ts2 where "put_back (ord_of c) ts1 = (Inr (), ts2)" "at_text 2 ts2 s" "same_line ts1 ts2"
    using put_back_text [OF n(2), of c] Cons by (auto simp: numeral_2_eq_2)
  with n Cons assms(2) show ?thesis
    by (subst unquoted_def)
       (auto simp: unquoted_loop.simps ends_text_def end_unquoted_def then_pull_def char_to_int_eof intro: same_line_trans)
qed


lemma pull_next_plain:
  assumes "at_text 2 ts (c # s)" "plain_char c" "c \<notin> set first_number_chars"
  shows "\<exists>ts'. pull_next_token fp (Suc n) sv ts = (sv, unquoted (line_origin ts) [] ts') \<and>
           at_text 2 ts' (c # s) \<and> same_line ts ts'"
proof -
  note p = plain_char_facts [OF assms(2)]
  obtain ts1 where n: "next_char_after_whitespace sv ts = (ord_of c, sv, ts1)" "at_text 1 ts1 s" "same_line ts ts1"
    using skip_nothing [OF assms(1), of sv] p by (auto simp: is_whitespace_not_newline_def)
  obtain ts2 where b: "put_back (ord_of c) ts1 = (Inr (), ts2)" "at_text 2 ts2 (c # s)" "same_line ts1 ts2"
    using put_back_text [OF n(2), of c] by (auto simp: numeral_2_eq_2)
  have "pull_other fp (ord_of c) ts1 = unquoted (line_origin ts) [] ts2"
    using assms(3) p b n(3) by (auto simp: pull_other_def then_pull_def pull_unquoted_text_def unquoted_def same_line_def)
  moreover have "punctuation (ord_of c) = None" "c \<noteq> CHR 0x22" "c \<noteq> CHR ''$''" "c \<noteq> CHR ''+''"
    using p(1) by (auto simp: punctuation_def not_in_unquoted_text_def)
  ultimately show ?thesis
    using n b p unfolding pull_next_token.simps
    by (auto simp: no_comment then_pull_def intro: same_line_trans)
qed

definition literal_token :: "config_origin \<Rightarrow> string \<Rightarrow> token" where
  "literal_token lo w =
     (if w = ''true'' then new_boolean lo True else if w = ''null'' then new_null lo else new_boolean lo False)"

text \<open>The tokens of a text of quoted strings and plain text, with no white space inside.\<close>

inductive reads :: "config_origin \<Rightarrow> string \<Rightarrow> token list \<Rightarrow> bool" for lo where
  reads_end: "list_all (\<lambda>c. is_whitespace_not_newline (ord_of c)) ws \<Longrightarrow> reads lo ws [Token END]"
| reads_quoted: "reads lo s l \<Longrightarrow> CHR 0xFF \<notin> set t \<Longrightarrow> (t = [] \<Longrightarrow> s = [] \<or> hd s \<noteq> CHR 0x22) \<Longrightarrow>
    reads lo (render_json_string t @ s) (new_string lo t # l)"
| reads_literal: "reads lo s l \<Longrightarrow> w \<in> literals \<Longrightarrow> reads lo (w @ s) (literal_token lo w # l)"
| reads_unquoted: "reads lo s l \<Longrightarrow> u \<noteq> [] \<Longrightarrow> list_all plain_char u \<Longrightarrow> hd u \<notin> set first_number_chars \<Longrightarrow>
    (\<And>w. w \<in> literals \<Longrightarrow> \<not> prefix w u) \<Longrightarrow> ends_text s \<Longrightarrow> reads lo (u @ s) (UnquotedTextToken lo u # l)"

inductive_cases reads_NilE: "reads lo s []"

lemma reads_not_Nil: "reads lo s l \<Longrightarrow> l \<noteq> []"
  by (auto elim: reads_NilE)

lemma tl_prefixes_literal:
  assumes "w \<in> literals" "p \<in> set (tl (prefixes (butlast w)))"
  shows "p \<notin> literals"
  using assms by (auto simp: literals_def)

lemma pull_next_literal:
  assumes "at_text 2 ts (w @ s)" "w \<in> literals"
  shows "\<exists>ts'. pull_next_token fp (Suc n) sv ts = (sv, Inr (literal_token (line_origin ts) w), ts') \<and>
           at_text 2 ts' s \<and> same_line ts ts'"
proof -
  have w: "w = butlast w @ [last w]" "w \<noteq> []" "plain_char (hd w)" "hd w \<notin> set first_number_chars"
    "list_all plain_char (butlast w)" "plain_char (last w)"
    using assms(2) by (auto simp: literals_def plain_char_def first_number_chars_def ctype_defs)
  obtain c w' where c: "w = c # w'" using w(2) by (cases w) auto
  obtain ts1 where p: "pull_next_token fp (Suc n) sv ts = (sv, unquoted (line_origin ts) [] ts1)" "at_text 2 ts1 (w @ s)"
    "same_line ts ts1"
    using pull_next_plain [of ts c "w' @ s" fp n sv] assms(1) w(3,4) c by auto
  have "at_text 2 ts1 (butlast w @ last w # s)" using p(2) w(1) by (metis append_Cons append_Nil append_assoc)
  then obtain ts2 where r: "at_text 2 ts2 (last w # s)" "same_line ts1 ts2"
      "unquoted (line_origin ts) [] ts1 = unquoted (line_origin ts) (butlast w) ts2"
    using unquoted_run [of 2 ts1 "butlast w" "last w # s" "[]" "line_origin ts"] w(5) tl_prefixes_literal [OF assms(2)] by auto
  obtain ts3 where s3: "at_text 1 ts3 s" "same_line ts2 ts3"
    "unquoted (line_origin ts) (butlast w) ts2 = (Inr (literal_token (line_origin ts) w), ts3)"
    using unquoted_step [OF r(1) w(6), of "line_origin ts" "butlast w", folded w(1)] assms(2)
    by (auto simp: literal_token_def literals_def)
  from s3(1) have "at_text 2 ts3 s" by (rule at_text_weaken) simp
  with p r s3(2,3) show ?thesis
    by (auto intro: same_line_trans)
qed

lemma pull_next_unquoted:
  assumes "at_text 2 ts (u @ s)" "u \<noteq> []" "list_all plain_char u" "hd u \<notin> set first_number_chars"
    "\<And>w. w \<in> literals \<Longrightarrow> \<not> prefix w u" "ends_text s"
  shows "\<exists>ts'. pull_next_token fp (Suc n) sv ts = (sv, Inr (UnquotedTextToken (line_origin ts) u), ts') \<and>
           at_text 2 ts' s \<and> same_line ts ts'"
proof -
  obtain c u' where c: "u = c # u'" using assms(2) by (cases u) auto
  obtain ts1 where p: "pull_next_token fp (Suc n) sv ts = (sv, unquoted (line_origin ts) [] ts1)" "at_text 2 ts1 (u @ s)"
    "same_line ts ts1"
    using pull_next_plain [of ts c "u' @ s" fp n sv] assms(1,3,4) c by auto
  have "[] @ p \<notin> literals" if "p \<in> set (tl (prefixes u))" for p
    using assms(5) that by (auto simp: in_set_prefixes dest!: list.set_sel(2) [rotated])
  then obtain ts2 where r: "at_text 2 ts2 s" "same_line ts1 ts2"
      "unquoted (line_origin ts) [] ts1 = unquoted (line_origin ts) u ts2"
    using unquoted_run [OF p(2) assms(3), of "[]" "line_origin ts"] by auto
  from unquoted_stop [OF r(1) assms(6)] p r show ?thesis
    by (metis same_line_trans)
qed

lemma literal_token_simple: "w \<in> literals \<Longrightarrow> is_simple_value (literal_token lo w)"
  by (simp add: literal_token_def is_simple_value_def new_boolean_def new_null_def)

lemma reads_pull:
  assumes "reads lo s l" "at_text 2 ts s" "line_origin ts = lo"
  shows "\<exists>s' sv' ts'. pull_next_token fp (Suc n) sv ts = (sv', Inr (hd l), ts') \<and> at_text 2 ts' s' \<and> same_line ts ts' \<and>
    (l = [Token END] \<or> (sv' = sv \<and> reads lo s' (tl l) \<and> is_simple_value (hd l)))"
  using assms
proof (cases rule: reads.cases)
  case reads_end
  with skip_to_end [OF assms(2), of sv] show ?thesis
    by (fastforce simp: pull_next_token.simps)
next
  case (reads_quoted s' l' t)
  with pull_next_quoted [of ts t s' fp n sv] assms(2,3) show ?thesis
    by (fastforce simp: is_simple_value_def new_string_def)
next
  case (reads_literal s' l' w)
  with pull_next_literal [of ts w s' fp n sv] assms(2,3) literal_token_simple show ?thesis
    by fastforce
next
  case (reads_unquoted s' l' u)
  with pull_next_unquoted [of ts u s' fp n sv] assms(2,3) show ?thesis
    by (fastforce simp: is_simple_value_def)
qed

text \<open>The same after white space, when no simple value came before it.\<close>

lemma reads_pull_leading:
  assumes "reads lo s l" "at_text 2 ts (ws @ s)" "line_origin ts = lo"
    "list_all (\<lambda>c. is_whitespace_not_newline (ord_of c)) ws" "ws = [] \<or> \<not> last_token_was_simple_value sv"
  shows "\<exists>s' sv' ts'. pull_next_token fp (Suc n) sv ts = (sv', Inr (hd l), ts') \<and> at_text 2 ts' s' \<and> same_line ts ts' \<and>
    (l = [Token END] \<or> (sv' = sv \<and> reads lo s' (tl l) \<and> is_simple_value (hd l)))"
proof -
  obtain ts1 where ts1: "next_char_after_whitespace sv ts = next_char_after_whitespace sv ts1" "at_text 2 ts1 s" "same_line ts ts1"
  proof (cases "ws = []")
    case True
    with assms(2) that [of ts] show ?thesis by simp
  next
    case False
    with skip_leading [OF assms(2,4)] assms(5) that show ?thesis by blast
  qed
  have "pull_next_token fp (Suc n) sv ts = pull_next_token fp (Suc n) sv ts1"
    unfolding pull_next_token.simps ts1(1) ..
  moreover have "line_origin ts1 = lo" using ts1(3) assms(3) by (simp add: same_line_def)
  ultimately show ?thesis
    using reads_pull [OF assms(1) ts1(2), of fp n sv] same_line_trans [OF ts1(3)] by auto
qed

lemma saver_clean:
  "is_simple_value t \<Longrightarrow> whitespace s = [] \<Longrightarrow> \<exists>s'. saver_check t orig n s = (Inr None, s') \<and> whitespace s' = []"
  by (cases "last_token_was_simple_value s") (auto simp: saver_check_def next_is_a_simple_value_def)

lemma reads_all_tokens:
  "reads lo s l \<Longrightarrow> at_text 2 ts (ws @ s) \<Longrightarrow> line_origin ts = lo \<Longrightarrow> tokens ts = [t] \<Longrightarrow> t \<noteq> Token END \<Longrightarrow>
   whitespace (whitespace_saver ts) = [] \<Longrightarrow> length l + 1 < n \<Longrightarrow>
   list_all (\<lambda>c. is_whitespace_not_newline (ord_of c)) ws \<Longrightarrow>
   ws = [] \<or> \<not> last_token_was_simple_value (whitespace_saver ts) \<Longrightarrow> all_tokens fp n ts = Inr (t # l)"
proof (induction l arbitrary: s ts t n ws)
  case Nil
  then show ?case using reads_not_Nil by blast
next
  case (Cons a l)
  let ?ts = "ts\<lparr>tokens := []\<rparr>"
  have a: "at_text 2 ?ts (ws @ s)" "line_origin ?ts = lo"
    using Cons.prems(2,3) by (simp_all add: at_text_def pending_def)
  obtain m where m: "n = Suc m" "length l + 1 < m" using Cons.prems(7) by (cases n) auto
  obtain s' sv' ts1 where p: "pull_next_token fp (token_fuel ?ts) (whitespace_saver ?ts) ?ts = (sv', Inr a, ts1)"
    "at_text 2 ts1 s'" "same_line ?ts ts1"
    "a # l = [Token END] \<or> (sv' = whitespace_saver ?ts \<and> reads lo s' l \<and> is_simple_value a)"
    using reads_pull_leading [OF Cons.prems(1) a Cons.prems(8), of "whitespace_saver ?ts" fp "2 * stream_size ?ts"] Cons.prems(9)
    by (auto simp: token_fuel_def)
  have f: "tokens ts1 = []" "line_origin ts1 = lo" using p(3) Cons.prems(3) by (auto simp: same_line_def same_frame_def)
  show ?case
  proof (cases "a # l = [Token END]")
    case True
    then have "next_token fp ts = (Inr t, ts1\<lparr>whitespace_saver := next_is_not_a_simple_value sv', tokens := [Token END]\<rparr>)"
      using p(1) f Cons.prems(4,5)
      by (auto simp: next_token_def queue_next_token_def saver_check_def is_simple_value_def)
    moreover have "all_tokens fp m (ts1\<lparr>whitespace_saver := next_is_not_a_simple_value sv', tokens := [Token END]\<rparr>) = Inr [Token END]"
      using m(2) by (cases m; cases "m - 1") (auto simp: has_next_def next_token_def)
    ultimately show ?thesis
      using True m(1) Cons.prems(4) by (simp add: has_next_def)
  next
    case False
    with p(4) have sv: "sv' = whitespace_saver ts" and r: "reads lo s' l" and simple: "is_simple_value a" by auto
    obtain sv2 where c: "saver_check a (ts_origin ts1) (line_number ts1) sv' = (Inr None, sv2)" "whitespace sv2 = []"
      using saver_clean [OF simple] Cons.prems(6) sv by blast
    let ?ts2 = "ts1\<lparr>whitespace_saver := sv2, tokens := [a]\<rparr>"
    have "next_token fp ts = (Inr t, ?ts2)"
      using p(1) c(1) f Cons.prems(4,5) by (auto simp: next_token_def queue_next_token_def)
    moreover have "all_tokens fp m ?ts2 = Inr (a # l)"
      by (rule Cons.IH [OF r, of _ "[]"])
         (use p(2) f c(2) simple m(2) in \<open>auto simp: at_text_def pending_def is_simple_value_def\<close>)
    ultimately show ?thesis
      using m(1) Cons.prems(4) by (simp add: has_next_def)
  qed
qed


lemma reads_tokenize:
  assumes "origin_ok orig" "tokenize orig rd flavor = Inr ts" "reader_ok rd" "reads (line_origin ts) s l"
    "reader_rest rd = ws @ s" "list_all (\<lambda>c. is_whitespace_not_newline (ord_of c)) ws" "length l + 1 < n"
  shows "all_tokens fp n ts = Inr (Token START # l)"
proof -
  have s: "at_text 0 ts (ws @ s)" "tokens ts = [Token START]" "whitespace_saver ts = new_saver"
    using new_stream_text [OF assms(1-3)] assms(5) by auto
  then show ?thesis
    using reads_all_tokens [OF assms(4) at_text_weaken [OF s(1), of 2] refl s(2)] assms(6,7) by (simp add: new_saver_def)
qed

text \<open>
  C29: rendering a string as JSON and tokenizing it gives the string back: from a string
  or a file holding the rendered text, in either syntax, the tokens are the start, one
  value token with exactly that string, and the end.  The one exception is the byte 255,
  which the readers cannot tell from the end of the input.
\<close>

theorem json_string_round_trip:
  "origin_ok orig \<Longrightarrow> tokenize orig rd flavor = Inr ts \<Longrightarrow> reader_ok rd \<Longrightarrow>
   reader_rest rd = render_json_string s \<Longrightarrow> CHR 0xFF \<notin> set s \<Longrightarrow> 3 < n \<Longrightarrow>
   all_tokens fp n ts = Inr [Token START, new_string (line_origin ts) s, Token END]"
  using reads_tokenize [where l = "[new_string (line_origin ts) s, Token END]" and ws = "[]" and s = "render_json_string s"]
    reads_quoted [OF reads_end [of "[]"], of s "line_origin ts"]
  by simp

theorem json_string_round_trip_witness:
  "\<exists>orig ts. new_simple ''x'' = Inr orig \<and>
     tokenize orig (StringReader (new_string_reader (render_json_string [CHR 0x22, CHR 0x0A, CHR ''a'']))) CONF = Inr ts \<and>
     all_tokens no_doubles 4 ts =
       Inr [Token START, new_string (line_origin ts) [CHR 0x22, CHR 0x0A, CHR ''a''], Token END]"
proof -
  obtain orig where orig: "new_simple ''x'' = Inr orig" by (simp add: new_simple_def make_origin_def)
  let ?rd = "StringReader (new_string_reader (render_json_string [CHR 0x22, CHR 0x0A, CHR ''a'']))"
  have "set_line_number orig 1 = Inr (orig\<lparr>line_no := 1, end_line_no := 1\<rparr>)"
    using orig by (auto simp: new_simple_def make_origin_def set_line_number_def)
  then obtain ts where ts: "tokenize orig ?rd CONF = Inr ts"
    by (simp add: tokenize_def new_token_stream_def)
  have "all_tokens no_doubles 4 ts = Inr [Token START, new_string (line_origin ts) [CHR 0x22, CHR 0x0A, CHR ''a''], Token END]"
    using json_string_round_trip [OF new_simple_ok [OF orig] ts] by simp
  with orig ts show ?thesis by blast
qed


end
