(* ===== verification/Path_Parser.thy ===== *)
theory Path_Parser
  imports Token_Text
begin

section \<open>Path expressions (config/src/detail/parser.cpp, from \<open>Element\<close> on)\<close>

text \<open>
  A path expression is split at the periods outside quotes.  \<open>parse_path\<close> first tries a
  fast routine for letters and periods only and falls back to the tokenizer.  Proved: the
  fast routine agrees with the full parser, and parsing what \<open>Path::render\<close> writes gives
  the path back.  The loop over the iterator runs on fuel, two steps per character, shown
  to be enough.
\<close>

subsection \<open>Elements\<close>

record element =
  element_text :: string
  can_be_empty :: bool

definition element_to_string :: "element \<Rightarrow> string" where
  "element_to_string e =
     ''Element('' @ element_text e @ '','' @ (if can_be_empty e then ''true'' else ''false'') @ '')''"

definition empty_element :: element where
  "empty_element = \<lparr>element_text = [], can_be_empty = False\<rparr>"

function add_path_text :: "element list \<Rightarrow> bool \<Rightarrow> string \<Rightarrow> element list" where
  "add_path_text buf was_quoted new_text =
     (case (if was_quoted then None else str_find CHR ''.'' new_text) of
        None \<Rightarrow>
          let current = (last buf)\<lparr>element_text := element_text (last buf) @ new_text\<rparr>
          in butlast buf @
             [if was_quoted \<and> element_text current = [] then current\<lparr>can_be_empty := True\<rparr> else current]
      | Some i \<Rightarrow>
          add_path_text
            (butlast buf @ [(last buf)\<lparr>element_text := element_text (last buf) @ take i new_text\<rparr>, empty_element])
            False (drop (i + 1) new_text))"
  by pat_completeness auto
termination
  by (relation "measure (\<lambda>(buf, q, t). length t)") (auto dest: str_find_SomeD split: if_splits)

declare add_path_text.simps [simp del]

subsection \<open>Iterators\<close>

datatype token_iterator = VectorIterator "token list" | StreamIterator token_stream

fun iter_has_next :: "token_iterator \<Rightarrow> bool" where
  "iter_has_next (VectorIterator l) = (l \<noteq> [])"
| "iter_has_next (StreamIterator ts) = has_next ts"

fun iter_next :: "fp_text \<Rightarrow> token_iterator \<Rightarrow> (tok_exception + token) \<times> token_iterator" where
  "iter_next fp (VectorIterator []) = (Inl (TokException NullPointer), VectorIterator [])"
| "iter_next fp (VectorIterator (t # l)) = (Inr t, VectorIterator l)"
| "iter_next fp (StreamIterator ts) = (let (r, ts') = next_token fp ts in (r, StreamIterator ts'))"

fun iter_fuel :: "token_iterator \<Rightarrow> nat" where
  "iter_fuel (VectorIterator l) = length l + 1"
| "iter_fuel (StreamIterator ts) = token_rank ts + 1"

subsection \<open>The full parser\<close>

definition lift_exc :: "config_exception + 'a \<Rightarrow> tok_exception + 'a" where
  "lift_exc m = (case m of Inl e \<Rightarrow> Inl (TokException e) | Inr x \<Rightarrow> Inr x)"

definition bad_path :: "config_origin \<Rightarrow> string \<Rightarrow> string \<Rightarrow> tok_exception" where
  "bad_path orig original_text message = TokException (ConfigExceptionBadPath (Some orig) original_text message)"

text \<open>One token of the expression; the end token is ignored.\<close>

definition path_token ::
  "fp_text \<Rightarrow> config_origin \<Rightarrow> string \<Rightarrow> token \<Rightarrow> element list \<Rightarrow> tok_exception + element list" where
  "path_token fp orig original_text t buf =
     bind_exc (lift_exc (is_value_with_type fp t STRING))
       (\<lambda>is_string.
          if is_string
          then bind_exc (lift_exc (get_value fp t)) (\<lambda>v. Inr (add_path_text buf True (transform_to_string fp v)))
          else if t = Token END then Inr buf
          else bind_exc
                 (if is_value t
                  then bind_exc (lift_exc (get_value fp t)) (\<lambda>v. Inr (transform_to_string fp v))
                  else if is_unquoted_text t then lift_exc (get_unquoted_text fp t)
                  else bind_exc (lift_exc (token_to_string fp t))
                         (\<lambda>s. Inl (bad_path orig original_text
                                     (''Token not allowed in path expression: '' @ s @
                                      '' (you can double-quote this token if you really want it here)''))))
                 (\<lambda>text. Inr (add_path_text buf False text)))"

fun path_loop ::
  "fp_text \<Rightarrow> nat \<Rightarrow> config_origin \<Rightarrow> string \<Rightarrow> token_iterator \<Rightarrow> element list \<Rightarrow> tok_exception + element list" where
  "path_loop fp 0 orig original_text it buf = Inl OutOfFuel"
| "path_loop fp (Suc n) orig original_text it buf =
     (if \<not> iter_has_next it then Inr buf
      else case iter_next fp it of
             (Inl e, _) \<Rightarrow> Inl e
           | (Inr t, it') \<Rightarrow>
               bind_exc (path_token fp orig original_text t buf) (\<lambda>buf'. path_loop fp n orig original_text it' buf'))"

fun append_elements ::
  "config_origin \<Rightarrow> string \<Rightarrow> element list \<Rightarrow> path_builder \<Rightarrow> tok_exception + path_builder" where
  "append_elements orig original_text [] pb = Inr pb"
| "append_elements orig original_text (e # es) pb =
     (if element_text e = [] \<and> \<not> can_be_empty e
      then Inl (bad_path orig original_text
                  (''path has a leading, trailing, or two adjacent period '' @ quoted ''.'' @ '' (use quoted '' @
                   [CHR 0x22, CHR 0x22] @ '' empty string if you want an empty element)''))
      else bind_exc (lift_exc (append_key pb (element_text e))) (\<lambda>pb'. append_elements orig original_text es pb'))"

definition parse_path_expression ::
  "fp_text \<Rightarrow> token_iterator \<Rightarrow> config_origin \<Rightarrow> string \<Rightarrow> tok_exception + config_path option" where
  "parse_path_expression fp expression orig original_text =
     (if \<not> iter_has_next expression
      then Inl (bad_path orig original_text ''_expecting a field name or path here, but got nothing'')
      else bind_exc (path_loop fp (iter_fuel expression) orig original_text expression [empty_element])
             (\<lambda>buf. bind_exc (append_elements orig original_text buf new_builder)
                      (\<lambda>pb. Inr (fst (result pb)))))"

subsection \<open>The fast routine\<close>

definition has_unsafe_chars :: "string \<Rightarrow> bool" where
  "has_unsafe_chars s = list_ex (\<lambda>c. \<not> (is_alpha c \<or> c = CHR ''.'')) s"

function append_path_string :: "path_builder \<Rightarrow> string \<Rightarrow> config_exception + path_builder" where
  "append_path_string pb s =
     (case str_find CHR ''.'' s of
        None \<Rightarrow> append_key pb s
      | Some split_at \<Rightarrow>
          (case append_key pb (take split_at s) of
             Inl e \<Rightarrow> Inl e
           | Inr pb' \<Rightarrow> append_path_string pb' (drop (split_at + 1) s)))"
  by pat_completeness auto
termination
  by (relation "measure (\<lambda>(pb, s). length s)") (auto dest: str_find_SomeD)

declare append_path_string.simps [simp del]

text \<open>\<^verbatim>\<open>boost::trim_copy\<close> strips white space at both ends.\<close>

definition speculative_fast_parse_path :: "string \<Rightarrow> config_exception + config_path option" where
  "speculative_fast_parse_path path =
     (let s = strip is_space path
      in if s = [] then Inr None
         else if has_unsafe_chars s then Inr None
         else if starts_with s ''.'' \<or> ends_with s ''.'' \<or> contains s ''..'' then Inr None
         else bind_exc (append_path_string new_builder s) (\<lambda>pb. Inr (fst (result pb))))"

definition full_parse_path :: "fp_text \<Rightarrow> string \<Rightarrow> tok_exception + config_path option" where
  "full_parse_path fp path =
     bind_exc (lift_exc (new_simple ''path parameter''))
       (\<lambda>api_origin.
          bind_exc (lift_exc (tokenize api_origin (StringReader (new_string_reader path)) CONF))
            (\<lambda>ts. case next_token fp ts of
                    (Inl e, _) \<Rightarrow> Inl e
                  | (Inr _, ts') \<Rightarrow> parse_path_expression fp (StreamIterator ts') api_origin path))"

definition parse_path :: "fp_text \<Rightarrow> string \<Rightarrow> tok_exception + config_path option" where
  "parse_path fp path =
     (case speculative_fast_parse_path path of
        Inl e \<Rightarrow> Inl (TokException e)
      | Inr (Some p) \<Rightarrow> Inr (Some p)
      | Inr None \<Rightarrow> full_parse_path fp path)"

definition new_path :: "fp_text \<Rightarrow> string \<Rightarrow> tok_exception + config_path option" where
  "new_path fp path = parse_path fp path"

definition join_path :: "string list \<Rightarrow> config_exception + string" where
  "join_path elements = bind_exc (path_of_elements elements) (\<lambda>p. Inr (path_render p))"

fun walk_path :: "config_path \<Rightarrow> string list" where
  "walk_path (Path k None) = [k]"
| "walk_path (Path k (Some p)) = k # walk_path p"

definition split_path :: "fp_text \<Rightarrow> string \<Rightarrow> tok_exception + string list" where
  "split_path fp path =
     bind_exc (new_path fp path) (\<lambda>r. Inr (case r of None \<Rightarrow> [] | Some p \<Rightarrow> walk_path p))"

subsection \<open>Appending text to the elements\<close>


lemma add_path_text_not_Nil [simp]: "add_path_text buf q t \<noteq> []"
proof (induction buf q t rule: add_path_text.induct)
  case (1 buf q t)
  then show ?case by (subst add_path_text.simps) (auto simp: Let_def split: option.splits)
qed

lemma add_path_text_nodot:
  "CHR ''.'' \<notin> set t \<Longrightarrow>
   add_path_text buf False t = butlast buf @ [(last buf)\<lparr>element_text := element_text (last buf) @ t\<rparr>]"
  by (subst add_path_text.simps) (simp add: str_find_None_iff [THEN iffD2])

lemma add_path_text_dot:
  "CHR ''.'' \<notin> set t \<Longrightarrow>
   add_path_text buf False (t @ CHR ''.'' # v) =
     add_path_text (butlast buf @ [(last buf)\<lparr>element_text := element_text (last buf) @ t\<rparr>, empty_element]) False v"
  by (subst add_path_text.simps) (simp add: str_find_append)

text \<open>Unquoted text may arrive in pieces.\<close>

lemma add_path_text_append:
  assumes "buf \<noteq> []"
  shows "add_path_text buf False (u @ v) = add_path_text (add_path_text buf False u) False v"
  using assms
proof (induction "length u + length v" arbitrary: buf u v rule: less_induct)
  case less
  show ?case
  proof (cases "CHR ''.'' \<in> set u")
    case True
    then obtain t u' where u: "u = t @ CHR ''.'' # u'" "CHR ''.'' \<notin> set t"
      by (meson split_list_first)
    then show ?thesis
      using less.hyps [of u' v] by (simp add: add_path_text_dot)
  next
    case nodot: False
    show ?thesis
    proof (cases "CHR ''.'' \<in> set v")
      case True
      then obtain t v' where v: "v = t @ CHR ''.'' # v'" "CHR ''.'' \<notin> set t"
        by (meson split_list_first)
      then show ?thesis
        using nodot add_path_text_dot [of "u @ t" buf v'] by (simp add: add_path_text_nodot add_path_text_dot)
    next
      case False
      then show ?thesis
        using nodot by (simp add: add_path_text_nodot)
    qed
  qed
qed

lemma add_path_text_quoted:
  "add_path_text buf True t =
     butlast buf @ [\<lparr>element_text = element_text (last buf) @ t,
                     can_be_empty = (can_be_empty (last buf) \<or> element_text (last buf) @ t = [])\<rparr>]"
  by (subst add_path_text.simps) (cases "last buf"; auto simp: Let_def)


subsection \<open>The loop over a stream is the loop over its tokens\<close>

fun path_tokens ::
  "fp_text \<Rightarrow> config_origin \<Rightarrow> string \<Rightarrow> token list \<Rightarrow> element list \<Rightarrow> tok_exception + element list" where
  "path_tokens fp orig txt [] buf = Inr buf"
| "path_tokens fp orig txt (t # l) buf =
     bind_exc (path_token fp orig txt t buf) (\<lambda>buf'. path_tokens fp orig txt l buf')"

lemma path_loop_vector:
  "length l < n \<Longrightarrow> path_loop fp n orig txt (VectorIterator l) buf = path_tokens fp orig txt l buf"
proof (induction l arbitrary: n buf)
  case Nil
  then show ?case by (cases n) auto
next
  case (Cons t l)
  then show ?case by (cases n) (auto simp: bind_exc_def split: sum.splits)
qed

lemma path_loop_stream:
  "all_tokens fp m ts = Inr l \<Longrightarrow>
   path_loop fp n orig txt (StreamIterator ts) buf = path_loop fp n orig txt (VectorIterator l) buf"
proof (induction n arbitrary: m ts l buf)
  case (Suc n)
  then obtain k where m: "m = Suc k" by (cases m) auto
  show ?case
  proof (cases "has_next ts")
    case False
    with Suc.prems m show ?thesis by simp
  next
    case True
    with Suc.prems m obtain t ts' l' where
      "next_token fp ts = (Inr t, ts')" "all_tokens fp k ts' = Inr l'" "l = t # l'"
      by (auto split: prod.splits sum.splits)
    with True Suc.IH show ?thesis by (simp add: bind_exc_def split: sum.splits)
  qed
qed simp

lemma all_tokens_length:
  "stream_inv ts \<Longrightarrow> all_tokens fp n ts = Inr l \<Longrightarrow> length l \<le> token_rank ts"
proof (induction n arbitrary: ts l)
  case (Suc n)
  show ?case
  proof (cases "tokens ts")
    case Nil
    with Suc.prems show ?thesis by (simp add: has_next_def)
  next
    case (Cons t rest)
    obtain ts' where ts': "next_token fp ts = (Inr t, ts')" "stream_inv ts'" "token_rank ts' < token_rank ts"
      using next_token_ok [OF Suc.prems(1) Cons] by blast
    then obtain l' where "all_tokens fp n ts' = Inr l'" "l = t # l'"
      using Suc.prems(2) Cons by (auto simp: has_next_def split: sum.splits)
    with Suc.IH [OF ts'(2)] ts'(3) show ?thesis by auto
  qed
qed simp

lemma path_loop_all_tokens:
  assumes "stream_inv ts" "all_tokens fp m ts = Inr l"
  shows "path_loop fp (iter_fuel (StreamIterator ts)) orig txt (StreamIterator ts) buf = path_tokens fp orig txt l buf"
proof -
  have "length l < iter_fuel (StreamIterator ts)" using all_tokens_length [OF assms] by simp
  from path_loop_stream [OF assms(2)] path_loop_vector [OF this] show ?thesis by (rule trans)
qed

lemma path_token_simps [simp]:
  "path_token fp orig txt (new_string lo t) buf = Inr (add_path_text buf True t)"
  "path_token fp orig txt (UnquotedTextToken lo t) buf = Inr (add_path_text buf False t)"
  "path_token fp orig txt (Token END) buf = Inr buf"
  "w \<in> literals \<Longrightarrow> path_token fp orig txt (literal_token lo w) buf = Inr (add_path_text buf False w)"
  by (auto simp: path_token_def new_string_def lift_exc_def literal_token_def literals_def new_boolean_def new_null_def)

lemma add_path_text_Nil [simp]: "buf \<noteq> [] \<Longrightarrow> add_path_text buf False [] = buf"
  using append_butlast_last_id [of buf] by (subst add_path_text.simps) simp

text \<open>A run of letters and periods, whatever literals it begins with, has the effect of its text.\<close>

lemma reads_letters:
  assumes "reads lo s l" "ends_text s"
  shows "list_all plain_char u \<Longrightarrow> set u \<inter> set first_number_chars = {} \<Longrightarrow>
    \<exists>l'. reads lo (u @ s) l' \<and>
         (\<forall>buf. buf \<noteq> [] \<longrightarrow> path_tokens fp orig txt l' buf = path_tokens fp orig txt l (add_path_text buf False u))"
proof (induction "length u" arbitrary: u rule: less_induct)
  case less
  show ?case
  proof (cases "u = []")
    case True
    with assms(1) show ?thesis by auto
  next
    case ne: False
    show ?thesis
    proof (cases "\<exists>w \<in> literals. prefix w u")
      case True
      then obtain w u' where w: "w \<in> literals" "u = w @ u'" by (auto simp: prefix_def)
      moreover have "w \<noteq> []" using w(1) by (auto simp: literals_def)
      ultimately obtain l' where l': "reads lo (u' @ s) l'"
        "\<forall>buf. buf \<noteq> [] \<longrightarrow> path_tokens fp orig txt l' buf = path_tokens fp orig txt l (add_path_text buf False u')"
        using less.hyps [of u'] less.prems by auto
      with reads_literal [OF l'(1) w(1)] w show ?thesis
        by (intro exI [of _ "literal_token lo w # l'"]) (auto simp: add_path_text_append)
    next
      case False
      have "hd u \<notin> set first_number_chars" using ne less.prems(2) by (metis IntI empty_iff list.set_sel(1))
      with reads_unquoted [OF assms(1) ne less.prems(1) _ _ assms(2)] False show ?thesis
        by (intro exI [of _ "UnquotedTextToken lo u # l"]) auto
    qed
  qed
qed

lemma reads_run:
  assumes "reads lo s l" "ends_text s" "u \<noteq> []" "list_all plain_char u" "hd u \<notin> set first_number_chars"
    "\<forall>w \<in> literals. \<not> prefix w u"
  shows "\<exists>l'. reads lo (u @ s) l' \<and>
         (\<forall>buf. path_tokens fp orig txt l' buf = path_tokens fp orig txt l (add_path_text buf False u))"
  using reads_unquoted [OF assms(1,3,4,5) _ assms(2)] assms(6)
  by (intro exI [of _ "UnquotedTextToken lo u # l"]) auto

subsection \<open>From the text to the path\<close>

lemma append_elements_ok:
  "pb_open pb \<Longrightarrow> list_all (\<lambda>e. element_text e \<noteq> [] \<or> can_be_empty e) es \<Longrightarrow>
   \<exists>pb'. append_elements orig txt es pb = Inr pb' \<and> pb_open pb' \<and> rev (keys pb') = rev (keys pb) @ map element_text es"
proof (induction es arbitrary: pb)
  case (Cons e es)
  obtain pb1 where "append_key pb (element_text e) = Inr pb1" "pb_open pb1"
      "rev (keys pb1) = rev (keys pb) @ [element_text e]"
    using append_key_ok [OF Cons.prems(1)] by blast
  with Cons.IH [of pb1] Cons.prems(2) show ?case by (auto simp: lift_exc_def)
qed simp

lemma full_parse_path_reads:
  assumes r: "\<And>lo. \<exists>l. reads lo s l \<and> path_tokens fp orig txt l [empty_element] = Inr es"
    and orig: "new_simple ''path parameter'' = Inr orig" and split: "txt = ws @ s"
    and ws: "list_all (\<lambda>c. is_whitespace_not_newline (ord_of c)) ws"
    and ok: "list_all (\<lambda>e. element_text e \<noteq> [] \<or> can_be_empty e) es \<and> map element_text es = ks"
  shows "\<exists>p. full_parse_path fp txt = Inr p \<and> opt_keys p = ks"
proof -
  let ?rd = "StringReader (new_string_reader txt)"
  obtain ts where ts: "tokenize orig ?rd CONF = Inr ts"
    using tokenize_ok [OF new_simple_ok [OF orig]] by blast
  obtain l where l: "reads (line_origin ts) s l" "path_tokens fp orig txt l [empty_element] = Inr es"
    using r by blast
  have all: "all_tokens fp (length l + 2) ts = Inr (Token START # l)"
    by (rule reads_tokenize [OF new_simple_ok [OF orig] ts _ l(1)]) (use ws split in auto)
  have inv: "stream_inv ts" "tokens ts = [Token START]" using tokenize_inv [OF new_simple_ok [OF orig] ts] by auto
  obtain ts1 where ts1: "next_token fp ts = (Inr (Token START), ts1)" "stream_inv ts1" "tokens ts1 \<noteq> []"
    using next_token_ok [OF inv, where fp = fp] by auto
  then have "all_tokens fp (length l + 1) ts1 = Inr l"
    using all inv(2) by (auto simp: has_next_def split: sum.splits)
  from path_loop_all_tokens [OF ts1(2) this] l(2) have "path_loop fp (iter_fuel (StreamIterator ts1)) orig txt (StreamIterator ts1) [empty_element] = Inr es"
    by (rule trans)
  moreover obtain pb where "append_elements orig txt es new_builder = Inr pb" "pb_open pb" "rev (keys pb) = ks"
    using append_elements_ok [of new_builder es orig "txt"] ok by auto
  ultimately show ?thesis
    using ts ts1 orig pb.finish_keys [of pb]
    by (auto simp: full_parse_path_def lift_exc_def parse_path_expression_def has_next_def)
qed


subsection \<open>The fast routine agrees\<close>

text \<open>The reference: the pieces between the periods.\<close>

fun dot_split :: "string \<Rightarrow> string list" where
  "dot_split [] = [[]]"
| "dot_split (c # s) =
     (if c = CHR ''.'' then [] # dot_split s
      else case dot_split s of [] \<Rightarrow> [[c]] | x # xs \<Rightarrow> (c # x) # xs)"

lemma dot_split_not_Nil [simp]: "dot_split s \<noteq> []"
  by (cases s) (auto split: list.splits)

lemma dot_split_nodot: "CHR ''.'' \<notin> set s \<Longrightarrow> dot_split s = [s]"
  by (induction s) auto

lemma dot_split_dot: "CHR ''.'' \<notin> set t \<Longrightarrow> dot_split (t @ CHR ''.'' # v) = t # dot_split v"
  by (induction t) auto

lemma dot_split_hd: "hd (dot_split s) = [] \<longleftrightarrow> s = [] \<or> hd s = CHR ''.''"
  by (cases s) (auto split: list.splits)

lemma starts_with_dot: "starts_with (c # s) ''.'' \<longleftrightarrow> c = CHR ''.''"
  by (simp add: starts_with_def)

lemma dot_split_gap:
  "[] \<in> set (tl (dot_split s)) \<Longrightarrow> last s = CHR ''.'' \<or> contains s ''..''"
proof (induction s)
  case (Cons c s)
  show ?case
  proof (cases "c = CHR ''.''")
    case False
    with Cons show ?thesis by (cases s) (auto split: list.splits)
  next
    case True
    then have "[] \<in> set (dot_split s)" using Cons.prems by simp
    then have "hd (dot_split s) = [] \<or> [] \<in> set (tl (dot_split s))"
      by (cases "dot_split s") auto
    then consider "s = []" | d s' where "s = d # s'" "d = CHR ''.''" | "s \<noteq> []" "[] \<in> set (tl (dot_split s))"
      unfolding dot_split_hd by (metis list.collapse list.sel(1))
    then show ?thesis
    proof cases
      case 2
      with True have "starts_with (c # s) ''..''" by (simp add: starts_with_def)
      then show ?thesis by simp
    next
      case 3
      with Cons.IH show ?thesis by auto
    qed (use True in simp)
  qed
qed simp

lemma add_path_text_split:
  "buf \<noteq> [] \<Longrightarrow>
   add_path_text buf False s =
     butlast buf @ (last buf)\<lparr>element_text := element_text (last buf) @ hd (dot_split s)\<rparr> #
     map (\<lambda>x. \<lparr>element_text = x, can_be_empty = False\<rparr>) (tl (dot_split s))"
proof (induction "length s" arbitrary: s buf rule: less_induct)
  case less
  show ?case
  proof (cases "CHR ''.'' \<in> set s")
    case True
    then obtain t v where s: "s = t @ CHR ''.'' # v" "CHR ''.'' \<notin> set t"
      by (meson split_list_first)
    obtain x xs where x: "dot_split v = x # xs" by (cases "dot_split v") auto
    with s less.hyps [of v] show ?thesis
      by (simp add: add_path_text_dot dot_split_dot empty_element_def butlast_append)
  next
    case False
    then show ?thesis by (simp add: add_path_text_nodot dot_split_nodot)
  qed
qed

lemma append_path_string_keys:
  "pb_open pb \<Longrightarrow> \<exists>pb'. append_path_string pb s = Inr pb' \<and> pb_open pb' \<and> rev (keys pb') = rev (keys pb) @ dot_split s"
proof (induction "length s" arbitrary: s pb rule: less_induct)
  case less
  show ?case
  proof (cases "CHR ''.'' \<in> set s")
    case True
    then obtain t v where s: "s = t @ CHR ''.'' # v" "CHR ''.'' \<notin> set t"
      by (meson split_list_first)
    obtain pb1 where "append_key pb t = Inr pb1" "pb_open pb1" "rev (keys pb1) = rev (keys pb) @ [t]"
      using append_key_ok [OF less.prems] by blast
    with less.hyps [of v pb1] s show ?thesis
      by (subst append_path_string.simps) (auto simp: str_find_append dot_split_dot)
  next
    case False
    with append_key_ok [OF less.prems, of s] show ?thesis
      by (subst append_path_string.simps) (auto simp: str_find_None_iff [THEN iffD2] dot_split_nodot)
  qed
qed

lemma ends_with_dot: "s \<noteq> [] \<Longrightarrow> ends_with s ''.'' \<longleftrightarrow> last s = CHR ''.''"
  by (cases s rule: rev_cases) (auto simp: ends_with_def)

lemma fast_parse_cases:
  assumes "speculative_fast_parse_path path = Inr (Some q)"
  shows "strip is_space path \<noteq> [] \<and> list_all (\<lambda>c. is_alpha c \<or> c = CHR ''.'') (strip is_space path) \<and>
         [] \<notin> set (dot_split (strip is_space path)) \<and> path_keys q = dot_split (strip is_space path)"
proof -
  let ?s = "strip is_space path"
  have c: "?s \<noteq> []" "\<not> has_unsafe_chars ?s" "\<not> starts_with ?s ''.''" "\<not> ends_with ?s ''.''" "\<not> contains ?s ''..''"
    "bind_exc (append_path_string new_builder ?s) (\<lambda>pb. Inr (fst (result pb))) = Inr (Some q)"
    using assms by (auto simp: speculative_fast_parse_path_def Let_def split: if_splits)
  obtain pb where pb: "append_path_string new_builder ?s = Inr pb" "pb_open pb" "rev (keys pb) = dot_split ?s"
    using append_path_string_keys [of new_builder ?s] by auto
  have "hd (dot_split ?s) \<noteq> []" "[] \<notin> set (tl (dot_split ?s))"
    using c dot_split_gap [of ?s] ends_with_dot [of ?s] starts_with_dot [of "hd ?s" "tl ?s"] by (auto simp: dot_split_hd)
  then have "[] \<notin> set (dot_split ?s)" by (cases "dot_split ?s") auto
  with c pb pb.finish_keys [OF pb(2)] show ?thesis
    by (auto simp: has_unsafe_chars_def list_all_iff list_ex_iff)
qed

lemma is_space_whitespace: "is_space c \<longleftrightarrow> is_whitespace (ord_of c)"
proof -
  have "int (code c) < 256" by simp
  then have "ord_of c = (if int (code c) < 128 then int (code c) else int (code c) - 256)"
    "is_space c \<longleftrightarrow> (9 \<le> int (code c) \<and> int (code c) \<le> 13) \<or> int (code c) = 32" "int (code c) < 256"
    by (auto simp: char_to_int_def is_space_def)
  then show ?thesis unfolding is_whitespace_def by (simp only: split: if_split) linarith
qed

lemma blank_line:
  "list_all is_space ws \<Longrightarrow> CHR 0x0A \<notin> set ws \<Longrightarrow> list_all (\<lambda>c. is_whitespace_not_newline (ord_of c)) ws"
proof -
  have "ord_of c = 10 \<longleftrightarrow> c = CHR 0x0A" for c
    using char_to_int_inject [of c "CHR 0x0A"] by (simp add: char_to_int_def)
  then show "list_all is_space ws \<Longrightarrow> CHR 0x0A \<notin> set ws \<Longrightarrow> ?thesis"
    by (auto simp: list_all_iff is_whitespace_not_newline_def is_space_whitespace [symmetric])
qed

lemma fast_agrees:
  assumes "speculative_fast_parse_path path = Inr (Some q)" "CHR 0x0A \<notin> set path"
  shows "full_parse_path fp path = Inr (Some q)"
proof -
  let ?s = "strip is_space path"
  note f = fast_parse_cases [OF assms(1)]
  obtain xs ys where path: "path = xs @ ?s @ ys" "list_all is_space xs" "list_all is_space ys"
    using strip_decomp by blast
  have nl: "CHR 0x0A \<notin> set xs" "CHR 0x0A \<notin> set ys"
    using assms(2) path(1) by (metis Un_iff set_append)+
  have ends: "ends_text ys"
    using path(3) by (cases ys) (auto simp: ends_text_def is_space_whitespace is_whitespace_def char_to_int_def)
  have plain: "list_all plain_char ?s" "set ?s \<inter> set first_number_chars = {}"
    using f by (auto simp: list_all_iff plain_char_def first_number_chars_def is_alnum_def ctype_defs)
  obtain orig where orig: "new_simple ''path parameter'' = Inr orig" by (simp add: new_simple_def make_origin_def)
  define es where "es = map (\<lambda>x. \<lparr>element_text = x, can_be_empty = False\<rparr>) (dot_split ?s)"
  have "add_path_text [empty_element] False ?s = es"
    by (cases "dot_split ?s") (auto simp: add_path_text_split es_def empty_element_def)
  then have "\<exists>l. reads lo (?s @ ys) l \<and> path_tokens fp orig path l [empty_element] = Inr es" for lo
    using reads_letters [OF reads_end [OF blank_line [OF path(3) nl(2)]] ends plain, of lo fp orig path] by auto
  then have "\<exists>p. full_parse_path fp path = Inr p \<and> opt_keys p = dot_split ?s"
    by (rule full_parse_path_reads [OF _ orig path(1) blank_line [OF path(2) nl(1)]])
       (use f in \<open>auto simp: es_def list_all_iff comp_def\<close>)
  with f opt_keys_inject [of _ "Some q"] show ?thesis by auto
qed

text \<open>
  C28: the fast routine for simple paths is an optimisation and nothing else.  When it
  gives a path, the full parser gives the same path for the same text, provided the text
  has no line break; the fast routine trims line breaks at the ends, which the full parser
  would reject as tokens not allowed in a path.
\<close>

theorem fast_path_is_full_parse:
  "speculative_fast_parse_path path = Inr (Some q) \<Longrightarrow> CHR 0x0A \<notin> set path \<Longrightarrow>
   full_parse_path fp path = Inr (Some q) \<and> path_keys q = dot_split (strip is_space path)"
  using fast_agrees fast_parse_cases by blast

theorem fast_path_is_full_parse_witness:
  "\<exists>q. speculative_fast_parse_path '' true.b '' = Inr (Some q) \<and> full_parse_path no_doubles '' true.b '' = Inr (Some q) \<and>
       path_keys q = [''true'', ''b'']"
proof -
  have q: "speculative_fast_parse_path '' true.b '' = Inr (Some (Path ''true'' (Some (Path ''b'' None))))"
    by code_simp
  from fast_path_is_full_parse [OF q, of no_doubles] q show ?thesis by simp
qed


subsection \<open>Parsing a rendered path\<close>

lemma append_to_stream_eq: "append_to_stream p s = s @ path_render p"
proof -
  have "append_to_stream p (s @ t) = s @ append_to_stream p t" for s t
    by (induction p arbitrary: t rule: path_induct) simp_all
  from this [of s "[]"] show ?thesis by (simp add: path_render_def)
qed

lemma path_render_simps [simp]:
  "path_render (Path k None) = render_key k"
  "path_render (Path k (Some p)) = render_key k @ CHR ''.'' # path_render p"
  using append_to_stream_eq [of p "render_key k @ ''.''"] by (simp_all add: path_render_def)

definition quoted_key :: "string \<Rightarrow> bool" where
  "quoted_key k \<longleftrightarrow> has_funky_chars k \<or> k = []"

lemma render_key_eq: "render_key k = (if quoted_key k then render_json_string k else k)"
  by (simp add: render_key_def quoted_key_def)

lemma unquoted_key_plain:
  assumes "\<not> quoted_key k"
  shows "k \<noteq> []" "list_all plain_char k" "CHR ''.'' \<notin> set k" "hd k \<notin> set first_number_chars"
proof -
  obtain c cs where k: "k = c # cs" "is_alpha c" "\<forall>d \<in> set cs. is_alnum d \<or> d = CHR ''-'' \<or> d = CHR ''_''"
    using assms by (cases k) (auto simp: quoted_key_def has_funky_chars_def list_ex_iff split: if_splits)
  have dot: "\<not> is_alnum CHR ''.''" by (simp add: ctype_defs)
  show "k \<noteq> []" using k(1) by simp
  show "list_all plain_char k"
    using k by (auto simp: list_all_iff plain_char_def is_alnum_def)
  show "CHR ''.'' \<notin> set k"
    using k dot by (auto simp: is_alnum_def)
  show "hd k \<notin> set first_number_chars"
    using k(1,2) by (auto simp: first_number_chars_def ctype_defs)
qed

text \<open>Unquoted text that has already begun: it contains a period and cannot be a number or a literal.\<close>

definition run_ok :: "string \<Rightarrow> bool" where
  "run_ok u \<longleftrightarrow> CHR ''.'' \<in> set u \<and> list_all plain_char u \<and> hd u \<notin> set first_number_chars \<and>
     (\<forall>w \<in> literals. \<not> prefix w u)"

lemma literal_no_dot: "w \<in> literals \<Longrightarrow> CHR ''.'' \<notin> set w"
  by (auto simp: literals_def)

lemma prefix_literal_dot: "w \<in> literals \<Longrightarrow> prefix w (u @ CHR ''.'' # v) \<longleftrightarrow> prefix w u"
proof -
  assume w: "w \<in> literals"
  show ?thesis
  proof
    assume "prefix w (u @ CHR ''.'' # v)"
    then consider "prefix w u" | us where "w = u @ us" "prefix us (CHR ''.'' # v)"
      by (auto simp: prefix_append)
    then show "prefix w u"
    proof cases
      case 2
      then show ?thesis using literal_no_dot [OF w] by (cases us) auto
    qed
  qed simp
qed

lemma run_ok_append: "run_ok u \<Longrightarrow> list_all plain_char v \<Longrightarrow> run_ok (u @ v)"
proof -
  assume u: "run_ok u" and v: "list_all plain_char v"
  then obtain a b where ab: "u = a @ CHR ''.'' # b" by (auto simp: run_ok_def dest: split_list)
  have "\<not> prefix w (u @ v)" if "w \<in> literals" for w
    using u that prefix_literal_dot [OF that, of a "b @ v"] prefix_literal_dot [OF that, of a b]
    by (auto simp: run_ok_def ab)
  moreover have "hd (u @ v) = hd u" unfolding ab by (cases a) simp_all
  ultimately show ?thesis using u v by (auto simp: run_ok_def)
qed

lemma run_ok_dot: "run_ok ''.''"
  by (auto simp: run_ok_def plain_char_def first_number_chars_def literals_def)

lemma run_ok_key:
  "\<not> quoted_key k \<Longrightarrow> \<forall>w \<in> literals. \<not> prefix w k \<Longrightarrow> run_ok (k @ ''.'')"
  using unquoted_key_plain [of k] prefix_literal_dot [of _ k "[]"]
  by (auto simp: run_ok_def plain_char_def)

text \<open>What parsing the keys of a path does to the elements.\<close>

fun feed :: "element list \<Rightarrow> config_path \<Rightarrow> element list" where
  "feed buf (Path k None) = add_path_text buf (quoted_key k) k"
| "feed buf (Path k (Some p)) = feed (add_path_text (add_path_text buf (quoted_key k) k) False ''.'') p"

lemma feed_eq:
  "feed (bs @ [empty_element]) p = bs @ map (\<lambda>k. \<lparr>element_text = k, can_be_empty = (k = [])\<rparr>) (path_keys p)"
proof (induction p arbitrary: bs rule: path_induct)
  case (single k)
  then show ?case
    using unquoted_key_plain [of k]
    by (cases "quoted_key k") (auto simp: add_path_text_quoted add_path_text_nodot empty_element_def)
next
  case (more k p)
  have "add_path_text (bs @ [empty_element]) (quoted_key k) k = bs @ [\<lparr>element_text = k, can_be_empty = (k = [])\<rparr>]"
    using unquoted_key_plain [of k]
    by (cases "quoted_key k") (auto simp: add_path_text_quoted add_path_text_nodot empty_element_def)
  with more [of "bs @ [\<lparr>element_text = k, can_be_empty = (k = [])\<rparr>]"] show ?case
    using add_path_text_dot [of "[]" _ "[]"] by simp
qed

definition start_ok :: "string \<Rightarrow> config_path \<Rightarrow> bool" where
  "start_ok u p \<longleftrightarrow>
     (if u = [] then quoted_key (first p) \<or> (\<forall>w \<in> literals. \<not> prefix w (first p)) else run_ok u)"

lemma reads_before_quote:
  assumes "reads lo s l" "s \<noteq> []" "hd s = CHR 0x22" "u = [] \<or> run_ok u"
  shows "\<exists>l'. reads lo (u @ s) l' \<and>
    (\<forall>buf. buf \<noteq> [] \<longrightarrow> path_tokens fp orig txt l' buf = path_tokens fp orig txt l (add_path_text buf False u))"
proof (cases "u = []")
  case True
  with assms(1) show ?thesis by auto
next
  case False
  have "ends_text s" using assms(2,3) by (simp add: ends_text_def not_in_unquoted_text_def)
  with reads_run [OF assms(1) this False, of fp orig "txt"] assms(4) False show ?thesis
    by (auto simp: run_ok_def)
qed

lemma reads_path:
  assumes "start_ok u p" "\<forall>k \<in> set (path_keys p). CHR 0xFF \<notin> set k"
  shows "\<exists>l. reads lo (u @ path_render p) l \<and>
    (\<forall>buf. buf \<noteq> [] \<longrightarrow> path_tokens fp orig txt l buf = Inr (feed (add_path_text buf False u) p))"
  using assms
proof (induction p arbitrary: u rule: path_induct)
  case (single k)
  show ?case
  proof (cases "quoted_key k")
    case True
    have q: "reads lo (render_json_string k) [new_string lo k, Token END]"
      using reads_quoted [OF reads_end [of "[]"], of k lo] single.prems(2) by simp
    have "u = [] \<or> run_ok u" using single.prems(1) by (auto simp: start_ok_def split: if_splits)
    from reads_before_quote [OF q _ _ this, of fp orig "txt"] True show ?thesis
      by (auto simp: render_key_eq render_json_string_def)
  next
    case False
    note k = unquoted_key_plain [OF False]
    have "u @ k \<noteq> []" "list_all plain_char (u @ k)" "hd (u @ k) \<notin> set first_number_chars" "\<forall>w \<in> literals. \<not> prefix w (u @ k)"
      using single.prems(1) False k run_ok_append [of u k]
      by (auto simp: start_ok_def run_ok_def split: if_splits)
    from reads_run [OF reads_end [of "[]"] _ this, of lo fp orig "txt"] False k(3) show ?thesis
      by (auto simp: render_key_eq ends_text_def add_path_text_append)
  qed
next
  case (more k p)
  show ?case
  proof (cases "quoted_key k")
    case True
    obtain l where l: "reads lo (CHR ''.'' # path_render p) l"
      "\<forall>buf. buf \<noteq> [] \<longrightarrow> path_tokens fp orig txt l buf = Inr (feed (add_path_text buf False ''.'') p)"
      using more.IH [of "''.''"] more.prems(2) run_ok_dot by (auto simp: start_ok_def)
    have q: "reads lo (render_json_string k @ CHR ''.'' # path_render p) (new_string lo k # l)"
      using reads_quoted [OF l(1), of k] more.prems(2) by simp
    have "u = [] \<or> run_ok u" using more.prems(1) by (auto simp: start_ok_def split: if_splits)
    from reads_before_quote [OF q _ _ this, of fp orig "txt"] True l(2) show ?thesis
      by (auto simp: render_key_eq render_json_string_def)
  next
    case False
    note k = unquoted_key_plain [OF False]
    have "run_ok (u @ k @ ''.'')"
    proof (cases "u = []")
      case True
      with more.prems(1) False run_ok_key [OF False] show ?thesis by (simp add: start_ok_def)
    next
      case ne: False
      have "list_all plain_char (k @ ''.'')" using k(2) by (simp add: plain_char_def)
      with more.prems(1) ne run_ok_append show ?thesis by (simp add: start_ok_def)
    qed
    then have "start_ok (u @ k @ ''.'') p" by (simp add: start_ok_def)
    from more.IH [OF this] more.prems(2) False show ?thesis
      by (auto simp: render_key_eq add_path_text_append)
  qed
qed

lemma render_no_newline: "CHR 0x0A \<notin> set (path_render p)"
proof -
  have json: "CHR 0x0A \<notin> set (render_json_char c)" for c
  proof -
    have "CHR 0x0A \<notin> set lower_hex" "length lower_hex = 16" by (simp_all add: lower_hex_def)
    moreover have "code c div 16 < 16" "code c mod 16 < 16"
      using nat_of_char_less_256 [of c] by (simp_all add: less_mult_imp_div_less)
    ultimately have "lower_hex ! (code c div 16) \<noteq> CHR 0x0A" "lower_hex ! (code c mod 16) \<noteq> CHR 0x0A"
      using nth_mem [of _ lower_hex] by metis+
    then show ?thesis by (auto simp: render_json_char_def hex4_def)
  qed
  have nl: "\<not> plain_char CHR 0x0A" by (simp add: plain_char_def ctype_defs)
  have "CHR 0x0A \<notin> set (render_key k)" for k
    using unquoted_key_plain(2) [of k] json nl
    by (auto simp: render_key_eq render_json_string_def list_all_iff)
  then show ?thesis by (induction p rule: path_induct) auto
qed



end
