(* ===== verification/Thread_Pool.thy ===== *)
theory Thread_Pool
  imports Prelude "HOL-Library.Multiset"
begin

section \<open>The thread pool (utils/include/thread_pool.hpp)\<close>

text \<open>
  The state the mutex guards (queue, limit, stop flag) and where each worker thread is.
  A step of the pool is one critical section, or a worker finishing its task; the steps
  of different threads interleave freely.  A history records what happened, so that the
  properties can speak of the tasks accepted, started and finished so far.
\<close>

datatype 'a worker = Waiting | Running 'a | Exited

record 'a thread_pool =
  queue_size :: int
  tasks :: "'a list"
  stop :: bool
  workers :: "'a worker list"

definition new_pool :: "nat \<Rightarrow> int \<Rightarrow> 'a thread_pool" where
  "new_pool threads q = \<lparr>queue_size = q, tasks = [], stop = False, workers = replicate threads Waiting\<rparr>"

definition set_queue_size :: "int \<Rightarrow> 'a thread_pool \<Rightarrow> 'a thread_pool" where
  "set_queue_size x p = p\<lparr>queue_size := x\<rparr>"

text \<open>The comparison of \<^verbatim>\<open>tasks.size()\<close> with the \<^verbatim>\<open>int\<close> limit converts the limit to 64 bits, unsigned.\<close>

definition size_t_of_int :: "int \<Rightarrow> int" where
  "size_t_of_int x = x mod 2 ^ 64"

definition enqueue :: "'a \<Rightarrow> 'a thread_pool \<Rightarrow> string + 'a thread_pool" where
  "enqueue t p =
     (if stop p then Inl ''enqueue on stopped ThreadPool''
      else if int (length (tasks p)) < size_t_of_int (queue_size p)
      then Inr (p\<lparr>tasks := tasks p @ [t]\<rparr>)
      else Inl ''task queue if full'')"

text \<open>
  The critical section of a worker: blocked (\<open>None\<close>) while there is nothing to do and the
  pool runs on; otherwise the worker leaves for good or takes the front task.
\<close>

definition worker_section :: "'a thread_pool \<Rightarrow> ('a thread_pool \<times> 'a worker) option" where
  "worker_section p =
     (if \<not> (stop p \<or> tasks p \<noteq> []) then None
      else if stop p \<and> tasks p = [] then Some (p, Exited)
      else Some (p\<lparr>tasks := tl (tasks p)\<rparr>, Running (hd (tasks p))))"

definition begin_destruction :: "'a thread_pool \<Rightarrow> 'a thread_pool" where
  "begin_destruction p = p\<lparr>stop := True\<rparr>"

text \<open>Joining the workers returns when every thread function has.\<close>

definition joined :: "'a thread_pool \<Rightarrow> bool" where
  "joined p \<longleftrightarrow> list_all (\<lambda>w. case w of Exited \<Rightarrow> True | _ \<Rightarrow> False) (workers p)"

subsection \<open>Steps\<close>

datatype 'a event =
    Enqueued 'a | Refused 'a string | Started nat 'a | Left nat | Finished nat 'a | Stopping | Resized int

inductive pool_step :: "'a thread_pool \<Rightarrow> 'a event \<Rightarrow> 'a thread_pool \<Rightarrow> bool" where
  accept: "enqueue t p = Inr p' \<Longrightarrow> pool_step p (Enqueued t) p'"
| refuse: "enqueue t p = Inl e \<Longrightarrow> pool_step p (Refused t e) p"
| start: "i < length (workers p) \<Longrightarrow> workers p ! i = Waiting \<Longrightarrow> worker_section p = Some (p', Running t) \<Longrightarrow>
    pool_step p (Started i t) (p'\<lparr>workers := (workers p)[i := Running t]\<rparr>)"
| leave: "i < length (workers p) \<Longrightarrow> workers p ! i = Waiting \<Longrightarrow> worker_section p = Some (p', Exited) \<Longrightarrow>
    pool_step p (Left i) (p'\<lparr>workers := (workers p)[i := Exited]\<rparr>)"
| finish: "i < length (workers p) \<Longrightarrow> workers p ! i = Running t \<Longrightarrow>
    pool_step p (Finished i t) (p\<lparr>workers := (workers p)[i := Waiting]\<rparr>)"
| stopping: "pool_step p Stopping (begin_destruction p)"
| resize: "pool_step p (Resized x) (set_queue_size x p)"

inductive_cases pool_stepE: "pool_step p e p'"

fun accepted :: "'a event list \<Rightarrow> 'a list" where
  "accepted [] = []"
| "accepted (Enqueued t # h) = t # accepted h"
| "accepted (_ # h) = accepted h"

fun started :: "'a event list \<Rightarrow> 'a list" where
  "started [] = []"
| "started (Started _ t # h) = t # started h"
| "started (_ # h) = started h"

fun finished :: "'a event list \<Rightarrow> 'a list" where
  "finished [] = []"
| "finished (Finished _ t # h) = t # finished h"
| "finished (_ # h) = finished h"

lemma accepted_append [simp]: "accepted (h @ h') = accepted h @ accepted h'"
  by (induction h rule: accepted.induct) auto

lemma started_append [simp]: "started (h @ h') = started h @ started h'"
  by (induction h rule: started.induct) auto

lemma finished_append [simp]: "finished (h @ h') = finished h @ finished h'"
  by (induction h rule: finished.induct) auto

text \<open>The tasks being run right now.\<close>

fun running_of :: "'a worker \<Rightarrow> 'a multiset" where
  "running_of (Running t) = {#t#}"
| "running_of _ = {#}"

definition running :: "'a thread_pool \<Rightarrow> 'a multiset" where
  "running p = sum_mset (image_mset running_of (mset (workers p)))"

lemma running_update:
  assumes "i < length (workers p)"
  shows "sum_mset (image_mset running_of (mset ((workers p)[i := w]))) + running_of (workers p ! i) =
         running p + running_of w"
proof -
  have "mset (workers p) = add_mset (workers p ! i) (mset (workers p) - {#workers p ! i#})"
    using assms by simp
  then have "running p = running_of (workers p ! i) +
      sum_mset (image_mset running_of (mset (workers p) - {#workers p ! i#}))"
    unfolding running_def by (metis image_mset_add_mset sum_mset.add_mset)
  then show ?thesis
    using assms by (simp add: mset_update)
qed

subsection \<open>The invariant\<close>

definition pool_inv :: "nat \<Rightarrow> 'a thread_pool \<times> 'a event list \<Rightarrow> bool" where
  "pool_inv n s \<longleftrightarrow>
     (let (p, h) = s
      in length (workers p) = n \<and>
         accepted h = started h @ tasks p \<and>
         mset (started h) = mset (finished h) + running p \<and>
         (Exited \<in> set (workers p) \<longrightarrow> stop p \<and> tasks p = []))"

lemma worker_section_Running:
  "worker_section p = Some (p', Running t) \<Longrightarrow> p' = p\<lparr>tasks := tl (tasks p)\<rparr> \<and> tasks p = t # tl (tasks p)"
  by (cases "tasks p") (auto simp: worker_section_def split: if_splits)

lemma worker_section_Exited:
  "worker_section p = Some (p', Exited) \<Longrightarrow> p' = p \<and> stop p \<and> tasks p = []"
  by (auto simp: worker_section_def split: if_splits)

lemma enqueue_Inr: "enqueue t p = Inr p' \<Longrightarrow> p' = p\<lparr>tasks := tasks p @ [t]\<rparr> \<and> \<not> stop p"
  by (auto simp: enqueue_def split: if_splits)

lemma Exited_update: "w \<noteq> Exited \<Longrightarrow> Exited \<in> set (ws[i := w]) \<Longrightarrow> Exited \<in> set ws"
  using set_update_subset_insert [of ws i w] by auto

lemma pool_step_inv:
  assumes inv: "pool_inv n (p, h)" and step: "pool_step p e p'"
  shows "pool_inv n (p', h @ [e])"
  using step
proof (cases rule: pool_step.cases)
  case (accept t)
  then show ?thesis using inv enqueue_Inr [of t p p'] by (auto simp: pool_inv_def running_def)
next
  case (start i p1 t)
  note w = worker_section_Running [OF start(5)]
  have "sum_mset (image_mset running_of (mset ((workers p)[i := Running t]))) = add_mset t (running p)"
    using running_update [of i p "Running t"] start by simp
  moreover have "Exited \<notin> set (workers p)" using inv w by (auto simp: pool_inv_def)
  then have "Exited \<notin> set ((workers p)[i := Running t])" using Exited_update by fastforce
  moreover have "accepted h = (started h @ [t]) @ tl (tasks p)" using inv w by (auto simp: pool_inv_def)
  ultimately show ?thesis
    using inv start(1,2) w by (simp add: pool_inv_def running_def)
next
  case (leave i p1)
  note w = worker_section_Exited [OF leave(5)]
  have "sum_mset (image_mset running_of (mset ((workers p)[i := Exited]))) = running p"
    using running_update [of i p Exited] leave by simp
  then show ?thesis
    using inv leave w by (auto simp: pool_inv_def running_def)
next
  case (finish i t)
  have "add_mset t (sum_mset (image_mset running_of (mset ((workers p)[i := Waiting])))) = running p"
    using running_update [of i p Waiting] finish by simp
  then show ?thesis
    using inv finish Exited_update [of Waiting "workers p" i] by (auto simp: pool_inv_def running_def)
qed (use inv in \<open>auto simp: pool_inv_def running_def begin_destruction_def set_queue_size_def\<close>)

definition pool_run :: "'a thread_pool \<times> 'a event list \<Rightarrow> 'a thread_pool \<times> 'a event list \<Rightarrow> bool" where
  "pool_run s s' \<longleftrightarrow> (\<exists>e. pool_step (fst s) e (fst s') \<and> snd s' = snd s @ [e])"

lemma new_pool_inv: "pool_inv n (new_pool n q, [])"
  by (induction n) (auto simp: pool_inv_def new_pool_def running_def)

interpretation pool: transition_system
  "\<lambda>s. \<exists>q. s = (new_pool n q, [])" pool_run "pool_inv n" for n
proof
  fix s t :: "'a thread_pool \<times> 'a event list"
  assume "pool_inv n s" "pool_run s t"
  then show "pool_inv n t"
    using pool_step_inv [of n "fst s" "snd s"] by (cases s; cases t) (auto simp: pool_run_def)
qed (auto simp: new_pool_inv)

text \<open>
  C7: the pool neither loses, duplicates nor reorders work.  In every reachable state the
  tasks accepted are those started, in the same order, followed by those still queued; and
  the tasks started are, counted with repetition, the finished ones and the running ones.
\<close>

theorem pool_fifo:
  "pool_run\<^sup>*\<^sup>* (new_pool n q, []) (p, h) \<Longrightarrow>
   accepted h = started h @ tasks p \<and> mset (started h) = mset (finished h) + running p"
  using pool.inv_reachable [where n = n and s = "(new_pool n q, [])" and t = "(p, h)"] by (auto simp: pool_inv_def)

text \<open>One thread: a task is accepted, started, the pool is stopped, the task ends, the thread leaves.\<close>

lemma sample_run:
  "pool_run\<^sup>*\<^sup>* (new_pool 1 2, [])
     (\<lparr>queue_size = 2, tasks = [], stop = True, workers = [Exited]\<rparr>,
      [Enqueued (5::nat), Started 0 5, Stopping, Finished 0 5, Left 0])"
proof -
  let ?p = "\<lambda>ts s w. \<lparr>queue_size = 2, tasks = ts, stop = s, workers = [w]\<rparr> :: nat thread_pool"
  have 1: "pool_step (new_pool 1 2) (Enqueued (5::nat)) (?p [5] False Waiting)"
    by (rule accept) (simp add: enqueue_def new_pool_def size_t_of_int_def)
  have 2: "pool_step (?p [5] False Waiting) (Started 0 5) (?p [] False (Running 5))"
    using start [of 0 "?p [5] False Waiting" "?p [] False Waiting" 5] by (simp add: worker_section_def)
  have 3: "pool_step (?p [] False (Running 5)) Stopping (?p [] True (Running 5))"
    using stopping [of "?p [] False (Running 5)"] by (simp add: begin_destruction_def)
  have 4: "pool_step (?p [] True (Running 5)) (Finished 0 5) (?p [] True Waiting)"
    using finish [of 0 "?p [] True (Running 5)" 5] by simp
  have 5: "pool_step (?p [] True Waiting) (Left 0) (?p [] True Exited)"
    using leave [of 0 "?p [] True Waiting" "?p [] True Waiting"] by (simp add: worker_section_def)
  have run: "pool_run\<^sup>*\<^sup>* s (p', h @ [e])" if "pool_step p e p'" "pool_run\<^sup>*\<^sup>* s (p, h)"
    for s and p p' :: "nat thread_pool" and e h
    using that(2) by (rule rtranclp.rtrancl_into_rtrancl) (use that(1) in \<open>simp add: pool_run_def\<close>)
  from run [OF 5 run [OF 4 run [OF 3 run [OF 2 run [OF 1 rtranclp.rtrancl_refl [where a = "(new_pool 1 2, [])"]]]]]] show ?thesis
    by simp
qed

theorem pool_fifo_witness:
  "accepted [Enqueued (5::nat), Started 0 5, Stopping, Finished 0 5, Left 0] = [5] \<and>
   mset (started [Enqueued (5::nat), Started 0 5, Stopping, Finished 0 5, Left 0]) = {#5#}"
  using pool_fifo [OF sample_run] by simp

text \<open>
  C8: when the destructor has joined its threads, every task ever accepted has run to its
  end and the queue is empty; the threads do not leave work behind.
\<close>

theorem pool_join_complete:
  "pool_run\<^sup>*\<^sup>* (new_pool n q, []) (p, h) \<Longrightarrow> 0 < n \<Longrightarrow> joined p \<Longrightarrow>
   tasks p = [] \<and> stop p \<and> running p = {#} \<and> mset (finished h) = mset (accepted h)"
proof -
  assume "pool_run\<^sup>*\<^sup>* (new_pool n q, []) (p, h)" and n: "0 < n" and j: "joined p"
  then have inv: "pool_inv n (p, h)" using pool.inv_reachable by blast
  have all: "\<forall>w \<in> set (workers p). w = Exited"
    using j unfolding joined_def list_all_iff by (metis worker.exhaust worker.simps(8,9))
  moreover have "workers p \<noteq> []" using inv n by (auto simp: pool_inv_def)
  ultimately have "Exited \<in> set (workers p)" by (cases "workers p") auto
  moreover have "running p = {#}"
    unfolding running_def using all by (auto simp: sum_mset_0_iff)
  ultimately show ?thesis using inv by (auto simp: pool_inv_def)
qed


theorem pool_join_complete_witness:
  "joined \<lparr>queue_size = 2, tasks = [], stop = True, workers = [Exited]\<rparr> \<and>
   mset (finished [Enqueued (5::nat), Started 0 5, Stopping, Finished 0 5, Left 0]) =
   mset (accepted [Enqueued (5::nat), Started 0 5, Stopping, Finished 0 5, Left 0])"
proof -
  have j: "joined \<lparr>queue_size = 2, tasks = [] :: nat list, stop = True, workers = [Exited]\<rparr>" by (simp add: joined_def)
  from pool_join_complete [OF sample_run _ j] show ?thesis by (simp add: joined_def)
qed

subsection \<open>The limit of the queue\<close>

definition limit_inv :: "int \<Rightarrow> 'a thread_pool \<times> 'a event list \<Rightarrow> bool" where
  "limit_inv q s \<longleftrightarrow>
     ((\<exists>x. Resized x \<in> set (snd s)) \<or>
      (queue_size (fst s) = q \<and> int (length (tasks (fst s))) \<le> size_t_of_int q))"

lemma limit_step: "limit_inv q (p, h) \<Longrightarrow> pool_step p e p' \<Longrightarrow> limit_inv q (p', h @ [e])"
  by (erule pool_stepE)
     (auto simp: limit_inv_def enqueue_def worker_section_def begin_destruction_def set_queue_size_def split: if_splits)

interpretation limit: transition_system
  "\<lambda>s. \<exists>n. s = (new_pool n q, [])" pool_run "limit_inv q" for q
proof
  fix s t :: "'a thread_pool \<times> 'a event list"
  assume "limit_inv q s" "pool_run s t"
  then show "limit_inv q t"
    using limit_step [of q "fst s" "snd s"] by (cases s; cases t) (auto simp: pool_run_def)
qed (auto simp: limit_inv_def new_pool_def size_t_of_int_def)

text \<open>
  C39: the queue never holds more tasks than its limit while the limit is left alone, for a
  limit that is not negative.  A negative limit is no limit: converted to an unsigned
  64-bit number it exceeds every queue, and nothing is refused for lack of room.
\<close>

theorem pool_queue_limit:
  "pool_run\<^sup>*\<^sup>* (new_pool n q, []) (p, h) \<Longrightarrow> (\<forall>x. Resized x \<notin> set h) \<Longrightarrow> - (2 ^ 31) \<le> q \<and> q < 2 ^ 31 \<Longrightarrow>
   (0 \<le> q \<longrightarrow> int (length (tasks p)) \<le> q) \<and>
   (q < 0 \<and> \<not> stop p \<and> length (tasks p) < 2 ^ 63 \<longrightarrow> enqueue t p = Inr (p\<lparr>tasks := tasks p @ [t]\<rparr>))"
proof -
  assume "pool_run\<^sup>*\<^sup>* (new_pool n q, []) (p, h)" and "\<forall>x. Resized x \<notin> set h" and q: "- (2 ^ 31) \<le> q \<and> q < 2 ^ 31"
  then have inv: "queue_size p = q" "int (length (tasks p)) \<le> size_t_of_int q"
    using limit.inv_reachable [where q = q and s = "(new_pool n q, [])" and t = "(p, h)"] by (auto simp: limit_inv_def)
  have neg: "q < 0 \<Longrightarrow> size_t_of_int q = q + 2 ^ 64" "0 \<le> q \<Longrightarrow> size_t_of_int q = q"
    using q mod_pos_pos_trivial [of "q + 2 ^ 64" "2 ^ 64"] by (auto simp: size_t_of_int_def)
  have big: "length (tasks p) < 2 ^ 63 \<Longrightarrow> int (length (tasks p)) < 2 ^ 63" by (metis of_nat_less_iff of_nat_numeral of_nat_power)
  show ?thesis
    using inv neg big q by (auto simp: enqueue_def)
qed

theorem pool_queue_limit_witness:
  "enqueue (5::nat) (new_pool 1 (-1)) = Inr ((new_pool 1 (-1))\<lparr>tasks := [5]\<rparr>)"
  using pool_queue_limit [where n = 1 and q = "-1" and p = "new_pool 1 (-1)" and h = "[]" and t = 5]
  by (simp add: new_pool_def)

subsection \<open>Destruction ends\<close>

definition worker_step :: "'a thread_pool \<Rightarrow> 'a thread_pool \<Rightarrow> bool" where
  "worker_step p p' \<longleftrightarrow>
     (\<exists>i t. pool_step p (Started i t) p') \<or> (\<exists>i. pool_step p (Left i) p') \<or> (\<exists>i t. pool_step p (Finished i t) p')"

fun worker_rank :: "'a worker \<Rightarrow> nat" where
  "worker_rank Exited = 0"
| "worker_rank Waiting = 1"
| "worker_rank (Running _) = 2"

definition pool_rank :: "'a thread_pool \<Rightarrow> nat" where
  "pool_rank p = 3 * length (tasks p) + sum_list (map worker_rank (workers p))"

lemma rank_update:
  "i < length ws \<Longrightarrow> sum_list (map worker_rank (ws[i := w])) + worker_rank (ws ! i) = sum_list (map worker_rank ws) + worker_rank w"
  by (induction ws arbitrary: i) (auto simp: nth_Cons split: nat.splits)

lemma worker_step_rank: "worker_step p p' \<Longrightarrow> pool_rank p' < pool_rank p \<and> (stop p \<longrightarrow> stop p')"
proof -
  assume "worker_step p p'"
  then obtain e where "pool_step p e p'" "(\<exists>i t. e = Started i t) \<or> (\<exists>i. e = Left i) \<or> (\<exists>i t. e = Finished i t)"
    by (auto simp: worker_step_def)
  then show ?thesis
  proof (cases rule: pool_step.cases)
    case (start i p1 t)
    with worker_section_Running [OF start(5)] rank_update [of i "workers p" "Running t"] show ?thesis
      by (cases "tasks p") (auto simp: pool_rank_def)
  next
    case (leave i p1)
    with worker_section_Exited [OF leave(5)] rank_update [of i "workers p" Exited] show ?thesis
      by (auto simp: pool_rank_def)
  next
    case (finish i t)
    with rank_update [of i "workers p" Waiting] show ?thesis by (auto simp: pool_rank_def)
  qed auto
qed

lemma worker_progress: "stop p \<Longrightarrow> \<not> joined p \<Longrightarrow> \<exists>p'. worker_step p p'"
proof -
  assume s: "stop p" and "\<not> joined p"
  then obtain i where i: "i < length (workers p)" "workers p ! i \<noteq> Exited"
    unfolding joined_def list_all_length by (metis worker.simps(10))
  show ?thesis
  proof (cases "workers p ! i")
    case (Running t)
    then show ?thesis using finish [OF i(1)] by (auto simp: worker_step_def)
  next
    case Waiting
    show ?thesis
    proof (cases "tasks p = []")
      case True
      with leave [OF i(1) Waiting] s show ?thesis unfolding worker_step_def worker_section_def by auto
    next
      case False
      with start [OF i(1) Waiting, of "p\<lparr>tasks := tl (tasks p)\<rparr>" "hd (tasks p)"] s show ?thesis
        unfolding worker_step_def worker_section_def by simp blast
    qed
  qed (use i in simp)
qed



end
