(* ===== verification/Json_Utils.thy ===== *)
theory Json_Utils
  imports Prelude
begin

section \<open>The JSON library as the services use it\<close>

text \<open>
  \<^verbatim>\<open>utils/src/json_utils.cpp\<close> over the jsoncpp library, which is not part of the
  repository: its values are a type variable and its operations a record that every
  client takes as an argument.  \<open>json_parse\<close> is \<^verbatim>\<open>Reader::parse\<close> (the flag and the
  root it leaves), an access that jsoncpp refuses (a member of a value that is no
  object, the text of an object) is an \<open>Inl\<close>.
\<close>

datatype app_error = JsonError string | NullString | NullService

record 'j json_lib =
  json_parse :: "string \<Rightarrow> bool \<times> 'j"
  json_errors :: "string \<Rightarrow> string"
  json_is_null :: "'j \<Rightarrow> bool"
  json_member :: "'j \<Rightarrow> string \<Rightarrow> app_error + 'j"
  json_element :: "'j \<Rightarrow> nat \<Rightarrow> app_error + 'j"
  json_size :: "'j \<Rightarrow> nat"
  json_as_string :: "'j \<Rightarrow> app_error + string"
  json_as_bool :: "'j \<Rightarrow> app_error + bool"
  json_fast_write :: "'j \<Rightarrow> string"
  json_styled_write :: "'j \<Rightarrow> string"

definition load_json :: "'j json_lib \<Rightarrow> string \<Rightarrow> string \<Rightarrow> bool \<times> 'j \<times> string" where
  "load_json lib raw msg =
     (let (ok, json) = json_parse lib raw
      in (ok, json, if ok then msg else json_errors lib raw))"

definition parse_to_string :: "'j json_lib \<Rightarrow> 'j \<Rightarrow> bool \<Rightarrow> string" where
  "parse_to_string lib root styled_writer =
     (if styled_writer then json_styled_write lib root else json_fast_write lib root)"

text \<open>The loop of \<^verbatim>\<open>extract_services\<close> over the elements \<open>i, i + 1, ...\<close>\<close>

fun service_names :: "'j json_lib \<Rightarrow> 'j \<Rightarrow> nat list \<Rightarrow> string set \<Rightarrow> app_error + string set" where
  "service_names lib service_list [] services = Inr services"
| "service_names lib service_list (i # is) services =
     and_then (json_element lib service_list i) (\<lambda>e.
     and_then (json_member lib e ''name'') (\<lambda>v.
     and_then (json_as_string lib v) (\<lambda>s.
       service_names lib service_list is (insert s services))))"

definition extract_services :: "'j json_lib \<Rightarrow> string \<Rightarrow> string set \<Rightarrow> app_error + bool \<times> string set" where
  "extract_services lib raw services =
     (let (ok, json) = json_parse lib raw
      in if \<not> ok then Inr (False, services)
         else and_then (json_member lib json ''services'') (\<lambda>service_list.
              and_then (service_names lib service_list [0 ..< json_size lib service_list] services) (\<lambda>ss.
                Inr (ok, ss))))"

subsection \<open>A concrete JSON value type\<close>

text \<open>
  An instance of the parameter, for evaluating the clients: JSON values as a datatype
  with jsoncpp's access rules (members of an object or of null, elements of an array or
  of null, text of scalars) and a table of parsed documents for the reader.
\<close>

datatype json = JNull | JBool bool | JString string | JArray "json list" | JObject "(string \<times> json) list"

fun sample_member :: "json \<Rightarrow> string \<Rightarrow> app_error + json" where
  "sample_member (JObject kvs) k = Inr (case map_of kvs k of None \<Rightarrow> JNull | Some v \<Rightarrow> v)"
| "sample_member JNull k = Inr JNull"
| "sample_member _ k = Inl (JsonError ''member'')"

fun sample_element :: "json \<Rightarrow> nat \<Rightarrow> app_error + json" where
  "sample_element (JArray js) i = Inr (if i < length js then js ! i else JNull)"
| "sample_element JNull i = Inr JNull"
| "sample_element _ i = Inl (JsonError ''element'')"

fun sample_size :: "json \<Rightarrow> nat" where
  "sample_size (JArray js) = length js"
| "sample_size (JObject kvs) = length kvs"
| "sample_size _ = 0"

fun sample_string :: "json \<Rightarrow> app_error + string" where
  "sample_string (JString s) = Inr s"
| "sample_string (JBool b) = Inr (if b then ''true'' else ''false'')"
| "sample_string JNull = Inr []"
| "sample_string _ = Inl (JsonError ''string'')"

fun sample_bool :: "json \<Rightarrow> app_error + bool" where
  "sample_bool (JBool b) = Inr b"
| "sample_bool JNull = Inr False"
| "sample_bool _ = Inl (JsonError ''bool'')"

definition sample_lib :: "(string \<times> json) list \<Rightarrow> json json_lib" where
  "sample_lib docs =
     \<lparr>json_parse = (\<lambda>s. case map_of docs s of None \<Rightarrow> (False, JNull) | Some j \<Rightarrow> (True, j)),
      json_errors = (\<lambda>s. ''syntax error''), json_is_null = (\<lambda>j. j = JNull),
      json_member = sample_member, json_element = sample_element, json_size = sample_size,
      json_as_string = sample_string, json_as_bool = sample_bool,
      json_fast_write = (\<lambda>j. []), json_styled_write = (\<lambda>j. [])\<rparr>"

end
