(* ===== verification/Url_Parser.thy ===== *)
theory Url_Parser
  imports String_Util
begin

section \<open>URLs (utils/src/url_parser.cpp)\<close>

text \<open>
  The parser walks a C string, so a NUL ends the text.  The record starts with the
  defaults of the constructor; the protocol and the port keep theirs when the text does
  not give them.
\<close>

record url =
  proto :: string
  host :: string
  port :: int
  uri :: string

definition url_defaults :: url where
  "url_defaults = \<lparr>proto = ''http'', host = [], port = 80, uri = ''/''\<rparr>"

definition pro_spl :: string where
  "pro_spl = '':/'' @ [CHR 0x5C]"

definition starts_nocase :: "string \<Rightarrow> string \<Rightarrow> bool" where
  "starts_nocase s p \<longleftrightarrow> map tolower (take (length p) s) = map tolower p"

definition find_protocol :: "string \<Rightarrow> string \<times> string" where
  "find_protocol s =
     (if starts_nocase s ''https'' then (''https'', drop 5 s)
      else if starts_nocase s ''http'' then (''http'', drop 4 s)
      else (proto url_defaults, s))"

text \<open>The port: every digit up to the next separator counts, other characters are skipped.\<close>

definition scan_port :: "string \<Rightarrow> int \<times> string" where
  "scan_port s =
     (case s of
        [] \<Rightarrow> (port url_defaults, s)
      | c # r \<Rightarrow>
          if c = CHR '':''
          then let seg = takeWhile (\<lambda>c. c \<notin> set pro_spl) r; str_port = filter is_digit seg
               in (if str_port \<noteq> [] then atoi str_port else port url_defaults, dropWhile (\<lambda>c. c \<notin> set pro_spl) r)
          else (port url_defaults, s))"

definition parse_url :: "string \<Rightarrow> url" where
  "parse_url u =
     (let clean_url = c_str (trim u);
          (pr, s1) = find_protocol clean_url;
          s2 = dropWhile (\<lambda>c. c \<in> set pro_spl) s1;
          h = takeWhile (\<lambda>c. c \<notin> set pro_spl) s2;
          s3 = dropWhile (\<lambda>c. c \<notin> set pro_spl) s2;
          (po, s4) = scan_port s3
      in \<lparr>proto = pr, host = trim h, port = po, uri = trim s4\<rparr>)"

subsection \<open>Properties\<close>

text \<open>A string that can be a host or the rest of the text: no NUL, nothing to trim.\<close>

definition clean_text :: "string \<Rightarrow> bool" where
  "clean_text s \<longleftrightarrow> list_all (\<lambda>c. code c \<noteq> 0) s \<and> (s = [] \<or> (\<not> is_space (hd s) \<and> \<not> is_space (last s)))"

definition host_ok :: "string \<Rightarrow> bool" where
  "host_ok h \<longleftrightarrow> h \<noteq> [] \<and> clean_text h \<and> set h \<inter> set pro_spl = {}"

definition uri_ok :: "string \<Rightarrow> bool" where
  "uri_ok u \<longleftrightarrow> clean_text u \<and> (u = [] \<or> hd u = CHR ''/'')"

lemma take_segment:
  assumes "set h \<inter> set pro_spl = {}" "s = [] \<or> hd s \<in> set pro_spl"
  shows "takeWhile (\<lambda>c. c \<notin> set pro_spl) (h @ s) = h" "dropWhile (\<lambda>c. c \<notin> set pro_spl) (h @ s) = s"
proof -
  have h: "\<And>c. c \<in> set h \<Longrightarrow> c \<notin> set pro_spl" using assms(1) by blast
  have "takeWhile (\<lambda>c. c \<notin> set pro_spl) s = []" "dropWhile (\<lambda>c. c \<notin> set pro_spl) s = s"
    using assms(2) by (cases s; simp)+
  then show "takeWhile (\<lambda>c. c \<notin> set pro_spl) (h @ s) = h" "dropWhile (\<lambda>c. c \<notin> set pro_spl) (h @ s) = s"
    using h by (simp_all add: takeWhile_append2 dropWhile_append2)
qed

lemma c_str_id: "list_all (\<lambda>c. code c \<noteq> 0) s \<Longrightarrow> c_str s = s"
  unfolding c_str_def list_all_iff by (rule takeWhile_eq_all_conv [THEN iffD2]) auto

lemma show_nat_no_sep: "set (show_nat n) \<inter> set pro_spl = {}"
proof -
  have "\<not> is_digit c" if "c \<in> set pro_spl" for c using that by (auto simp: pro_spl_def is_digit_def)
  then show ?thesis using show_nat_digits by blast
qed

lemma atoi_show_nat: "atoi (show_nat n) = int n"
proof -
  obtain c cs where sn: "show_nat n = c # cs" by (metis show_nat_not_Nil neq_Nil_conv)
  have d: "is_digit c" using show_nat_digits [of c n] sn by simp
  have nz: "list_all (\<lambda>c. code c \<noteq> 0) (show_nat n)"
    unfolding list_all_iff using show_nat_digits [of _ n] by (fastforce simp: is_digit_def)
  have "dropWhile is_space (c_str (show_nat n)) = show_nat n"
    unfolding c_str_id [OF nz] using d by (simp add: sn is_digit_not_space)
  moreover have "c \<noteq> CHR ''-''" "c \<noteq> CHR ''+''" using d by (auto simp: is_digit_def)
  ultimately show ?thesis
    using takeWhile_show_nat [of n] digits_val_show_nat [of n] by (simp add: atoi_def sn)
qed

lemma scan_port_given:
  assumes "u = [] \<or> hd u \<in> set pro_spl"
  shows "scan_port (CHR '':'' # show_nat n @ u) = (int n, u)"
proof -
  note take_segment [OF show_nat_no_sep [of n] assms]
  moreover have "filter is_digit (show_nat n) = show_nat n"
    using show_nat_digits by (simp add: filter_id_conv)
  ultimately show ?thesis by (simp add: scan_port_def atoi_show_nat)
qed

lemma scan_port_none: "uri_ok u \<Longrightarrow> scan_port u = (80, u)"
  by (cases u) (auto simp: scan_port_def uri_ok_def url_defaults_def)

lemma trim_clean: "clean_text s \<Longrightarrow> trim s = s"
  by (rule trim.trim_fixed) (auto simp: clean_text_def)


definition protocols :: "string list" where
  "protocols = [''http'', ''https'']"

lemma protocol_rest:
  assumes "p \<in> set protocols"
  shows "find_protocol (p @ ''://'' @ s) = (p, ''://'' @ s)"
  using assms by (auto simp: protocols_def find_protocol_def starts_nocase_def tolower_def is_upper_def)

lemma parse_url_shape:
  assumes "p \<in> set protocols" "host_ok h" "clean_text (p @ ''://'' @ h @ s)" "s = [] \<or> hd s \<in> set pro_spl"
  shows "parse_url (p @ ''://'' @ h @ s) =
    \<lparr>proto = p, host = h, port = fst (scan_port s), uri = trim (snd (scan_port s))\<rparr>"
proof -
  let ?u = "p @ ''://'' @ h @ s"
  have "c_str (trim ?u) = ?u" unfolding trim_clean [OF assms(3)] using assms(3) by (auto simp: clean_text_def c_str_id)
  moreover have "dropWhile (\<lambda>c. c \<in> set pro_spl) (''://'' @ h @ s) = h @ s"
    using assms(2) by (cases h) (auto simp: host_ok_def pro_spl_def)
  moreover have "trim h = h" using assms(2) by (simp add: host_ok_def trim_clean)
  ultimately show ?thesis
    using take_segment [of h s] assms(2,4) protocol_rest [OF assms(1), of "h @ s"]
    by (simp add: parse_url_def Let_def host_ok_def split_beta)
qed

lemma clean_text_append: "clean_text a \<Longrightarrow> clean_text b \<Longrightarrow> clean_text (a @ b)"
  by (auto simp: clean_text_def hd_append last_append)

lemma clean_text_parts: "p \<in> set protocols \<Longrightarrow> clean_text p" "clean_text ''://''" "clean_text '':''" "clean_text (show_nat n)"
proof -
  have d: "\<And>c. is_digit c \<Longrightarrow> code c \<noteq> 0 \<and> \<not> is_space c" by (auto simp: is_digit_def is_space_def)
  have "is_digit (hd (show_nat n))" "is_digit (last (show_nat n))" "\<forall>c \<in> set (show_nat n). is_digit c"
    using show_nat_digits [of _ n] by simp_all
  with d show "clean_text (show_nat n)" unfolding clean_text_def list_all_iff by blast
qed (auto simp: protocols_def clean_text_def is_space_def)

lemma uri_ok_sep: "uri_ok u \<Longrightarrow> u = [] \<or> hd u \<in> set pro_spl"
  by (auto simp: uri_ok_def pro_spl_def)



end
