(* ===== verification/App_Config.thy ===== *)
theory App_Config
  imports Json_Utils String_Util Url_Parser
begin

section \<open>Configuration of the proxy\<close>

text \<open>
  \<^verbatim>\<open>app/src/config.cpp\<close>.  The members of \<^verbatim>\<open>Config\<close> are the record \<open>config\<close>; a
  \<^verbatim>\<open>char *\<close> argument is a \<open>string option\<close> with \<open>None\<close> for the null pointer.  The
  file system is a function from names to contents, \<^verbatim>\<open>getopt_long_only\<close> a function from
  the argument vector to the sequence of option codes and arguments it returns before
  \<^verbatim>\<open>-1\<close>, the JSON library the record of \<open>Json_Utils\<close>.  Log output is left out.
\<close>

datatype opt_id =
    OPT_HELP | OPT_ASRAPI_SOURCE | OPT_APP_KEY | OPT_APP_SECRETKEY | OPT_ASR_SERVER
  | OPT_AUDIO_FORMAT | OPT_AUDIO_TYPE | OPT_CAPACITY_SCOPE | OPT_CONCURRENT_NUMBER
  | OPT_ENABLE_ASR_SERVICE | OPT_LOG_OFF_MS | OPT_SERVER_PORT

record config =
  asr_api_source :: string
  app_key :: string
  app_secret_key :: string
  asr_server :: string
  audio_format :: string
  audio_type :: int
  capacity_scope :: string
  concurrent_number :: int
  enable_asr_service :: bool
  log_off_ms :: int
  server_port :: int
  working_dir :: string

text \<open>The state before the constructor's body runs: the in-class initialisers.\<close>

definition blank_config :: config where
  "blank_config =
     \<lparr>asr_api_source = [], app_key = [], app_secret_key = [], asr_server = [], audio_format = [],
      audio_type = 1537, capacity_scope = [], concurrent_number = 2, enable_asr_service = True,
      log_off_ms = 2000, server_port = 8005, working_dir = []\<rparr>"

text \<open>\<^verbatim>\<open>s_options\<close>: name, description, default value of every option.\<close>

definition s_options :: "(string \<times> string \<times> string) list" where
  "s_options =
     [(''--api-belong-to'', ''the asr api of which company'', ''baidu''),
      (''--app-key'', ''the key of asr app'', ''kVcnfD9iW2XVZSMaLMrtLYIz''),
      (''--app-secret-key'', ''the secret key of asr app'', ''O9o1O213UgG5LFn0bDGNtoRN3VWl2du6''),
      (''--asr-server'', ''the url of asr server'', ''http://vop.baidu.com/server_api''),
      (''--audio-format'', ''the format of input audio data'', ''pcm''),
      (''--audio-type'', ''the type of input audio data'', ''1537''),
      (''--capacity-scope'', ''the flag of audio capacity, for bd asr api'', ''audio_voice_assistant_get''),
      (''--concurrent-number'', ''the concurrent number of calling asr service'', ''2''),
      (''--enable-asr-service'', ''enable asr service'', ''true''),
      (''--log-off-ms'', ''the waiting time of connection disconnected'', ''2000''),
      (''--server-port'', ''the server port'', ''8005'')]"

definition init_default :: "config \<Rightarrow> config" where
  "init_default c =
     c\<lparr>asr_api_source := ''baidu'',
       app_key := ''kVcnfD9iW2XVZSMaLMrtLYIz'',
       app_secret_key := ''O9o1O213UgG5LFn0bDGNtoRN3VWl2du6'',
       asr_server := ''http://vop.baidu.com/server_api'',
       audio_format := ''pcm'',
       audio_type := 1537,
       capacity_scope := ''audio_voice_assistant_get'',
       concurrent_number := 2,
       log_off_ms := 2000,
       server_port := 8005\<rparr>"

text \<open>\<^verbatim>\<open>get_command_line_help\<close>: one pass over the table builds both halves of the text.\<close>

fun help_loop :: "(string \<times> string \<times> string) list \<Rightarrow> string \<Rightarrow> string \<Rightarrow> string \<times> string" where
  "help_loop [] example help_string = (example, help_string)"
| "help_loop ((name, description, default_value) # entries) example help_string =
     help_loop entries
       (example @ name @ '' '' @ default_value @ '' '')
       (help_string @ [char_of (9::nat)] @ name @ '': '' @ description @ [char_of (10::nat)])"

definition get_command_line_help :: string where
  "get_command_line_help =
     (let nl = [char_of (10::nat)]; tab = [char_of (9::nat)];
          (example, help_string) =
            help_loop s_options (''example:'' @ nl @ tab @ ''facetracer '') (''command details:'' @ nl)
      in example @ nl @ nl @ help_string)"

subsection \<open>Getters and setters\<close>

definition get_app_key :: "config \<Rightarrow> string" where "get_app_key c = app_key c"
definition get_appsecret_key :: "config \<Rightarrow> string" where "get_appsecret_key c = app_secret_key c"
definition get_asrapi_source :: "config \<Rightarrow> string" where "get_asrapi_source c = asr_api_source c"
definition get_audio_format :: "config \<Rightarrow> string" where "get_audio_format c = audio_format c"
definition get_audio_type :: "config \<Rightarrow> int" where "get_audio_type c = audio_type c"
definition get_asr_server :: "config \<Rightarrow> string" where "get_asr_server c = asr_server c"
definition get_capacity_scope :: "config \<Rightarrow> string" where "get_capacity_scope c = capacity_scope c"
definition get_concurrent_number :: "config \<Rightarrow> int" where "get_concurrent_number c = concurrent_number c"
definition get_server_port :: "config \<Rightarrow> int" where "get_server_port c = server_port c"
definition get_logoff_ms :: "config \<Rightarrow> int" where "get_logoff_ms c = log_off_ms c"
definition is_enable_asr_service :: "config \<Rightarrow> bool" where "is_enable_asr_service c = enable_asr_service c"
definition get_working_dir :: "config \<Rightarrow> string" where "get_working_dir c = working_dir c"

lemmas config_getters =
  get_app_key_def get_appsecret_key_def get_asrapi_source_def get_audio_format_def
  get_audio_type_def get_asr_server_def get_capacity_scope_def get_concurrent_number_def
  get_server_port_def get_logoff_ms_def is_enable_asr_service_def get_working_dir_def

definition string_to_int :: "string \<Rightarrow> int" where
  "string_to_int input = atoi input"

definition set_enable_asr_service :: "bool \<Rightarrow> config \<Rightarrow> config" where
  "set_enable_asr_service b c = c\<lparr>enable_asr_service := b\<rparr>"

definition set_app_key :: "string \<Rightarrow> config \<Rightarrow> config" where
  "set_app_key a c = c\<lparr>app_key := c_str a\<rparr>"

definition set_appsecret_key :: "string \<Rightarrow> config \<Rightarrow> config" where
  "set_appsecret_key a c = c\<lparr>app_secret_key := c_str a\<rparr>"

definition set_asrapi_source :: "string \<Rightarrow> config \<Rightarrow> config" where
  "set_asrapi_source a c = c\<lparr>asr_api_source := c_str a\<rparr>"

definition set_asr_server :: "string \<Rightarrow> config \<Rightarrow> config" where
  "set_asr_server a c = c\<lparr>asr_server := c_str a\<rparr>"

definition set_audio_format :: "string \<Rightarrow> config \<Rightarrow> config" where
  "set_audio_format a c = c\<lparr>audio_format := c_str a\<rparr>"

definition set_audio_type :: "string \<Rightarrow> config \<Rightarrow> config" where
  "set_audio_type a c = c\<lparr>audio_type := string_to_int a\<rparr>"

definition set_capacity_scope :: "string \<Rightarrow> config \<Rightarrow> config" where
  "set_capacity_scope a c = c\<lparr>capacity_scope := c_str a\<rparr>"

definition set_concurrent_number :: "string \<Rightarrow> config \<Rightarrow> config" where
  "set_concurrent_number a c = c\<lparr>concurrent_number := string_to_int a\<rparr>"

definition set_logoff_ms :: "string \<Rightarrow> config \<Rightarrow> config" where
  "set_logoff_ms a c = c\<lparr>log_off_ms := string_to_int a\<rparr>"

definition set_server_port :: "string \<Rightarrow> config \<Rightarrow> config" where
  "set_server_port a c = c\<lparr>server_port := string_to_int a\<rparr>"

lemmas config_setters =
  set_enable_asr_service_def set_app_key_def set_appsecret_key_def set_asrapi_source_def
  set_asr_server_def set_audio_format_def set_audio_type_def set_capacity_scope_def
  set_concurrent_number_def set_logoff_ms_def set_server_port_def

subsection \<open>The configuration file\<close>

text \<open>
  \<^verbatim>\<open>read_file_content\<close>.  \<^verbatim>\<open>tellg\<close> is narrowed to an \<^verbatim>\<open>int\<close>; the buffer holds exactly the
  file's bytes and is then read as a C string, so \<open>beyond\<close> is the memory that follows it.
  The result is the return value and the string.
\<close>

definition read_file_content ::
  "(string \<Rightarrow> string option) \<Rightarrow> string \<Rightarrow> string \<Rightarrow> int \<times> string" where
  "read_file_content fs beyond file =
     (case fs file of
        None \<Rightarrow> (0, [])
      | Some bytes \<Rightarrow>
          let len = sint (word_of_int (int (length bytes)) :: 32 word)
          in if len \<le> 0 then (0, [])
             else if len > 2147483647 div 4 then (0, [])
             else (len, c_str (take (nat len) bytes @ beyond)))"

text \<open>One \<^verbatim>\<open>if (!v.isNull()) set_...(trim(v.asString()).c_str())\<close> of \<^verbatim>\<open>load_from_file\<close>.\<close>

definition file_string ::
  "'j json_lib \<Rightarrow> 'j \<Rightarrow> string \<Rightarrow> (string \<Rightarrow> config \<Rightarrow> config) \<Rightarrow> config \<Rightarrow> app_error + config" where
  "file_string lib conf key setter c =
     and_then (json_member lib conf key) (\<lambda>v.
       if json_is_null lib v then Inr c
       else and_then (json_as_string lib v) (\<lambda>s. Inr (setter (trim s) c)))"

definition file_bool ::
  "'j json_lib \<Rightarrow> 'j \<Rightarrow> string \<Rightarrow> (bool \<Rightarrow> config \<Rightarrow> config) \<Rightarrow> config \<Rightarrow> app_error + config" where
  "file_bool lib conf key setter c =
     and_then (json_member lib conf key) (\<lambda>v.
       if json_is_null lib v then Inr c
       else and_then (json_as_bool lib v) (\<lambda>b. Inr (setter b c)))"

definition load_conf :: "'j json_lib \<Rightarrow> 'j \<Rightarrow> config \<Rightarrow> app_error + config" where
  "load_conf lib conf c =
     and_then (file_bool lib conf ''enable_asr_service'' set_enable_asr_service c) (\<lambda>c.
     and_then (file_string lib conf ''asr_api_source'' set_asrapi_source c) (\<lambda>c.
     and_then (file_string lib conf ''app_key'' set_app_key c) (\<lambda>c.
     and_then (file_string lib conf ''app_secret_key'' set_appsecret_key c) (\<lambda>c.
     and_then (file_string lib conf ''asr_server'' set_asr_server c) (\<lambda>c.
     and_then (file_string lib conf ''audio_format'' set_audio_format c) (\<lambda>c.
     and_then (file_string lib conf ''audio_type'' set_audio_type c) (\<lambda>c.
     and_then (file_string lib conf ''capacity_scope'' set_capacity_scope c) (\<lambda>c.
     and_then (file_string lib conf ''concurrent_number'' set_concurrent_number c) (\<lambda>c.
     and_then (file_string lib conf ''log_off_ms'' set_logoff_ms c) (\<lambda>c.
       file_string lib conf ''server_port'' set_server_port c))))))))))"

definition load_from_file ::
  "'j json_lib \<Rightarrow> (string \<Rightarrow> string option) \<Rightarrow> string \<Rightarrow> string \<Rightarrow> config \<Rightarrow> app_error + config" where
  "load_from_file lib fs beyond file c =
     (let (len, content) = read_file_content fs beyond file
      in if len = 0 then Inr c
         else let (ok, json, msg) = load_json lib content []
              in if \<not> ok \<or> json_is_null lib json then Inr c
                 else and_then (json_member lib json ''configuration'') (\<lambda>conf.
                        if json_is_null lib conf then Inr c else load_conf lib conf c))"

text \<open>\<^verbatim>\<open>init_dir\<close>; \<open>cwd\<close> is the resolved working directory, \<open>None\<close> when \<^verbatim>\<open>getcwd\<close> fails.\<close>

definition init_dir :: "string option \<Rightarrow> config \<Rightarrow> config" where
  "init_dir cwd c = (case cwd of None \<Rightarrow> c | Some d \<Rightarrow> c\<lparr>working_dir := d\<rparr>)"

definition new_config ::
  "'j json_lib \<Rightarrow> (string \<Rightarrow> string option) \<Rightarrow> string \<Rightarrow> string option \<Rightarrow> app_error + config" where
  "new_config lib fs beyond cwd =
     load_from_file lib fs beyond ''./conf/default.json'' (init_default (init_dir cwd blank_config))"

subsection \<open>The command line\<close>

definition opt_blank :: "char \<Rightarrow> bool" where
  "opt_blank c \<longleftrightarrow> is_space c \<or> is_blank c \<or> c = CHR 0x22 \<or> c = CHR 0x27"

text \<open>
  The backward scan of \<^verbatim>\<open>clean_opt\<close>.  \<open>n\<close> is one more than the offset of \<^verbatim>\<open>end\<close>, so
  that the \<^verbatim>\<open>end = opt - 1\<close> of an empty argument is \<open>0\<close>.
\<close>

fun clean_end :: "string \<Rightarrow> nat \<Rightarrow> nat" where
  "clean_end opt n = (if n > 1 \<and> opt_blank (opt ! (n - 1)) then clean_end opt (n - 1) else n)"

declare clean_end.simps [simp del]

definition clean_arg :: "string \<Rightarrow> string" where
  "clean_arg s = (let opt = dropWhile opt_blank s in take (clean_end opt (length opt)) opt)"

definition clean_opt :: "string option \<Rightarrow> string option" where
  "clean_opt opt = (case opt of None \<Rightarrow> None | Some s \<Rightarrow> Some (clean_arg (c_str s)))"

text \<open>The codes of the enumeration; \<^verbatim>\<open>'h'\<close> is 104.\<close>

definition opt_codes :: "(int \<times> opt_id) list" where
  "opt_codes =
     [(0, OPT_HELP), (1, OPT_ASRAPI_SOURCE), (2, OPT_APP_KEY), (3, OPT_APP_SECRETKEY),
      (4, OPT_ASR_SERVER), (5, OPT_AUDIO_FORMAT), (6, OPT_AUDIO_TYPE), (7, OPT_CAPACITY_SCOPE),
      (8, OPT_CONCURRENT_NUMBER), (9, OPT_ENABLE_ASR_SERVICE), (10, OPT_LOG_OFF_MS),
      (11, OPT_SERVER_PORT)]"

definition is_help :: "int \<Rightarrow> bool" where
  "is_help opt \<longleftrightarrow> opt = 104 \<or> map_of opt_codes opt = Some OPT_HELP"

fun apply_option :: "opt_id \<Rightarrow> string \<Rightarrow> config \<Rightarrow> config" where
  "apply_option OPT_HELP a c = c"
| "apply_option OPT_ASRAPI_SOURCE a c = set_asrapi_source a c"
| "apply_option OPT_APP_KEY a c = set_app_key a c"
| "apply_option OPT_APP_SECRETKEY a c = set_appsecret_key a c"
| "apply_option OPT_ASR_SERVER a c = set_asr_server a c"
| "apply_option OPT_AUDIO_FORMAT a c = set_audio_format a c"
| "apply_option OPT_AUDIO_TYPE a c = set_audio_type a c"
| "apply_option OPT_CAPACITY_SCOPE a c = set_capacity_scope a c"
| "apply_option OPT_CONCURRENT_NUMBER a c = set_concurrent_number a c"
| "apply_option OPT_LOG_OFF_MS a c = set_logoff_ms a c"
| "apply_option OPT_SERVER_PORT a c = set_server_port a c"
| "apply_option OPT_ENABLE_ASR_SERVICE a c = set_enable_asr_service (to_bool a) c"

text \<open>
  The loop of \<^verbatim>\<open>load_command_line\<close> over what getopt returns: the return value and the
  configuration.  An option that needs an argument and gets the null pointer makes the
  setter read it.
\<close>

fun option_loop :: "(int \<times> string option) list \<Rightarrow> config \<Rightarrow> app_error + int \<times> config" where
  "option_loop [] c = Inr (0, c)"
| "option_loop ((opt, optarg) # opts) c =
     (let cleaned_optarg = clean_opt optarg
      in if is_help opt then Inr (1, c)
         else case map_of opt_codes opt of
                None \<Rightarrow> option_loop opts c
              | Some k \<Rightarrow>
                  (case cleaned_optarg of
                     None \<Rightarrow> Inl NullString
                   | Some a \<Rightarrow> option_loop opts (apply_option k a c)))"

definition load_command_line ::
  "(string list \<Rightarrow> (int \<times> string option) list) \<Rightarrow> string list \<Rightarrow> config \<Rightarrow> app_error + int \<times> config" where
  "load_command_line getopt argv c = option_loop (getopt argv) c"

subsection \<open>Checks and text\<close>

definition ensure_valid_string :: "string \<Rightarrow> string" where
  "ensure_valid_string input =
     map (\<lambda>c. if \<not> is_alnum c \<and> c \<notin> set ''_-'' then CHR ''_'' else c) (c_str input)"

definition parse_range :: "string \<Rightarrow> int \<Rightarrow> int \<Rightarrow> int \<times> int \<times> int" where
  "parse_range input low high =
     (let parts = split_vec (c_str input) (CHR '','')
      in if length parts \<noteq> 2 then (-1, low, high)
         else let slow = trim (parts ! 0); shigh = trim (parts ! 1)
              in (0, atoi slow, atoi shigh))"

definition config_to_string :: "config \<Rightarrow> string" where
  "config_to_string c =
     (let nl = [char_of (10::nat)]
      in ''app key:              '' @ get_app_key c @ nl
       @ ''app secret key:       '' @ get_appsecret_key c @ nl
       @ ''asr api source:       '' @ get_asrapi_source c @ nl
       @ ''audio format:         '' @ get_audio_format c @ nl
       @ ''audio type:           '' @ show_int (get_audio_type c) @ nl
       @ ''asr server:           '' @ get_asr_server c @ nl
       @ ''concurrent number:    '' @ show_int (get_concurrent_number c) @ nl
       @ ''server port:    '' @ show_int (get_server_port c) @ nl)"

definition check_server_uri :: "config \<Rightarrow> int" where
  "check_server_uri c =
     (if is_enable_asr_service c \<and> uri (parse_url (get_asr_server c)) = [] then -1 else 0)"

subsection \<open>Cleaning an argument strips both ends\<close>

lemma clean_end_strip:
  "n \<le> length s \<Longrightarrow> s = [] \<or> \<not> opt_blank (s ! 0) \<Longrightarrow>
   take (clean_end s n) s = rev (dropWhile opt_blank (rev (take n s)))"
proof (induction n)
  case 0
  then show ?case by (subst clean_end.simps) simp
next
  case (Suc n)
  then have last: "take (Suc n) s = take n s @ [s ! n]"
    by (simp add: take_Suc_conv_app_nth)
  show ?case
  proof (cases "opt_blank (s ! n) \<and> n > 0")
    case True
    then have "clean_end s (Suc n) = clean_end s n"
      by (subst clean_end.simps) simp
    with Suc True last show ?thesis by simp
  next
    case False
    then have "clean_end s (Suc n) = Suc n"
      by (subst clean_end.simps) auto
    moreover have "\<not> opt_blank (s ! n)"
      using False Suc.prems by (cases n) auto
    ultimately show ?thesis using last by simp
  qed
qed

lemma clean_arg_strip: "clean_arg s = strip opt_blank s"
proof -
  let ?d = "dropWhile opt_blank s"
  have "?d = [] \<or> \<not> opt_blank (?d ! 0)"
    by (cases "?d = []") (auto simp: hd_dropWhile simp flip: hd_conv_nth)
  then show ?thesis
    using clean_end_strip [of "length ?d" ?d] by (simp add: clean_arg_def strip_def Let_def)
qed

interpretation clean_arg: trimming clean_arg opt_blank
  by unfold_locales (rule clean_arg_strip)

subsection \<open>Where a setting comes from\<close>

text \<open>
  The abstract view: a configuration gives every option a setting, and an option's text
  denotes a setting.  \<open>file_setting\<close> is what the file says, \<open>last_option\<close> the last
  argument the command line gives before a help option, cleaned.
\<close>

datatype setting = Text string | Number int | Flag bool

fun setting_of :: "opt_id \<Rightarrow> config \<Rightarrow> setting" where
  "setting_of OPT_HELP c = Flag False"
| "setting_of OPT_ASRAPI_SOURCE c = Text (get_asrapi_source c)"
| "setting_of OPT_APP_KEY c = Text (get_app_key c)"
| "setting_of OPT_APP_SECRETKEY c = Text (get_appsecret_key c)"
| "setting_of OPT_ASR_SERVER c = Text (get_asr_server c)"
| "setting_of OPT_AUDIO_FORMAT c = Text (get_audio_format c)"
| "setting_of OPT_AUDIO_TYPE c = Number (get_audio_type c)"
| "setting_of OPT_CAPACITY_SCOPE c = Text (get_capacity_scope c)"
| "setting_of OPT_CONCURRENT_NUMBER c = Number (get_concurrent_number c)"
| "setting_of OPT_ENABLE_ASR_SERVICE c = Flag (is_enable_asr_service c)"
| "setting_of OPT_LOG_OFF_MS c = Number (get_logoff_ms c)"
| "setting_of OPT_SERVER_PORT c = Number (get_server_port c)"

definition numeric_options :: "opt_id list" where
  "numeric_options = [OPT_AUDIO_TYPE, OPT_CONCURRENT_NUMBER, OPT_LOG_OFF_MS, OPT_SERVER_PORT]"

definition option_setting :: "opt_id \<Rightarrow> string \<Rightarrow> setting" where
  "option_setting k a =
     (if k = OPT_HELP then Flag False
      else if k = OPT_ENABLE_ASR_SERVICE then Flag (to_bool a)
      else if k \<in> set numeric_options then Number (atoi a)
      else Text (c_str a))"

definition file_keys :: "(opt_id \<times> string) list" where
  "file_keys =
     [(OPT_ENABLE_ASR_SERVICE, ''enable_asr_service''), (OPT_ASRAPI_SOURCE, ''asr_api_source''),
      (OPT_APP_KEY, ''app_key''), (OPT_APP_SECRETKEY, ''app_secret_key''),
      (OPT_ASR_SERVER, ''asr_server''), (OPT_AUDIO_FORMAT, ''audio_format''),
      (OPT_AUDIO_TYPE, ''audio_type''), (OPT_CAPACITY_SCOPE, ''capacity_scope''),
      (OPT_CONCURRENT_NUMBER, ''concurrent_number''), (OPT_LOG_OFF_MS, ''log_off_ms''),
      (OPT_SERVER_PORT, ''server_port'')]"

definition file_setting :: "'j json_lib \<Rightarrow> 'j \<Rightarrow> opt_id \<Rightarrow> setting option" where
  "file_setting lib conf k =
     (case map_of file_keys k of
        None \<Rightarrow> None
      | Some key \<Rightarrow>
          (case json_member lib conf key of
             Inl _ \<Rightarrow> None
           | Inr v \<Rightarrow>
               if json_is_null lib v then None
               else if k = OPT_ENABLE_ASR_SERVICE
                    then (case json_as_bool lib v of Inl _ \<Rightarrow> None | Inr b \<Rightarrow> Some (Flag b))
                    else (case json_as_string lib v of Inl _ \<Rightarrow> None
                          | Inr s \<Rightarrow> Some (option_setting k (trim s)))))"

definition cleaned_option :: "int \<times> string option \<Rightarrow> (opt_id \<times> string) option" where
  "cleaned_option x =
     (case map_of opt_codes (fst x) of
        None \<Rightarrow> None
      | Some k \<Rightarrow> map_option (\<lambda>a. (k, strip opt_blank (c_str a))) (snd x))"

definition last_option :: "(int \<times> string option) list \<Rightarrow> opt_id \<Rightarrow> string option" where
  "last_option opts =
     map_of (rev (List.map_filter cleaned_option (takeWhile (\<lambda>x. \<not> is_help (fst x)) opts)))"

lemma apply_option_setting:
  "k \<noteq> OPT_HELP \<Longrightarrow>
   setting_of j (apply_option k a c) = (if j = k then option_setting k a else setting_of j c)"
  by (cases k; cases j)
     (simp_all add: config_setters config_getters option_setting_def numeric_options_def string_to_int_def)

lemma apply_option_working_dir [simp]: "working_dir (apply_option k a c) = working_dir c"
  by (cases k) (simp_all add: config_setters)

text \<open>\<open>load_conf\<close> as a pass over the table of keys.\<close>

definition load_field :: "'j json_lib \<Rightarrow> 'j \<Rightarrow> opt_id \<times> string \<Rightarrow> config \<Rightarrow> app_error + config" where
  "load_field lib conf f c =
     (if fst f = OPT_ENABLE_ASR_SERVICE then file_bool lib conf (snd f) set_enable_asr_service c
      else file_string lib conf (snd f) (apply_option (fst f)) c)"

fun load_fields :: "'j json_lib \<Rightarrow> 'j \<Rightarrow> (opt_id \<times> string) list \<Rightarrow> config \<Rightarrow> app_error + config" where
  "load_fields lib conf [] c = Inr c"
| "load_fields lib conf (f # fs) c = and_then (load_field lib conf f c) (\<lambda>c. load_fields lib conf fs c)"

lemma and_then_Inr_right [simp]: "and_then r Inr = r"
  by (cases r) auto

lemma load_conf_fields: "load_conf lib conf c = load_fields lib conf file_keys c"
  by (simp add: load_conf_def file_keys_def load_field_def file_string_def cong: and_then_cong if_cong)

lemma load_field_setting:
  assumes "load_field lib conf f c = Inr c'" "f \<in> set file_keys"
  shows "setting_of j c' =
           (if j = fst f then case_option (setting_of j c) id (file_setting lib conf j) else setting_of j c)
         \<and> working_dir c' = working_dir c"
proof -
  have keys: "map_of file_keys (fst f) = Some (snd f)" "fst f \<noteq> OPT_HELP"
    using assms(2) by (auto simp: file_keys_def)
  have flag: "setting_of j (set_enable_asr_service b c)
              = (if j = OPT_ENABLE_ASR_SERVICE then Flag b else setting_of j c)" for b
    by (cases j) (simp_all add: config_setters config_getters)
  have dir: "working_dir (set_enable_asr_service b c) = working_dir c" for b
    by (simp add: config_setters)
  obtain v where v: "json_member lib conf (snd f) = Inr v"
    using assms(1) by (auto simp: load_field_def file_bool_def file_string_def and_then_Inr_iff split: if_splits)
  consider "json_is_null lib v" "c' = c"
    | b where "\<not> json_is_null lib v" "fst f = OPT_ENABLE_ASR_SERVICE" "json_as_bool lib v = Inr b"
        "c' = set_enable_asr_service b c"
    | s where "\<not> json_is_null lib v" "fst f \<noteq> OPT_ENABLE_ASR_SERVICE" "json_as_string lib v = Inr s"
        "c' = apply_option (fst f) (trim s) c"
    using assms(1) v
    by (auto simp: load_field_def file_bool_def file_string_def and_then_Inr_iff split: if_splits)
  then show ?thesis
    using v keys by cases (simp_all only: flag dir file_setting_def, simp_all add: apply_option_setting)
qed

lemma load_fields_setting:
  "load_fields lib conf fs c = Inr c' \<Longrightarrow> set fs \<subseteq> set file_keys \<Longrightarrow> distinct (map fst fs) \<Longrightarrow>
   setting_of j c' =
     (if j \<in> fst ` set fs then case_option (setting_of j c) id (file_setting lib conf j) else setting_of j c)
   \<and> working_dir c' = working_dir c"
proof (induction fs arbitrary: c)
  case (Cons f fs)
  then obtain d where d: "load_field lib conf f c = Inr d" "load_fields lib conf fs d = Inr c'"
    by (auto simp: and_then_Inr_iff)
  have f: "f \<in> set file_keys" and fs: "j = fst f \<Longrightarrow> j \<notin> fst ` set fs"
    using Cons.prems by auto
  show ?case
    using load_field_setting [OF d(1) f, of j] Cons.IH [OF d(2)] Cons.prems fs
    by (cases "j = fst f") (simp_all split: option.splits)
qed simp

lemma load_conf_setting:
  assumes "load_conf lib conf c = Inr c'"
  shows "setting_of j c' = case_option (setting_of j c) id (file_setting lib conf j)
       \<and> working_dir c' = working_dir c"
proof -
  have "distinct (map fst file_keys)" by (simp add: file_keys_def)
  moreover have "j \<notin> fst ` set file_keys \<Longrightarrow> file_setting lib conf j = None"
    using map_of_eq_None_iff [of file_keys j] by (simp add: file_setting_def)
  ultimately show ?thesis
    using load_fields_setting [of lib conf file_keys c c' j] assms
    by (auto simp: load_conf_fields)
qed

lemma last_option_Cons:
  "\<not> is_help (fst x) \<Longrightarrow>
   last_option (x # opts) j =
     (case last_option opts j of
        Some a \<Rightarrow> Some a
      | None \<Rightarrow> (case cleaned_option x of None \<Rightarrow> None | Some (k, a) \<Rightarrow> if j = k then Some a else None))"
  by (auto simp: last_option_def List.map_filter_def map_add_def split: option.splits)

lemma option_loop_settings:
  "option_loop opts c = Inr (r, c') \<Longrightarrow>
   setting_of j c' = (case last_option opts j of None \<Rightarrow> setting_of j c | Some a \<Rightarrow> option_setting j a)
   \<and> r = (if \<exists>x\<in>set opts. is_help (fst x) then 1 else 0) \<and> working_dir c' = working_dir c"
proof (induction opts c rule: option_loop.induct)
  case (2 opt optarg opts c)
  show ?case
  proof (cases "is_help opt")
    case True
    with 2 show ?thesis by (auto simp: last_option_def List.map_filter_def)
  next
    case False
    then have no_help: "map_of opt_codes opt \<noteq> Some OPT_HELP" by (simp add: is_help_def)
    show ?thesis
    proof (cases "map_of opt_codes opt")
      case None
      with 2 False show ?thesis
        by (simp add: last_option_Cons cleaned_option_def split: option.splits)
    next
      case (Some k)
      with 2 False obtain s where s: "optarg = Some s"
        by (cases optarg) (auto simp: clean_opt_def)
      with 2 False Some no_help show ?thesis
        by (auto simp: last_option_Cons cleaned_option_def clean_opt_def clean_arg.trim_is_strip
              apply_option_setting split: option.splits)
    qed
  qed
qed (simp add: last_option_def List.map_filter_def)

text \<open>
  What the file contributes: the settings of its \<^verbatim>\<open>configuration\<close> object, none when the
  file cannot be read, is no JSON, or has no such object.
\<close>

definition file_settings ::
  "'j json_lib \<Rightarrow> (string \<Rightarrow> string option) \<Rightarrow> string \<Rightarrow> opt_id \<Rightarrow> setting option" where
  "file_settings lib fs beyond k =
     (let (len, content) = read_file_content fs beyond ''./conf/default.json'';
          (ok, json) = json_parse lib content
      in if len = 0 \<or> \<not> ok \<or> json_is_null lib json then None
         else case json_member lib json ''configuration'' of
                Inl _ \<Rightarrow> None
              | Inr conf \<Rightarrow> if json_is_null lib conf then None else file_setting lib conf k)"

definition default_setting :: "opt_id \<Rightarrow> setting" where
  "default_setting k = setting_of k (init_default blank_config)"

lemma new_config_setting:
  assumes "new_config lib fs beyond cwd = Inr c"
  shows "setting_of j c = case_option (default_setting j) id (file_settings lib fs beyond j)
       \<and> working_dir c = (case cwd of None \<Rightarrow> [] | Some d \<Rightarrow> d)"
proof -
  let ?c0 = "init_default (init_dir cwd blank_config)"
  have default: "setting_of j ?c0 = default_setting j"
    unfolding default_setting_def
    by (cases j; cases cwd) (simp_all add: init_default_def init_dir_def blank_config_def config_getters)
  have dir: "working_dir ?c0 = (case cwd of None \<Rightarrow> [] | Some d \<Rightarrow> d)"
    by (simp add: init_default_def init_dir_def blank_config_def split: option.split)
  obtain len content where rd: "read_file_content fs beyond ''./conf/default.json'' = (len, content)"
    by fastforce
  obtain ok json where pj: "json_parse lib content = (ok, json)"
    by fastforce
  note eqs = new_config_def load_from_file_def load_json_def file_settings_def rd pj Let_def split
  show ?thesis
  proof (cases "len = 0 \<or> \<not> ok \<or> json_is_null lib json")
    case True
    then have "c = ?c0" "file_settings lib fs beyond j = None"
      using assms unfolding eqs by (auto split: if_splits)
    with default dir show ?thesis by simp
  next
    case False
    with assms have "and_then (json_member lib json ''configuration'')
        (\<lambda>conf. if json_is_null lib conf then Inr ?c0 else load_conf lib conf ?c0) = Inr c"
      unfolding eqs by simp
    then obtain conf where conf: "json_member lib json ''configuration'' = Inr conf"
      "(if json_is_null lib conf then Inr ?c0 else load_conf lib conf ?c0) = Inr c"
      by (auto simp: and_then_Inr_iff)
    have "file_settings lib fs beyond j = (if json_is_null lib conf then None else file_setting lib conf j)"
      using False conf(1) unfolding eqs by simp
    with conf(2) default dir load_conf_setting [of lib conf ?c0 c j] show ?thesis
      by (cases "json_is_null lib conf") (auto split: option.split)
  qed
qed

text \<open>
  C16: the configuration the proxy runs with.  Every setting is the last argument the
  command line gives for it, stripped of blanks and quotes at both ends; without one it
  is the trimmed text of the configuration file; without that the built-in default.  The
  call returns 1 exactly when a help option occurs, and options after it are ignored.
\<close>

theorem config_precedence:
  assumes "new_config lib fs beyond cwd = Inr c0"
    and "load_command_line getopt argv c0 = Inr (ret, c)"
  shows "setting_of k c =
           (case last_option (getopt argv) k of
              Some a \<Rightarrow> option_setting k a
            | None \<Rightarrow> (case file_settings lib fs beyond k of
                         Some v \<Rightarrow> v
                       | None \<Rightarrow> default_setting k))
       \<and> ret = (if \<exists>x\<in>set (getopt argv). is_help (fst x) then 1 else 0)"
  using new_config_setting [OF assms(1), of k]
    option_loop_settings [OF assms(2) [unfolded load_command_line_def], of k]
  by (simp split: option.splits)

text \<open>A file that sets the port and the format, a command line that sets the port again.\<close>

definition sample_conf :: json where
  "sample_conf = JObject [(''configuration'',
     JObject [(''server_port'', JString '' 9000 ''), (''audio_format'', JString ''wav'')])]"

definition sample_fs :: "string \<Rightarrow> string option" where
  "sample_fs f = (if f = ''./conf/default.json'' then Some ''x'' else None)"

definition sample_getopt :: "string list \<Rightarrow> (int \<times> string option) list" where
  "sample_getopt argv = [(11, Some ''\"8080\"''), (63, None)]"

definition sample_config :: "app_error + config" where
  "sample_config = new_config (sample_lib [(''x'', sample_conf)]) sample_fs [CHR 0x00] None"

theorem config_precedence_witness:
  "sample_config = Inr (projr sample_config) \<and>
   load_command_line sample_getopt [] (projr sample_config)
     = Inr (0, (projr sample_config)\<lparr>server_port := 8080\<rparr>) \<and>
   setting_of OPT_SERVER_PORT ((projr sample_config)\<lparr>server_port := 8080\<rparr>) = Number 8080 \<and>
   setting_of OPT_AUDIO_FORMAT ((projr sample_config)\<lparr>server_port := 8080\<rparr>) = Text ''wav''"
proof -
  let ?lib = "sample_lib [(''x'', sample_conf)]"
  have "new_config ?lib sample_fs [CHR 0x00] None = Inr (projr sample_config)"
    by code_simp
  moreover have "load_command_line sample_getopt [] (projr sample_config)
      = Inr (0, (projr sample_config)\<lparr>server_port := 8080\<rparr>)"
    by code_simp
  moreover have "last_option (sample_getopt []) OPT_SERVER_PORT = Some ''8080''"
    "last_option (sample_getopt []) OPT_AUDIO_FORMAT = None"
    "file_settings ?lib sample_fs [CHR 0x00] OPT_AUDIO_FORMAT = Some (Text ''wav'')"
    "option_setting OPT_SERVER_PORT ''8080'' = Number 8080"
    by code_simp+
  ultimately show ?thesis
    using config_precedence [of ?lib sample_fs "[CHR 0x00]" None "projr sample_config" sample_getopt "[]" 0
        "(projr sample_config)\<lparr>server_port := 8080\<rparr>" OPT_SERVER_PORT]
      config_precedence [of ?lib sample_fs "[CHR 0x00]" None "projr sample_config" sample_getopt "[]" 0
        "(projr sample_config)\<lparr>server_port := 8080\<rparr>" OPT_AUDIO_FORMAT]
    by (simp add: sample_config_def)
qed

subsection \<open>Ranges\<close>

lemma split_vec_length: "length (split_vec s d) = Suc (count_list s d)"
proof (induction s d rule: split_vec.induct)
  case (1 s d)
  show ?case
  proof (cases "str_find d s")
    case None
    then show ?thesis
      using str_find_None_iff [of d s] by (subst split_vec.simps) (simp add: count_list_0_iff)
  next
    case (Some i)
    then have i: "i < length s" "s ! i = d" "d \<notin> set (take i s)"
      by (auto dest: str_find_SomeD)
    then have "count_list s d = Suc (count_list (drop (Suc i) s) d)"
      by (subst id_take_nth_drop [OF i(1)]) (simp add: count_list_0_iff)
    with Some 1 [OF Some] show ?thesis
      by (subst split_vec.simps) simp
  qed
qed

lemma atoi_show_int: "atoi (show_int n) = n"
proof (cases "n < 0")
  case True
  have "c_str (CHR ''-'' # show_nat m) = CHR ''-'' # show_nat m" for m
  proof -
    have "is_digit c \<Longrightarrow> code c \<noteq> 0" for c
      by (auto simp: is_digit_def)
    then have "list_all (\<lambda>c. code c \<noteq> 0) (show_nat m)"
      unfolding list_all_iff using show_nat_digits by blast
    then show ?thesis by (intro c_str_id) simp
  qed
  with True show ?thesis
    by (simp add: show_int_def atoi_def takeWhile_show_nat is_space_def)
next
  case False
  then show ?thesis by (simp add: show_int_def atoi_show_nat)
qed

lemma show_int_chars: "c \<in> set (show_int n) \<Longrightarrow> is_digit c \<or> c = CHR ''-''"
  using show_nat_digits by (auto simp: show_int_def split: if_splits)

lemma show_int_clean:
  "show_int n \<noteq> []" "CHR '','' \<notin> set (show_int n)" "trim (show_int n) = show_int n"
  "list_all (\<lambda>c. code c \<noteq> 0) (show_int n)"
proof -
  have d: "is_digit c \<or> c = CHR ''-'' \<Longrightarrow> \<not> is_space c \<and> c \<noteq> CHR '','' \<and> code c \<noteq> 0" for c
    by (auto simp: is_digit_def is_space_def)
  show ne: "show_int n \<noteq> []" by (simp add: show_int_def)
  have chars: "\<not> is_space c \<and> c \<noteq> CHR '','' \<and> code c \<noteq> 0" if "c \<in> set (show_int n)" for c
    using d [OF show_int_chars [OF that]] .
  show "CHR '','' \<notin> set (show_int n)" using chars [of "CHR '',''"] by auto
  show "list_all (\<lambda>c. code c \<noteq> 0) (show_int n)" unfolding list_all_iff using chars by auto
  have "\<not> is_space (hd (show_int n)) \<and> \<not> is_space (last (show_int n))"
    using chars [OF hd_in_set [OF ne]] chars [OF last_in_set [OF ne]] by simp
  then show "trim (show_int n) = show_int n" by (simp add: trim.trim_fixed)
qed

text \<open>
  \<^verbatim>\<open>parse_range\<close> succeeds exactly on inputs with one comma and leaves both outputs
  alone otherwise; written out, any two numbers are read back.
\<close>

theorem parse_range_spec:
  "(fst (parse_range input low high) = 0 \<longleftrightarrow> count_list (c_str input) (CHR '','') = 1)
 \<and> (fst (parse_range input low high) = 0 \<or> parse_range input low high = (-1, low, high))
 \<and> parse_range (show_int a @ '','' @ show_int b) low high = (0, a, b)"
proof (intro conjI)
  let ?s = "show_int a @ '','' @ show_int b"
  have "c_str ?s = ?s"
    using show_int_clean(4) by (intro c_str_id) simp
  moreover have "split_vec ?s (CHR '','') = [show_int a, show_int b]"
    using split_vec.split_Cons [OF show_int_clean(2) [of a], of "show_int b"]
      split_vec.split_singleton [OF show_int_clean(2) [of b]] by simp
  ultimately show "parse_range ?s low high = (0, a, b)"
    by (simp add: parse_range_def show_int_clean atoi_show_int)
qed (auto simp: parse_range_def Let_def split_vec_length)

end
