(* ===== verification/Asr_Service.thy ===== *)
theory Asr_Service
  imports App_Config
begin

section \<open>The speech recognition service and its token\<close>

text \<open>
  \<^verbatim>\<open>app/src/bd_asr_service.cpp\<close>, \<^verbatim>\<open>asr_service_factory.cpp\<close> and
  \<^verbatim>\<open>asr_proxy_impl.cpp\<close>.  libcurl is an argument: \<open>perform\<close> takes a request and gives
  whether the transfer succeeded and the chunks handed to the write callback, \<open>escape\<close> is
  \<^verbatim>\<open>curl_easy_escape\<close>.  The token thread is a step relation, because it runs beside the
  handlers; its critical sections and the one of \<^verbatim>\<open>call\<close> are under one mutex.
\<close>

datatype return_code =
    RETURN_OK | RETURN_ERROR | ERROR_TOKEN_CURL | ERROR_TOKEN_PARSE_ACCESS_TOKEN
  | ERROR_TOKEN_PARSE_SCOPE | ERROR_ASR_FILE_NOT_EXIST | ERROR_ASR_CURL

fun code_value :: "return_code \<Rightarrow> int" where
  "code_value RETURN_OK = 0"
| "code_value RETURN_ERROR = 1"
| "code_value ERROR_TOKEN_CURL = 13"
| "code_value ERROR_TOKEN_PARSE_ACCESS_TOKEN = 15"
| "code_value ERROR_TOKEN_PARSE_SCOPE = 16"
| "code_value ERROR_ASR_FILE_NOT_EXIST = 101"
| "code_value ERROR_ASR_CURL = 102"

subsection \<open>The write callback\<close>

text \<open>
  The block the callback grows: its allocated size, and the bytes in front of the
  terminating NUL, which is written at offset \<open>length (blk_text b)\<close>.  \<open>alloc\<close> says
  whether the allocation succeeds.
\<close>

record block =
  blk_size :: nat
  blk_text :: string

definition writefunc :: "bool \<Rightarrow> string \<Rightarrow> block option \<Rightarrow> nat \<times> block option" where
  "writefunc alloc data result =
     (if \<not> alloc then (1, None)
      else case result of
             None \<Rightarrow> (length data, Some \<lparr>blk_size = length data + 1, blk_text = data\<rparr>)
           | Some b \<Rightarrow>
               let old = c_str (blk_text b)
               in (length data, Some \<lparr>blk_size = length data + length old, blk_text = old @ data\<rparr>))"

text \<open>A transfer whose allocations succeed.\<close>

definition receive :: "string list \<Rightarrow> block option" where
  "receive chunks = fold (\<lambda>d r. snd (writefunc True d r)) chunks None"

definition response_text :: "block option \<Rightarrow> string option" where
  "response_text r = map_option (\<lambda>b. c_str (blk_text b)) r"

subsection \<open>Requests and answers\<close>

record request =
  req_url :: string
  req_headers :: "string list"
  req_body :: "string option"

type_synonym curl = "request \<Rightarrow> bool \<times> string list"

record bd_asr_service =
  asr_token :: string
  svc_conf :: config

text \<open>
  The two parsers of an answer.  \<open>None\<close> is the null pointer, from which no
  \<^verbatim>\<open>std::string\<close> can be made; the output parameters are threaded through.
\<close>

definition handle_asr_result ::
  "'j json_lib \<Rightarrow> string option \<Rightarrow> string \<Rightarrow> app_error + return_code \<times> string" where
  "handle_asr_result lib response asr_result =
     (case response of
        None \<Rightarrow> Inl NullString
      | Some raw \<Rightarrow>
          let (ok, root, msg) = load_json lib raw []
          in if \<not> ok then Inr (RETURN_ERROR, asr_result)
             else and_then (json_member lib root ''result'') (\<lambda>rs.
                  and_then (json_element lib rs 0) (\<lambda>r.
                  and_then (json_as_string lib r) (\<lambda>asr_result.
                    if asr_result = [] then Inr (RETURN_ERROR, asr_result)
                    else Inr (RETURN_OK, asr_result)))))"

definition handle_response ::
  "'j json_lib \<Rightarrow> string option \<Rightarrow> string \<Rightarrow> string \<Rightarrow> app_error + return_code \<times> string \<times> string" where
  "handle_response lib response token scopes =
     (case response of
        None \<Rightarrow> Inl NullString
      | Some raw \<Rightarrow>
          let (ok, root, msg) = load_json lib raw []
          in if \<not> ok then Inr (RETURN_ERROR, token, scopes)
             else and_then (json_member lib root ''access_token'') (\<lambda>t.
                  and_then (json_as_string lib t) (\<lambda>token.
                    if token = [] then Inr (ERROR_TOKEN_PARSE_ACCESS_TOKEN, token, scopes)
                    else and_then (json_member lib root ''scope'') (\<lambda>s.
                         and_then (json_as_string lib s) (\<lambda>scopes.
                           if scopes = [] then Inr (ERROR_TOKEN_PARSE_ACCESS_TOKEN, token, scopes)
                           else Inr (RETURN_OK, token, scopes))))))"

text \<open>\<^verbatim>\<open>snprintf\<close> into a buffer of \<open>n\<close> bytes keeps the first \<open>n - 1\<close> characters.\<close>

definition snprintf :: "nat \<Rightarrow> string \<Rightarrow> string" where
  "snprintf n s = take (n - 1) s"

definition call_url :: "config \<Rightarrow> string \<Rightarrow> string \<Rightarrow> string" where
  "call_url conf cuid token =
     snprintf 300 (c_str (get_asr_server conf) @ ''?cuid='' @ cuid @ ''&token='' @ c_str token
                   @ ''&dev_pid='' @ show_int (get_audio_type conf))"

definition call_header :: "config \<Rightarrow> string" where
  "call_header conf =
     snprintf 50 (''Content-Type: audio/'' @ c_str (get_audio_format conf) @ ''; rate='' @ show_int 16000)"

text \<open>
  \<^verbatim>\<open>call\<close>: the return value and the recognised text; \<open>asr_result\<close> is the text the
  caller passed in.
\<close>

definition call ::
  "'j json_lib \<Rightarrow> (string \<Rightarrow> string) \<Rightarrow> curl \<Rightarrow> bd_asr_service \<Rightarrow> string \<Rightarrow> string \<Rightarrow> app_error + int \<times> string" where
  "call lib escape perform svc audio_data asr_result =
     (let cuid = escape ''1234567C''
      in if asr_token svc = [] then Inr (-1, asr_result)
         else
           let url = call_url (svc_conf svc) cuid (asr_token svc);
               header = call_header (svc_conf svc);
               (ok, chunks) = perform \<lparr>req_url = url, req_headers = [header], req_body = Some audio_data\<rparr>
           in if \<not> ok then Inr (code_value ERROR_ASR_CURL, asr_result)
              else and_then (handle_asr_result lib (response_text (receive chunks)) asr_result) (\<lambda>(rc, text).
                     Inr (if rc = RETURN_OK then code_value RETURN_OK else code_value RETURN_ERROR, text)))"


subsection \<open>The token thread\<close>

definition api_token_url :: string where
  "api_token_url = ''http://openapi.baidu.com/oauth/2.0/token''"

definition token_url :: "config \<Rightarrow> string" where
  "token_url conf =
     snprintf 200 (api_token_url @ ''?grant_type=client_credentials&client_id='' @ c_str (get_app_key conf)
                   @ ''&client_secret='' @ c_str (get_appsecret_key conf))"

text \<open>One request of the loop: the return code and \<^verbatim>\<open>request_token\<close>.\<close>

definition request_token ::
  "'j json_lib \<Rightarrow> curl \<Rightarrow> config \<Rightarrow> app_error + return_code \<times> string" where
  "request_token lib perform conf =
     (let (ok, chunks) = perform \<lparr>req_url = token_url conf, req_headers = [], req_body = None\<rparr>
      in if \<not> ok then Inr (ERROR_TOKEN_CURL, [])
         else and_then (handle_response lib (response_text (receive chunks)) [] []) (\<lambda>(rc, token, scope).
                Inr (rc, token)))"

definition sleep_seconds :: nat where
  "sleep_seconds = 15 * 3600 * 24"

text \<open>
  Where the thread is: about to send a request, in the one-second pause after a failed
  one, or sleeping while a token is valid; \<open>Unstarted\<close> before it exists, \<open>Died\<close> when an
  exception left it.  Each step takes the network as it is then.
\<close>

datatype phase = Unstarted | Requesting | Pausing | Holding | Died

record token_state =
  service :: bd_asr_service
  thread_phase :: phase
  slept :: nat

inductive token_step ::
  "'j json_lib \<Rightarrow> curl \<Rightarrow> token_state \<Rightarrow> token_state \<Rightarrow> bool" for lib perform where
  got_token: "thread_phase s = Requesting \<Longrightarrow>
    request_token lib perform (svc_conf (service s)) = Inr (RETURN_OK, token) \<Longrightarrow>
    token_step lib perform s (s\<lparr>service := (service s)\<lparr>asr_token := token\<rparr>, thread_phase := Holding\<rparr>)"
| no_token: "thread_phase s = Requesting \<Longrightarrow>
    request_token lib perform (svc_conf (service s)) = Inr (rc, token) \<Longrightarrow> rc \<noteq> RETURN_OK \<Longrightarrow>
    token_step lib perform s (s\<lparr>thread_phase := Pausing\<rparr>)"
| raised: "thread_phase s = Requesting \<Longrightarrow>
    request_token lib perform (svc_conf (service s)) = Inl e \<Longrightarrow>
    token_step lib perform s (s\<lparr>thread_phase := Died\<rparr>)"
| paused: "thread_phase s = Pausing \<Longrightarrow>
    token_step lib perform s (s\<lparr>thread_phase := Requesting, slept := slept s + 1\<rparr>)"
| expired: "thread_phase s = Holding \<Longrightarrow>
    token_step lib perform s
      (s\<lparr>service := (service s)\<lparr>asr_token := []\<rparr>, thread_phase := Requesting,
         slept := slept s + sleep_seconds\<rparr>)"

inductive_cases token_stepE: "token_step lib perform s t"

text \<open>The same as a function, to run the thread against a sequence of network states.\<close>

definition token_next :: "'j json_lib \<Rightarrow> curl \<Rightarrow> token_state \<Rightarrow> token_state option" where
  "token_next lib perform s =
     (case thread_phase s of
        Requesting \<Rightarrow>
          Some (case request_token lib perform (svc_conf (service s)) of
                  Inl e \<Rightarrow> s\<lparr>thread_phase := Died\<rparr>
                | Inr (rc, token) \<Rightarrow>
                    if rc \<noteq> RETURN_OK then s\<lparr>thread_phase := Pausing\<rparr>
                    else s\<lparr>service := (service s)\<lparr>asr_token := token\<rparr>, thread_phase := Holding\<rparr>)
      | Pausing \<Rightarrow> Some (s\<lparr>thread_phase := Requesting, slept := slept s + 1\<rparr>)
      | Holding \<Rightarrow> Some (s\<lparr>service := (service s)\<lparr>asr_token := []\<rparr>, thread_phase := Requesting,
                           slept := slept s + sleep_seconds\<rparr>)
      | _ \<Rightarrow> None)"

fun token_run :: "'j json_lib \<Rightarrow> curl list \<Rightarrow> token_state \<Rightarrow> token_state option" where
  "token_run lib [] s = Some s"
| "token_run lib (p # ps) s = (case token_next lib p s of None \<Rightarrow> None | Some t \<Rightarrow> token_run lib ps t)"

text \<open>A new service, and \<^verbatim>\<open>init\<close>; \<open>spawn\<close> says whether the thread can be created.\<close>

definition new_service :: token_state where
  "new_service = \<lparr>service = \<lparr>asr_token = [], svc_conf = blank_config\<rparr>, thread_phase = Unstarted, slept = 0\<rparr>"

definition start_gettoken_thread :: "bool \<Rightarrow> token_state \<Rightarrow> bool \<times> token_state" where
  "start_gettoken_thread spawn s = (if spawn then (True, s\<lparr>thread_phase := Requesting\<rparr>) else (False, s))"

definition init :: "bool \<Rightarrow> config \<Rightarrow> token_state \<Rightarrow> bool \<times> token_state" where
  "init spawn conf s =
     (let s = s\<lparr>service := (service s)\<lparr>svc_conf := conf\<rparr>\<rparr>;
          (ret, s) = start_gettoken_thread spawn s
      in (True, s))"

subsection \<open>The remote procedure\<close>

record asr_response =
  resp_code :: int
  resp_msg :: string

definition asr ::
  "'j json_lib \<Rightarrow> (string \<Rightarrow> string) \<Rightarrow> curl \<Rightarrow> token_state option \<Rightarrow> string \<Rightarrow> app_error + asr_response" where
  "asr lib escape perform asr_service audio =
     (case asr_service of
        None \<Rightarrow> Inr \<lparr>resp_code = -1, resp_msg = ''asr service is nullptr!''\<rparr>
      | Some s \<Rightarrow>
          and_then (call lib escape perform (service s) audio []) (\<lambda>(ret, asr_result).
            Inr (if ret \<noteq> code_value RETURN_OK then \<lparr>resp_code = -1, resp_msg = ''asr call failed!''\<rparr>
                 else \<lparr>resp_code = 0, resp_msg = c_str asr_result\<rparr>)))"

subsection \<open>The factory\<close>

datatype asr_source_type = BAIDU_ASR | NONE

definition get_asr_sourcetype :: "string \<Rightarrow> asr_source_type" where
  "get_asr_sourcetype asr_source = (if asr_source = ''baidu'' then BAIDU_ASR else NONE)"

text \<open>The factory's member is the service it made last; it returns it for an unknown source.\<close>

definition get_asr_service :: "asr_source_type \<Rightarrow> token_state option \<Rightarrow> token_state option" where
  "get_asr_service t asr_service =
     (case t of BAIDU_ASR \<Rightarrow> Some new_service | NONE \<Rightarrow> asr_service)"

subsection \<open>What the callback collects\<close>

lemma c_str_append: "c_str (c_str a @ b) = c_str a @ c_str b"
  unfolding c_str_def by (induction a) auto

lemma receive_snoc:
  "response_text (receive (cs @ [c])) =
     Some ((case response_text (receive cs) of None \<Rightarrow> [] | Some s \<Rightarrow> s) @ c_str c)"
  by (cases "receive cs") (simp_all add: receive_def response_text_def writefunc_def Let_def c_str_append)

lemma receive_text:
  "response_text (receive cs) = (if cs = [] then None else Some (concat (map c_str cs)))"
proof (induction cs rule: rev_induct)
  case (snoc c cs)
  then show ?case by (simp add: receive_snoc)
qed (simp add: receive_def response_text_def)

lemma receive_bounds:
  "receive cs = Some b \<Longrightarrow> length (blk_text b) < blk_size b \<longleftrightarrow> length cs = 1"
proof (induction cs arbitrary: b rule: rev_induct)
  case (snoc c cs)
  then show ?case
    using receive_text [of cs]
    by (cases "receive cs")
       (auto simp: receive_def writefunc_def Let_def response_text_def split: if_splits)
qed (simp add: receive_def)

text \<open>
  what a transfer leaves for the parser.  No chunk leaves the null pointer, otherwise
  the text is the concatenation of the chunks, each up to its first NUL.  The
  terminating NUL lies inside the block only when there was a single chunk: from the
  second chunk on the block is allocated one byte short.
\<close>

theorem receive_spec:
  "response_text (receive chunks) = (if chunks = [] then None else Some (concat (map c_str chunks))) \<and>
   (case receive chunks of
      None \<Rightarrow> chunks = []
    | Some b \<Rightarrow> (length (blk_text b) < blk_size b \<longleftrightarrow> length chunks = 1))"
  using receive_text [of chunks] receive_bounds [of chunks]
  by (auto simp: response_text_def split: option.split if_splits)

subsection \<open>Answers\<close>

text \<open>
  The tokens an answer grants: a JSON document with a non-empty \<^verbatim>\<open>access_token\<close> and a
  non-empty \<^verbatim>\<open>scope\<close>.
\<close>

definition text_member :: "'j json_lib \<Rightarrow> 'j \<Rightarrow> string \<Rightarrow> app_error + string" where
  "text_member lib root key = and_then (json_member lib root key) (json_as_string lib)"

definition grants :: "'j json_lib \<Rightarrow> string option \<Rightarrow> string \<Rightarrow> bool" where
  "grants lib response token \<longleftrightarrow>
     (case response of
        None \<Rightarrow> False
      | Some raw \<Rightarrow>
          fst (json_parse lib raw) \<and> token \<noteq> [] \<and>
          text_member lib (snd (json_parse lib raw)) ''access_token'' = Inr token \<and>
          (case text_member lib (snd (json_parse lib raw)) ''scope'' of Inl _ \<Rightarrow> False | Inr s \<Rightarrow> s \<noteq> []))"

lemma handle_response_members:
  assumes "json_parse lib raw = (ok, root)"
  shows "handle_response lib (Some raw) t s =
    (if \<not> ok then Inr (RETURN_ERROR, t, s)
     else case text_member lib root ''access_token'' of
            Inl e \<Rightarrow> Inl e
          | Inr token \<Rightarrow>
              if token = [] then Inr (ERROR_TOKEN_PARSE_ACCESS_TOKEN, token, s)
              else case text_member lib root ''scope'' of
                     Inl e \<Rightarrow> Inl e
                   | Inr scopes \<Rightarrow>
                       Inr (if scopes = [] then ERROR_TOKEN_PARSE_ACCESS_TOKEN else RETURN_OK, token, scopes))"
  using assms
  by (cases "json_member lib root ''access_token''"; cases "json_member lib root ''scope''")
     (auto simp: handle_response_def load_json_def text_member_def split: sum.split)

lemma handle_response_OK:
  "(\<exists>s'. handle_response lib response t s = Inr (RETURN_OK, token, s')) \<longleftrightarrow> grants lib response token"
proof (cases response)
  case (Some raw)
  obtain ok root where "json_parse lib raw = (ok, root)" by fastforce
  with Some show ?thesis
    by (auto simp: handle_response_members grants_def split: sum.splits if_splits)
qed (simp add: handle_response_def grants_def)

lemma handle_response_codes:
  "handle_response lib response t s = Inr (rc, token, s') \<Longrightarrow>
   rc \<in> {RETURN_OK, RETURN_ERROR, ERROR_TOKEN_PARSE_ACCESS_TOKEN}"
proof (cases response)
  case (Some raw)
  obtain ok root where "json_parse lib raw = (ok, root)" by fastforce
  with Some show "handle_response lib response t s = Inr (rc, token, s') \<Longrightarrow> ?thesis"
    by (auto simp: handle_response_members split: sum.splits if_splits)
qed (simp add: handle_response_def)

definition token_request :: "config \<Rightarrow> request" where
  "token_request conf = \<lparr>req_url = token_url conf, req_headers = [], req_body = None\<rparr>"

lemma request_token_OK:
  "request_token lib perform conf = Inr (RETURN_OK, token) \<longleftrightarrow>
   (\<exists>chunks. perform (token_request conf) = (True, chunks) \<and>
      grants lib (response_text (receive chunks)) token)"
proof -
  obtain ok chunks where p: "perform (token_request conf) = (ok, chunks)" by fastforce
  then show ?thesis
    using handle_response_OK [of lib "response_text (receive chunks)" "[]" "[]" token]
    by (auto simp: request_token_def token_request_def and_then_Inr_iff)
qed

text \<open>
  asking for a token.  The request succeeds with a token exactly when the transfer
  succeeds and its text grants that token; every other answer that is read without an
  exception gives one of three error codes, never the one reserved for a missing scope.
\<close>

theorem request_token_spec:
  "(request_token lib perform conf = Inr (RETURN_OK, token) \<longleftrightarrow>
      (\<exists>chunks. perform (token_request conf) = (True, chunks) \<and> chunks \<noteq> [] \<and>
         grants lib (Some (concat (map c_str chunks))) token))
 \<and> (request_token lib perform conf = Inr (rc, t) \<longrightarrow>
      rc \<in> {RETURN_OK, RETURN_ERROR, ERROR_TOKEN_CURL, ERROR_TOKEN_PARSE_ACCESS_TOKEN})"
proof (intro conjI impI)
  have "\<not> grants lib None token" by (simp add: grants_def)
  then show "request_token lib perform conf = Inr (RETURN_OK, token) \<longleftrightarrow>
      (\<exists>chunks. perform (token_request conf) = (True, chunks) \<and> chunks \<noteq> [] \<and>
         grants lib (Some (concat (map c_str chunks))) token)"
    using receive_text by (auto simp: request_token_OK split: if_splits)
next
  assume "request_token lib perform conf = Inr (rc, t)"
  then show "rc \<in> {RETURN_OK, RETURN_ERROR, ERROR_TOKEN_CURL, ERROR_TOKEN_PARSE_ACCESS_TOKEN}"
    by (auto simp: request_token_def and_then_Inr_iff dest: handle_response_codes split: prod.splits if_splits)
qed

definition sample_answer :: json where
  "sample_answer = JObject [(''access_token'', JString ''24.a''), (''scope'', JString ''audio'')]"

definition answering :: curl where
  "answering r = (True, [''an'', ''swer''])"

theorem request_token_spec_witness:
  "request_token (sample_lib [(''answer'', sample_answer)]) answering blank_config = Inr (RETURN_OK, ''24.a'')
 \<and> RETURN_OK \<in> {RETURN_OK, RETURN_ERROR, ERROR_TOKEN_CURL, ERROR_TOKEN_PARSE_ACCESS_TOKEN}"
proof -
  have "grants (sample_lib [(''answer'', sample_answer)]) (Some ''answer'') ''24.a''"
    by code_simp
  moreover have "concat (map c_str [''an'', ''swer'']) = ''answer''"
    by code_simp
  ultimately show ?thesis
    using request_token_spec [of "sample_lib [(''answer'', sample_answer)]" answering blank_config "''24.a''"
        RETURN_OK "''24.a''"]
    by (simp add: answering_def)
qed

subsection \<open>The token thread and the handlers\<close>

lemma token_step_iff: "token_step lib perform s t \<longleftrightarrow> token_next lib perform s = Some t"
proof
  assume "token_step lib perform s t"
  then show "token_next lib perform s = Some t"
    by (cases rule: token_step.cases) (simp_all add: token_next_def)
next
  assume "token_next lib perform s = Some t"
  then show "token_step lib perform s t"
    using token_step.intros [of s lib perform]
    by (auto simp: token_next_def split: phase.splits sum.splits if_splits)
qed

definition token_inv :: "'j json_lib \<Rightarrow> config \<Rightarrow> token_state \<Rightarrow> bool" where
  "token_inv lib conf s \<longleftrightarrow>
     svc_conf (service s) = conf \<and>
     (if thread_phase s = Holding
      then asr_token (service s) \<noteq> [] \<and> (\<exists>response. grants lib response (asr_token (service s)))
      else asr_token (service s) = [])"

lemma granted_token:
  "request_token lib perform conf = Inr (RETURN_OK, token) \<Longrightarrow>
   token \<noteq> [] \<and> (\<exists>response. grants lib response token)"
  unfolding request_token_OK by (auto simp: grants_def split: option.splits)

definition token_trans :: "'j json_lib \<Rightarrow> token_state \<Rightarrow> token_state \<Rightarrow> bool" where
  "token_trans lib s t \<longleftrightarrow> (\<exists>perform. token_step lib perform s t)"

interpretation token: transition_system
  "\<lambda>s. s = snd (init spawn conf new_service)" "token_trans lib" "token_inv lib conf"
  for spawn conf lib
proof
  fix s assume "s = snd (init spawn conf new_service)"
  then show "token_inv lib conf s"
    by (simp add: init_def start_gettoken_thread_def new_service_def token_inv_def Let_def)
next
  fix s t assume s: "token_inv lib conf s" and "token_trans lib s t"
  then obtain perform where "token_step lib perform s t" by (auto simp: token_trans_def)
  then show "token_inv lib conf t"
    by (cases rule: token_step.cases) (use s granted_token in \<open>auto simp: token_inv_def split: if_splits\<close>)
qed

lemma call_no_token_iff:
  "call lib escape perform svc audio r = Inr (-1, r) \<longleftrightarrow> asr_token svc = []"
  by (auto simp: call_def Let_def and_then_Inr_iff split: prod.splits if_splits)

definition call_request :: "config \<Rightarrow> (string \<Rightarrow> string) \<Rightarrow> string \<Rightarrow> string \<Rightarrow> request" where
  "call_request conf escape token audio =
     \<lparr>req_url = call_url conf (escape ''1234567C'') token, req_headers = [call_header conf],
      req_body = Some audio\<rparr>"

text \<open>
  C15: the handlers and the token thread.  In every state the thread can reach after
  \<^verbatim>\<open>init\<close>, a call fails for want of a token exactly when the thread is not holding one,
  whatever the network does; while it holds one, the token is one that some answer
  granted, and two networks that agree on the request for this configuration, this
  token and this audio make the call end alike.
\<close>

theorem call_uses_granted_token:
  assumes "(token_trans lib)\<^sup>*\<^sup>* (snd (init spawn conf new_service)) s"
  shows "(call lib escape perform (service s) audio r = Inr (-1, r) \<longleftrightarrow> thread_phase s \<noteq> Holding)
    \<and> (thread_phase s = Holding \<longrightarrow>
         (\<exists>response. grants lib response (asr_token (service s))) \<and>
         (perform (call_request conf escape (asr_token (service s)) audio)
            = perform' (call_request conf escape (asr_token (service s)) audio) \<longrightarrow>
          call lib escape perform (service s) audio r = call lib escape perform' (service s) audio r))"
proof -
  have inv: "token_inv lib conf s"
    using token.inv_reachable [OF refl assms] .
  have "perform (call_request conf escape (asr_token (service s)) audio)
          = perform' (call_request conf escape (asr_token (service s)) audio) \<Longrightarrow>
        call lib escape perform (service s) audio r = call lib escape perform' (service s) audio r"
    using inv by (simp add: token_inv_def call_def call_request_def Let_def)
  then show ?thesis
    using inv by (auto simp: call_no_token_iff token_inv_def split: if_splits)
qed

lemma sample_hold:
  "(token_trans (sample_lib [(''answer'', sample_answer)]))\<^sup>*\<^sup>* (snd (init True blank_config new_service))
     (new_service\<lparr>service := \<lparr>asr_token = ''24.a'', svc_conf = blank_config\<rparr>, thread_phase := Holding\<rparr>)"
proof -
  let ?lib = "sample_lib [(''answer'', sample_answer)]"
  have "token_next ?lib answering (snd (init True blank_config new_service)) =
      Some (new_service\<lparr>service := \<lparr>asr_token = ''24.a'', svc_conf = blank_config\<rparr>, thread_phase := Holding\<rparr>)"
    by code_simp
  then show ?thesis
    by (intro r_into_rtranclp) (auto simp: token_trans_def token_step_iff)
qed

theorem call_uses_granted_token_witness:
  "call (sample_lib [(''answer'', sample_answer)]) id answering
     \<lparr>asr_token = ''24.a'', svc_conf = blank_config\<rparr> ''pcm'' [] \<noteq> Inr (-1, [])
   \<and> (\<exists>response. grants (sample_lib [(''answer'', sample_answer)]) response ''24.a'')"
  using call_uses_granted_token [OF sample_hold, of id answering "''pcm''" "[]" answering] by simp

subsection \<open>Retrying\<close>

text \<open>\<open>refused\<close>: a network on which the request fails without an exception.\<close>

definition refused :: "'j json_lib \<Rightarrow> config \<Rightarrow> curl \<Rightarrow> bool" where
  "refused lib conf perform \<longleftrightarrow>
     (case request_token lib perform conf of Inl _ \<Rightarrow> False | Inr (rc, _) \<Rightarrow> rc \<noteq> RETURN_OK)"

lemma token_run_append:
  "token_run lib (ps @ qs) s = (case token_run lib ps s of None \<Rightarrow> None | Some t \<Rightarrow> token_run lib qs t)"
  by (induction ps arbitrary: s) (auto split: option.split)

lemma token_run_refused:
  "refused lib (svc_conf (service s)) p \<Longrightarrow> thread_phase s = Requesting \<Longrightarrow>
   token_run lib [p, q] s = Some (s\<lparr>slept := slept s + 1\<rparr>)"
  by (auto simp: refused_def token_next_def split: sum.splits prod.splits)

lemma token_run_all_refused:
  "list_all (refused lib (svc_conf (service s))) ps \<Longrightarrow> thread_phase s = Requesting \<Longrightarrow>
   token_run lib (concat (map (\<lambda>p. [p, p]) ps)) s = Some (s\<lparr>slept := slept s + length ps\<rparr>)"
proof (induction ps arbitrary: s)
  case (Cons p ps)
  then have "token_run lib ([p, p] @ concat (map (\<lambda>p. [p, p]) ps)) s
           = token_run lib (concat (map (\<lambda>p. [p, p]) ps)) (s\<lparr>slept := slept s + 1\<rparr>)"
    unfolding token_run_append by (subst token_run_refused) auto
  with Cons show ?case by simp
qed simp

text \<open>
  C14: the retry loop.  However many requests are refused first, the thread pauses one
  second after each and keeps no token meanwhile; the first granted token is stored,
  it stays for fifteen days and is then dropped before the next request is made.
\<close>

theorem token_acquired:
  assumes "list_all (refused lib conf) ps"
    and "perform (token_request conf) = (True, chunks)"
    and "grants lib (response_text (receive chunks)) token"
  shows "\<exists>s t. token_run lib (concat (map (\<lambda>p. [p, p]) ps) @ [perform]) (snd (init True conf new_service)) = Some s
    \<and> thread_phase s = Holding \<and> asr_token (service s) = token \<and> slept s = length ps
    \<and> token_next lib perform' s = Some t
    \<and> thread_phase t = Requesting \<and> asr_token (service t) = [] \<and> slept t = length ps + 1296000"
proof -
  let ?s = "snd (init True conf new_service)"
  have s: "thread_phase ?s = Requesting" "svc_conf (service ?s) = conf" "slept ?s = 0"
    by (simp_all add: init_def start_gettoken_thread_def new_service_def)
  have "request_token lib perform conf = Inr (RETURN_OK, token)"
    unfolding request_token_OK using assms(2,3) by blast
  with s token_run_all_refused [of lib ?s ps] assms(1) show ?thesis
    by (simp add: token_run_append token_next_def sleep_seconds_def)
qed

definition failing :: curl where
  "failing r = (False, [])"

theorem token_acquired_witness:
  "\<exists>s. token_run (sample_lib [(''answer'', sample_answer)]) [failing, failing, answering]
         (snd (init True blank_config new_service)) = Some s
     \<and> asr_token (service s) = ''24.a'' \<and> slept s = 1"
proof -
  have "list_all (refused (sample_lib [(''answer'', sample_answer)]) blank_config) [failing]"
    by (simp add: refused_def request_token_def failing_def)
  moreover have "grants (sample_lib [(''answer'', sample_answer)])
      (response_text (receive [''an'', ''swer''])) ''24.a''"
    by code_simp
  moreover have "answering (token_request blank_config) = (True, [''an'', ''swer''])"
    by (simp add: answering_def)
  ultimately show ?thesis
    using token_acquired [of "sample_lib [(''answer'', sample_answer)]" blank_config "[failing]" answering
        "[''an'', ''swer'']" "''24.a''" failing]
    by auto
qed

subsection \<open>What a client is told\<close>

text \<open>The text an answer recognises: the first element of \<^verbatim>\<open>result\<close>.\<close>

definition recognises :: "'j json_lib \<Rightarrow> string option \<Rightarrow> string \<Rightarrow> bool" where
  "recognises lib response words \<longleftrightarrow>
     (case response of
        None \<Rightarrow> False
      | Some raw \<Rightarrow>
          fst (json_parse lib raw) \<and> words \<noteq> [] \<and>
          and_then (json_member lib (snd (json_parse lib raw)) ''result'') (\<lambda>rs.
            and_then (json_element lib rs 0) (json_as_string lib)) = Inr words)"

lemma handle_asr_result_OK:
  "handle_asr_result lib response r = Inr (RETURN_OK, words) \<longleftrightarrow> recognises lib response words"
  by (cases response)
     (auto simp: handle_asr_result_def recognises_def load_json_def and_then_Inr_iff
        split: prod.splits if_splits)

lemma call_OK:
  "call lib escape perform svc audio r = Inr (0, words) \<longleftrightarrow>
   asr_token svc \<noteq> [] \<and>
   (\<exists>chunks. perform (call_request (svc_conf svc) escape (asr_token svc) audio) = (True, chunks) \<and>
      recognises lib (response_text (receive chunks)) words)"
proof (cases "asr_token svc = []")
  case False
  obtain ok chunks where
    "perform (call_request (svc_conf svc) escape (asr_token svc) audio) = (ok, chunks)" by fastforce
  with False show ?thesis
    by (auto simp: call_def call_request_def Let_def and_then_Inr_iff handle_asr_result_OK
        split: if_splits)
qed (simp add: call_def Let_def)

text \<open>
  C18: what a client of the remote procedure is told.  Code 0 is sent exactly when there
  is a service with a token, the transfer of the audio succeeds and its answer
  recognises a text, and that text, up to its first NUL, is then the message; every other
  answer that is sent has code -1 and one of the two failure messages.
\<close>

theorem asr_answers:
  "(asr lib escape perform service_ptr audio = Inr \<lparr>resp_code = 0, resp_msg = m\<rparr> \<longleftrightarrow>
      (\<exists>s chunks words. service_ptr = Some s \<and> asr_token (service s) \<noteq> [] \<and>
         perform (call_request (svc_conf (service s)) escape (asr_token (service s)) audio) = (True, chunks) \<and>
         recognises lib (response_text (receive chunks)) words \<and> m = c_str words))
 \<and> (asr lib escape perform service_ptr audio = Inr resp \<longrightarrow> resp_code resp \<noteq> 0 \<longrightarrow>
      resp = \<lparr>resp_code = -1,
              resp_msg = if service_ptr = None then ''asr service is nullptr!'' else ''asr call failed!''\<rparr>)"
proof (intro conjI impI)
  show "asr lib escape perform service_ptr audio = Inr \<lparr>resp_code = 0, resp_msg = m\<rparr> \<longleftrightarrow>
      (\<exists>s chunks words. service_ptr = Some s \<and> asr_token (service s) \<noteq> [] \<and>
         perform (call_request (svc_conf (service s)) escape (asr_token (service s)) audio) = (True, chunks) \<and>
         recognises lib (response_text (receive chunks)) words \<and> m = c_str words)"
  proof (cases service_ptr)
    case (Some s)
    have "asr lib escape perform service_ptr audio = Inr \<lparr>resp_code = 0, resp_msg = m\<rparr> \<longleftrightarrow>
        (\<exists>words. call lib escape perform (service s) audio [] = Inr (0, words) \<and> m = c_str words)"
      using Some by (auto simp: asr_def and_then_Inr_iff split: if_splits)
    with Some show ?thesis by (auto simp: call_OK)
  qed (simp add: asr_def)
next
  assume "asr lib escape perform service_ptr audio = Inr resp" "resp_code resp \<noteq> 0"
  then show "resp = \<lparr>resp_code = -1,
      resp_msg = if service_ptr = None then ''asr service is nullptr!'' else ''asr call failed!''\<rparr>"
    by (auto simp: asr_def and_then_Inr_iff split: option.splits if_splits)
qed

definition sample_words :: json where
  "sample_words = JObject [(''result'', JArray [JString ''hello''])]"

definition holding :: token_state where
  "holding = new_service\<lparr>service := \<lparr>asr_token = ''24.a'', svc_conf = blank_config\<rparr>, thread_phase := Holding\<rparr>"

theorem asr_answers_witness:
  "asr (sample_lib [(''answer'', sample_words)]) id answering (Some holding) ''pcm''
     = Inr \<lparr>resp_code = 0, resp_msg = ''hello''\<rparr>
 \<and> asr (sample_lib []) id failing (Some holding) ''pcm''
     = Inr \<lparr>resp_code = -1, resp_msg = ''asr call failed!''\<rparr>"
proof
  have "recognises (sample_lib [(''answer'', sample_words)]) (response_text (receive [''an'', ''swer''])) ''hello''"
    "c_str ''hello'' = ''hello''" "asr_token (service holding) \<noteq> []"
    by code_simp+
  then show "asr (sample_lib [(''answer'', sample_words)]) id answering (Some holding) ''pcm''
     = Inr \<lparr>resp_code = 0, resp_msg = ''hello''\<rparr>"
    using asr_answers [of "sample_lib [(''answer'', sample_words)]" id answering "Some holding" "''pcm''" "''hello''"
        "\<lparr>resp_code = 0, resp_msg = ''hello''\<rparr>"]
    by (metis answering_def)
next
  have "\<exists>resp. asr (sample_lib []) id failing (Some holding) ''pcm'' = Inr resp \<and> resp_code resp \<noteq> 0"
    by (simp add: asr_def holding_def call_def Let_def failing_def)
  then show "asr (sample_lib []) id failing (Some holding) ''pcm''
     = Inr \<lparr>resp_code = -1, resp_msg = ''asr call failed!''\<rparr>"
    using asr_answers [of "sample_lib []" id failing "Some holding" "''pcm''" "[]"] by auto
qed

end
