(* ===== verification/Pipeline.thy ===== *)
theory Pipeline
  imports Asr_Service
begin

section \<open>The program\<close>

text \<open>
  \<^verbatim>\<open>app/src/pipeline.cpp\<close> and \<^verbatim>\<open>main.cpp\<close>.  The outside world is the trace of the calls
  the program makes to it; what those calls return (whether a thread can be created,
  what brpc answers) is the record \<open>outside\<close>.  \<^verbatim>\<open>run\<close> is a function of the number of
  rounds the serving loop may take, \<open>None\<close> when it has not returned by then.
\<close>

datatype effect =
    Print string | Mkdir string | Chdir string | LogInit | LogFini
  | IgnoreSigpipe | SetPriority int | AddService | StartServer int int | StopServer int | Sleep nat

record outside =
  spawns :: bool
  add_service :: int
  start_server :: int

record pipeline =
  pl_stop :: bool
  pl_conf :: config
  pl_factory :: "token_state option"
  pl_service :: "token_state option"
  pl_trace :: "effect list"

definition emit :: "effect list \<Rightarrow> pipeline \<Rightarrow> pipeline" where
  "emit es p = p\<lparr>pl_trace := pl_trace p @ es\<rparr>"

definition new_pipeline :: "config \<Rightarrow> pipeline" where
  "new_pipeline conf =
     \<lparr>pl_stop = False, pl_conf = conf, pl_factory = None, pl_service = None, pl_trace = []\<rparr>"

definition pipeline_get_asr_service :: "outside \<Rightarrow> pipeline \<Rightarrow> app_error + int \<times> pipeline" where
  "pipeline_get_asr_service w p =
     (let made = get_asr_service (get_asr_sourcetype (get_asrapi_source (pl_conf p))) (pl_factory p);
          p = p\<lparr>pl_factory := made, pl_service := made\<rparr>
      in case made of
           None \<Rightarrow> Inl NullService
         | Some s \<Rightarrow>
             let (ret, s) = init (spawns w) (pl_conf p) s;
                 p = p\<lparr>pl_factory := Some s, pl_service := Some s\<rparr>
             in if ret \<noteq> True then Inr (-1, p) else Inr (0, p))"

text \<open>
  \<^verbatim>\<open>print_help_or_version\<close> reads \<^verbatim>\<open>argv[1]\<close>; without one that is the null pointer which
  ends \<^verbatim>\<open>argv\<close>.
\<close>

definition print_help_or_version :: "string list \<Rightarrow> pipeline \<Rightarrow> app_error + pipeline" where
  "print_help_or_version argv p =
     (if length argv < 2 then Inl NullString
      else Inr (emit [Print (if take 5 (argv ! 1) = ''-help'' \<or> take 6 (argv ! 1) = ''--help''
                             then get_command_line_help else ''Unknown option!'')] p))"

definition start_brpc_server :: "outside \<Rightarrow> pipeline \<Rightarrow> int \<times> pipeline" where
  "start_brpc_server w p =
     (let p = emit [AddService] p
      in if add_service w \<noteq> 0 then (-1, p)
         else let p = emit [StartServer (get_server_port (pl_conf p)) (get_concurrent_number (pl_conf p))] p
              in if start_server w \<noteq> 0 then (-1, p) else (0, p))"

definition stop_brpc_server :: "int \<Rightarrow> pipeline \<Rightarrow> int \<times> pipeline" where
  "stop_brpc_server ms p = (if ms > 0 then (0, emit [StopServer ms] p) else (-1, p))"

text \<open>\<^verbatim>\<open>while (!_stop)\<close>, for at most the given number of rounds.\<close>

fun serve :: "nat \<Rightarrow> pipeline \<Rightarrow> pipeline option" where
  "serve rounds p =
     (if pl_stop p then Some p
      else case rounds of 0 \<Rightarrow> None | Suc n \<Rightarrow> serve n (emit [Sleep 10] p))"

definition finish :: "pipeline \<Rightarrow> int \<times> pipeline" where
  "finish p = (let (ret, p) = stop_brpc_server (get_logoff_ms (pl_conf p)) p in (0, emit [LogFini] p))"

text \<open>
  From the log directory to the serving loop.  The banner on the console (process id,
  arguments, times) is left out.
\<close>

definition run_server :: "outside \<Rightarrow> pipeline \<Rightarrow> app_error + (int option) \<times> pipeline" where
  "run_server w p =
     (let dir = get_working_dir (pl_conf p) @ ''/log'';
          p = emit [Mkdir (c_str dir), Chdir (c_str dir), LogInit, Chdir (c_str (get_working_dir (pl_conf p))),
                    IgnoreSigpipe, SetPriority (-8)] p
      in and_then (pipeline_get_asr_service w p) (\<lambda>(ret, p).
           if ret \<noteq> 0 then Inr (Some (-1), p)
           else Inr (None, snd (start_brpc_server w p))))"

definition run ::
  "nat \<Rightarrow> (string list \<Rightarrow> (int \<times> string option) list) \<Rightarrow> outside \<Rightarrow> string list \<Rightarrow> pipeline
     \<Rightarrow> app_error + (int \<times> pipeline) option" where
  "run rounds getopt w argv p =
     and_then (load_command_line getopt argv (pl_conf p)) (\<lambda>(ret, conf).
       let p = p\<lparr>pl_conf := conf\<rparr>
       in if ret = 1 then and_then (print_help_or_version argv p) (\<lambda>p. Inr (Some (1, p)))
          else if check_server_uri (pl_conf p) \<noteq> 0
               then Inr (Some (1, emit [Print ''server uri is not satisfiable, facetracer quit!''] p))
               else and_then (run_server w p) (\<lambda>(ret, p).
                      case ret of
                        Some r \<Rightarrow> Inr (Some (r, p))
                      | None \<Rightarrow> Inr (map_option finish (serve rounds p))))"

text \<open>\<^verbatim>\<open>main\<close>: construct the pipeline, whose member is the configuration, and run it.\<close>

definition main ::
  "nat \<Rightarrow> 'j json_lib \<Rightarrow> (string \<Rightarrow> string option) \<Rightarrow> string \<Rightarrow> string option \<Rightarrow>
   (string list \<Rightarrow> (int \<times> string option) list) \<Rightarrow> outside \<Rightarrow> string list
     \<Rightarrow> app_error + (int \<times> pipeline) option" where
  "main rounds lib fs beyond cwd getopt w argv =
     and_then (new_config lib fs beyond cwd) (\<lambda>conf. run rounds getopt w argv (new_pipeline conf))"

subsection \<open>What running the program does\<close>

lemma serve_never_returns: "\<not> pl_stop p \<Longrightarrow> serve rounds p = None"
  by (induction rounds arbitrary: p) (simp_all add: emit_def)

text \<open>The trace of a start-up that reaches the serving loop.\<close>

definition startup_trace :: "outside \<Rightarrow> config \<Rightarrow> effect list" where
  "startup_trace w c =
     [Mkdir (c_str (get_working_dir c @ ''/log'')), Chdir (c_str (get_working_dir c @ ''/log'')), LogInit,
      Chdir (c_str (get_working_dir c)), IgnoreSigpipe, SetPriority (-8), AddService]
     @ (if add_service w = 0 then [StartServer (get_server_port c) (get_concurrent_number c)] else [])"

lemma run_server_new:
  "run_server w (new_pipeline c) =
     (if get_asrapi_source c \<noteq> ''baidu'' then Inl NullService
      else Inr (None, (new_pipeline c)\<lparr>pl_factory := Some (snd (init (spawns w) c new_service)),
             pl_service := Some (snd (init (spawns w) c new_service)), pl_trace := startup_trace w c\<rparr>))"
  by (simp add: run_server_def pipeline_get_asr_service_def get_asr_service_def get_asr_sourcetype_def
      new_pipeline_def emit_def start_brpc_server_def startup_trace_def init_def Let_def split_beta)


definition default_config :: config where
  "default_config = init_default blank_config"

definition quiet :: outside where
  "quiet = \<lparr>spawns = True, add_service = 0, start_server = 0\<rparr>"

end
