(* ===== verification/Config_Object.thy ===== *)
theory Config_Object
  imports Config_Value
begin

section \<open>Objects, lists and merging (config/src/detail: simple_config_object.cpp and others)\<close>

text \<open>
  The containers of the configuration library and how one value falls back to another.
  The members of an object are an association list with distinct keys in the order of
  insertion; the order in which an \<^verbatim>\<open>unordered_map\<close> iterates is not specified, and no
  theorem depends on it.  Values are immutable.  Where the source compares pointers to see
  whether a call returned its receiver, the model's call returns \<open>None\<close> for
  \<^verbatim>\<open>shared_from_this()\<close>.  Texts of exceptions are kept up to the rendered value some of
  them append.
\<close>

subsection \<open>Kinds of values\<close>

fun is_object :: "config_value \<Rightarrow> bool" where
  "is_object (SimpleConfigObject _ _ _ _) = True"
| "is_object (ConfigDelayedMergeObject _ _) = True"
| "is_object _ = False"

fun is_simple_object :: "config_value \<Rightarrow> bool" where
  "is_simple_object (SimpleConfigObject _ _ _ _) = True"
| "is_simple_object _ = False"

fun is_list :: "config_value \<Rightarrow> bool" where
  "is_list (SimpleConfigList _ _ _) = True"
| "is_list _ = False"

fun is_concatenation :: "config_value \<Rightarrow> bool" where
  "is_concatenation (ConfigConcatenation _ _) = True"
| "is_concatenation _ = False"

fun is_delayed_merge :: "config_value \<Rightarrow> bool" where
  "is_delayed_merge (ConfigDelayedMerge _ _) = True"
| "is_delayed_merge (ConfigDelayedMergeObject _ _) = True"
| "is_delayed_merge _ = False"

text \<open>The classes derived from \<^verbatim>\<open>Unmergeable\<close> and what they contribute to a merge stack.\<close>

fun is_unmergeable :: "config_value \<Rightarrow> bool" where
  "is_unmergeable (ConfigReference _ _ _) = True"
| "is_unmergeable (ConfigConcatenation _ _) = True"
| "is_unmergeable (ConfigDelayedMerge _ _) = True"
| "is_unmergeable (ConfigDelayedMergeObject _ _) = True"
| "is_unmergeable _ = False"

fun unmerged_values :: "config_value \<Rightarrow> config_value list" where
  "unmerged_values (ConfigDelayedMerge _ stack) = stack"
| "unmerged_values (ConfigDelayedMergeObject _ stack) = stack"
| "unmerged_values v = [v]"

subsection \<open>Resolve status\<close>

fun value_status :: "config_value \<Rightarrow> resolve_status" where
  "value_status (SimpleConfigList _ _ st) = st"
| "value_status (SimpleConfigObject _ _ st _) = st"
| "value_status (ConfigReference _ _ _) = UNRESOLVED"
| "value_status (ConfigConcatenation _ _) = UNRESOLVED"
| "value_status (ConfigDelayedMerge _ _) = UNRESOLVED"
| "value_status (ConfigDelayedMergeObject _ _) = UNRESOLVED"
| "value_status _ = RESOLVED"

fun from_values :: "config_value list \<Rightarrow> resolve_status" where
  "from_values [] = RESOLVED"
| "from_values (v # vs) = (if value_status v = UNRESOLVED then UNRESOLVED else from_values vs)"

definition from_bool :: "bool \<Rightarrow> resolve_status" where
  "from_bool resolved = (if resolved then RESOLVED else UNRESOLVED)"

lemma status_cases [simp]: "st \<noteq> UNRESOLVED \<longleftrightarrow> st = RESOLVED" "st \<noteq> RESOLVED \<longleftrightarrow> st = UNRESOLVED"
  by (cases st; simp)+

lemma from_values_iff: "from_values vs = UNRESOLVED \<longleftrightarrow> (\<exists>v \<in> set vs. value_status v = UNRESOLVED)"
  by (induction vs) auto

lemma from_values_eqI:
  "(\<exists>v \<in> set vs. value_status v = UNRESOLVED) \<longleftrightarrow> (\<exists>v \<in> set ws. value_status v = UNRESOLVED) \<Longrightarrow>
   from_values vs = from_values ws"
  using from_values_iff [of vs] from_values_iff [of ws]
  by (cases "from_values vs"; cases "from_values ws") simp_all

text \<open>A merge stack answers for its last element; an object has a flag of its own.\<close>

fun ignores_fallbacks :: "config_value \<Rightarrow> bool" and stack_ignores_fallbacks :: "config_value list \<Rightarrow> bool" where
  "ignores_fallbacks (SimpleConfigObject _ _ _ ig) = ig"
| "ignores_fallbacks (ConfigReference _ _ _) = False"
| "ignores_fallbacks (ConfigConcatenation _ _) = False"
| "ignores_fallbacks (ConfigDelayedMerge _ stack) = stack_ignores_fallbacks stack"
| "ignores_fallbacks (ConfigDelayedMergeObject _ stack) = stack_ignores_fallbacks stack"
| "ignores_fallbacks (SimpleConfigList _ _ st) = (st = RESOLVED)"
| "ignores_fallbacks _ = True"
| "stack_ignores_fallbacks [] = False"
| "stack_ignores_fallbacks [v] = ignores_fallbacks v"
| "stack_ignores_fallbacks (v # w # vs) = stack_ignores_fallbacks (w # vs)"

subsection \<open>Constructors\<close>

definition make_object ::
  "config_origin \<Rightarrow> (string \<times> config_value) list \<Rightarrow> resolve_status \<Rightarrow> bool \<Rightarrow> config_exception + config_value" where
  "make_object orig ms status ig =
     (if status \<noteq> from_values (map snd ms)
      then Inl (ConfigExceptionBugOrBroken ''SimpleConfigObject created with wrong resolve status'')
      else Inr (SimpleConfigObject orig ms status ig))"

definition new_object :: "config_origin \<Rightarrow> (string \<times> config_value) list \<Rightarrow> config_exception + config_value" where
  "new_object orig ms = make_object orig ms (from_values (map snd ms)) False"

definition make_list ::
  "config_origin \<Rightarrow> config_value list \<Rightarrow> resolve_status \<Rightarrow> config_exception + config_value" where
  "make_list orig vs status =
     (if status \<noteq> from_values vs
      then Inl (ConfigExceptionBugOrBroken ''SimpleConfigList created with wrong resolve status'')
      else Inr (SimpleConfigList orig vs status))"

definition new_list :: "config_origin \<Rightarrow> config_value list \<Rightarrow> config_exception + config_value" where
  "new_list orig vs = make_list orig vs (from_values vs)"

definition make_delayed_merge :: "config_origin \<Rightarrow> config_value list \<Rightarrow> config_exception + config_value" where
  "make_delayed_merge orig stack =
     (if stack = [] then Inl (ConfigExceptionBugOrBroken ''creating empty delayed merge value'')
      else if list_ex is_delayed_merge stack
      then Inl (ConfigExceptionBugOrBroken ''placed nested _delayed_merge in a ConfigDelayedMerge, should have consolidated stack'')
      else Inr (ConfigDelayedMerge orig stack))"

definition make_delayed_merge_object :: "config_origin \<Rightarrow> config_value list \<Rightarrow> config_exception + config_value" where
  "make_delayed_merge_object orig stack =
     (if stack = [] then Inl (ConfigExceptionBugOrBroken ''creating empty delayed merge object'')
      else if \<not> is_object (hd stack)
      then Inl (ConfigExceptionBugOrBroken ''created a delayed merge object not guaranteed to be an object'')
      else if list_ex is_delayed_merge stack
      then Inl (ConfigExceptionBugOrBroken ''placed nested _delayed_merge in a ConfigDelayedMergeObject, should have consolidated stack'')
      else Inr (ConfigDelayedMergeObject orig stack))"

definition make_concatenation :: "config_origin \<Rightarrow> config_value list \<Rightarrow> config_exception + config_value" where
  "make_concatenation orig pieces =
     (if length pieces < 2 then Inl (ConfigExceptionBugOrBroken ''_created concatenation with less than 2 items: '')
      else if list_ex is_concatenation pieces
      then Inl (ConfigExceptionBugOrBroken ''ConfigConcatenation should never be nested: '')
      else if \<not> list_ex is_unmergeable pieces
      then Inl (ConfigExceptionBugOrBroken ''_created concatenation without an unmergeable in it: '')
      else Inr (ConfigConcatenation orig pieces))"

definition construct_delayed_merge ::
  "config_value \<Rightarrow> config_origin \<Rightarrow> config_value list \<Rightarrow> config_exception + config_value" where
  "construct_delayed_merge self orig stack =
     (if is_object self then make_delayed_merge_object orig stack else make_delayed_merge orig stack)"

text \<open>The origin of a merge leaves out empty objects, unless all are empty.\<close>

fun is_empty_object :: "config_value \<Rightarrow> bool" where
  "is_empty_object (SimpleConfigObject _ ms st _) = (st = RESOLVED \<and> ms = [])"
| "is_empty_object _ = False"

definition merge_value_origins :: "config_value list \<Rightarrow> config_exception + config_origin" where
  "merge_value_origins stack =
     (if stack = [] then Inl (ConfigExceptionBugOrBroken ''can't merge origins on empty list'')
      else let origins = map value_origin (filter (\<lambda>v. \<not> is_empty_object v) stack)
           in merge_origins (if origins = [] then [value_origin (hd stack)] else origins))"

subsection \<open>Falling back\<close>

text \<open>
  \<open>delay_merge\<close> and \<open>merged_with_the_unmergeable\<close> put the fallback, or what it holds
  unmerged, at the end of the receiver's stack.
\<close>

definition delay_onto ::
  "config_value \<Rightarrow> config_value list \<Rightarrow> config_exception + config_value option" where
  "delay_onto self fallbacks =
     (let new_stack = (if is_delayed_merge self then unmerged_values self else [self]) @ fallbacks
      in bind_exc (merge_value_origins new_stack) (\<lambda>orig.
         bind_exc (construct_delayed_merge self orig new_stack) (\<lambda>v. Inr (Some v))))"

definition with_fallbacks_ignored :: "config_value \<Rightarrow> config_exception + config_value option" where
  "with_fallbacks_ignored self =
     (case self of
        SimpleConfigObject orig ms st ig \<Rightarrow>
          if ig then Inr None else bind_exc (make_object orig ms st True) (\<lambda>v. Inr (Some v))
      | _ \<Rightarrow> if ignores_fallbacks self then Inr None
             else Inl (ConfigExceptionBugOrBroken ''_value class doesn't implement forced fallback-ignoring ''))"

definition merged_with_non_object :: "config_value \<Rightarrow> config_value \<Rightarrow> config_exception + config_value option" where
  "merged_with_non_object self fallback =
     (if value_status self = RESOLVED then with_fallbacks_ignored self else delay_onto self [fallback])"

text \<open>
  The end of \<open>merged_with_object\<close> on two objects: \<open>kept\<close> are the receiver's members
  after falling back, each with whether it changed; the fallback's other members follow.
\<close>

definition finish_merge ::
  "config_value \<Rightarrow> config_value \<Rightarrow> config_origin \<Rightarrow> resolve_status \<Rightarrow> bool
   \<Rightarrow> (string \<times> config_value \<times> bool) list \<Rightarrow> (string \<times> config_value) list \<Rightarrow> bool
   \<Rightarrow> config_exception + config_value option" where
  "finish_merge self fallback orig st ig kept rest new_ignores =
     (let merged = map (\<lambda>(k, v, c). (k, v)) kept @ rest;
          changed = (list_ex (\<lambda>(k, v, c). c) kept \<or> rest \<noteq> []);
          new_status = from_bool (\<not> list_ex (\<lambda>v. value_status v = UNRESOLVED) (map snd merged))
      in if changed
         then bind_exc (merge_value_origins [self, fallback]) (\<lambda>o'.
              bind_exc (make_object o' merged new_status new_ignores) (\<lambda>v. Inr (Some v)))
         else if new_status \<noteq> st \<or> new_ignores \<noteq> ig
         then bind_exc (make_object orig (map (\<lambda>(k, v, c). (k, v)) kept) new_status new_ignores) (\<lambda>v. Inr (Some v))
         else Inr None)"

fun with_fallback :: "config_value \<Rightarrow> config_value \<Rightarrow> config_exception + config_value option"
  and merge_members ::
    "(string \<times> config_value) list \<Rightarrow> (string \<times> config_value) list
     \<Rightarrow> config_exception + (string \<times> config_value \<times> bool) list" where
  "with_fallback (SimpleConfigObject orig ms st ig) other =
     (let self = SimpleConfigObject orig ms st ig
      in if ig then Inr None
         else if is_unmergeable other then delay_onto self (unmerged_values other)
         else case other of
                SimpleConfigObject _ fs _ fig \<Rightarrow>
                  bind_exc (merge_members ms fs) (\<lambda>kept.
                    finish_merge self other orig st ig kept (filter (\<lambda>e. fst e \<notin> fst ` set ms) fs) fig)
              | _ \<Rightarrow> merged_with_non_object self other)"
| "with_fallback self other =
     (if ignores_fallbacks self then Inr None
      else if is_unmergeable other then delay_onto self (unmerged_values other)
      else merged_with_non_object self other)"
| "merge_members [] fs = Inr []"
| "merge_members ((k, v) # ms) fs =
     bind_exc (case map_of fs k of
                 None \<Rightarrow> Inr (v, False)
               | Some w \<Rightarrow> bind_exc (with_fallback v w) (\<lambda>r.
                             Inr (case r of None \<Rightarrow> (v, False) | Some v' \<Rightarrow> (v', True)))) (\<lambda>(v', c).
     bind_exc (merge_members ms fs) (\<lambda>rest. Inr ((k, v', c) # rest)))"

text \<open>The value a call of \<^verbatim>\<open>with_fallback\<close> returns.\<close>

definition merge :: "config_value \<Rightarrow> config_value \<Rightarrow> config_exception + config_value" where
  "merge self other = bind_exc (with_fallback self other) (\<lambda>r. Inr (case r of None \<Rightarrow> self | Some v \<Rightarrow> v))"

subsection \<open>Well-formed values\<close>

text \<open>
  What the constructors guarantee: the stored status is the status of the members, keys
  are distinct, merge stacks are flat and, for an object, start with one, concatenations
  are flat and contain something unresolved; every origin can be merged.
\<close>

fun well_formed :: "config_value \<Rightarrow> bool" where
  "well_formed (SimpleConfigList orig vs st) \<longleftrightarrow>
     origin_named orig \<and> (\<forall>v \<in> set vs. well_formed v) \<and> st = from_values vs"
| "well_formed (SimpleConfigObject orig ms st ig) \<longleftrightarrow>
     origin_named orig \<and> (\<forall>e \<in> set ms. well_formed (snd e)) \<and> distinct (map fst ms) \<and> st = from_values (map snd ms)"
| "well_formed (ConfigConcatenation orig ps) \<longleftrightarrow>
     origin_named orig \<and> (\<forall>v \<in> set ps. well_formed v) \<and> length ps \<ge> 2 \<and> \<not> list_ex is_concatenation ps
     \<and> list_ex is_unmergeable ps"
| "well_formed (ConfigDelayedMerge orig stack) \<longleftrightarrow>
     origin_named orig \<and> (\<forall>v \<in> set stack. well_formed v) \<and> stack \<noteq> [] \<and> \<not> list_ex is_delayed_merge stack"
| "well_formed (ConfigDelayedMergeObject orig stack) \<longleftrightarrow>
     origin_named orig \<and> (\<forall>v \<in> set stack. well_formed v) \<and> stack \<noteq> [] \<and> \<not> list_ex is_delayed_merge stack
     \<and> is_object (hd stack)"
| "well_formed v \<longleftrightarrow> origin_named (value_origin v)"

lemma well_formed_origin: "well_formed v \<Longrightarrow> origin_named (value_origin v)"
  by (cases v) auto

lemma merge_value_origins_ok:
  assumes "stack \<noteq> []" "\<forall>v \<in> set stack. well_formed v"
  shows "\<exists>m. merge_value_origins stack = Inr m \<and> origin_named m"
proof -
  let ?os = "map value_origin (filter (\<lambda>v. \<not> is_empty_object v) stack)"
  have "list_all origin_named ?os" "origin_named (value_origin (hd stack))"
    using assms well_formed_origin by (auto simp: list_all_iff)
  then show ?thesis
    using assms(1) merge_origins_named [of "if ?os = [] then [value_origin (hd stack)] else ?os"]
    by (simp add: merge_value_origins_def Let_def split: if_splits)
qed

definition merges_to :: "config_value \<Rightarrow> config_exception + config_value option \<Rightarrow> bool" where
  "merges_to self r \<longleftrightarrow>
     (case r of
        Inl _ \<Rightarrow> False
      | Inr None \<Rightarrow> True
      | Inr (Some v) \<Rightarrow> well_formed v \<and> (is_object self \<longrightarrow> is_object v))"

lemma delay_onto_ok:
  assumes "well_formed self" "\<forall>v \<in> set fs. well_formed v \<and> \<not> is_delayed_merge v"
  shows "merges_to self (delay_onto self fs)"
proof -
  let ?s = "(if is_delayed_merge self then unmerged_values self else [self]) @ fs"
  have stack: "?s \<noteq> []" "\<forall>v \<in> set ?s. well_formed v" "\<not> list_ex is_delayed_merge ?s"
    "is_object self \<Longrightarrow> is_object (hd ?s)"
    using assms by (cases self; auto simp: list_ex_iff hd_append)+
  obtain m where m: "merge_value_origins ?s = Inr m" "origin_named m"
    using merge_value_origins_ok [OF stack(1,2)] by blast
  have "delay_onto self fs = bind_exc (construct_delayed_merge self m ?s) (\<lambda>v. Inr (Some v))"
    using m(1) by (simp add: delay_onto_def bind_exc_def)
  with stack m(2) show ?thesis
    unfolding construct_delayed_merge_def make_delayed_merge_object_def make_delayed_merge_def
    by (cases "is_object self") (simp_all only: merges_to_def bind_exc_def if_True if_False sum.case option.case
        simp_thms well_formed.simps is_object.simps)
qed

lemma unmerged_values_ok:
  "well_formed v \<Longrightarrow> w \<in> set (unmerged_values v) \<Longrightarrow> well_formed w \<and> \<not> is_delayed_merge w"
  by (cases v) (auto simp: list_ex_iff)

lemma merged_with_non_object_ok:
  assumes "well_formed self" "well_formed f" "\<not> is_unmergeable f" "\<not> ignores_fallbacks self"
  shows "merges_to self (merged_with_non_object self f)"
proof (cases "value_status self = RESOLVED")
  case True
  with assms(1,4) show ?thesis
    by (cases self) (auto simp: merged_with_non_object_def with_fallbacks_ignored_def make_object_def
        bind_exc_def merges_to_def)
next
  case False
  moreover have "\<not> is_delayed_merge f" using assms(3) by (cases f) auto
  ultimately show ?thesis
    using assms(1,2) by (simp add: merged_with_non_object_def delay_onto_ok)
qed

lemma finish_merge_ok:
  assumes self: "well_formed self" "self = SimpleConfigObject orig ms st ig"
    and fb: "well_formed fb" "\<forall>e \<in> set rest. well_formed (snd e)" "distinct (map fst rest)"
      "fst ` set rest \<inter> fst ` set kept = {}"
    and kept: "\<forall>(k, v, c) \<in> set kept. well_formed v" "map fst kept = map fst ms"
  shows "merges_to self (finish_merge self fb orig st ig kept rest ig')"
proof -
  let ?m = "map (\<lambda>(k, v, c). (k, v)) kept"
  have keys: "map fst ?m = map fst ms" "fst ` set ?m = fst ` set kept"
    using kept(2) by (auto simp: comp_def split_beta) (force simp: image_iff)+
  have vals: "\<forall>e \<in> set ?m. well_formed (snd e)" using kept(1) by auto
  have st: "from_bool (\<not> list_ex (\<lambda>v. value_status v = UNRESOLVED) vs) = from_values vs" for vs
    using from_values_iff [of vs] by (cases "from_values vs") (auto simp: from_bool_def list_ex_iff)
  have d: "distinct (map fst (?m @ rest))"
  proof -
    have "distinct (map fst ?m)" "set (map fst ?m) = fst ` set kept"
      unfolding keys(1) using self keys(2) kept(2) by (simp_all flip: set_map)
    moreover have "set (map fst rest) \<inter> fst ` set kept = {}" using fb(4) by simp
    ultimately show ?thesis using fb(3) by (auto simp del: map_map)
  qed
  obtain o' where o': "merge_value_origins [self, fb] = Inr o'" "origin_named o'"
    using merge_value_origins_ok [of "[self, fb]"] self(1) fb(1) by auto
  have ok: "origin_named orig \<Longrightarrow> well_formed (SimpleConfigObject orig (?m @ rest) (from_values (map snd (?m @ rest))) ig')"
    for orig ig' using vals fb(2) d by auto
  show ?thesis
  proof (cases "list_ex (\<lambda>(k, v, c). c) kept \<or> rest \<noteq> []")
    case True
    then show ?thesis
      using o' ok [OF o'(2)]
      unfolding finish_merge_def merges_to_def Let_def st bind_exc_def make_object_def by auto
  next
    case False
    moreover have "origin_named orig" using self by simp
    ultimately show ?thesis
      using ok [of orig ig']
      unfolding finish_merge_def merges_to_def Let_def st bind_exc_def make_object_def by auto
  qed
qed

lemma merges_to_self [simp]: "merges_to self (Inr None)"
  by (simp add: merges_to_def)

definition fall_back :: "config_value \<Rightarrow> config_value \<Rightarrow> config_exception + config_value option" where
  "fall_back self other =
     (if ignores_fallbacks self then Inr None
      else if is_unmergeable other then delay_onto self (unmerged_values other)
      else merged_with_non_object self other)"

lemma fall_back_ok:
  "well_formed self \<Longrightarrow> well_formed other \<Longrightarrow> merges_to self (fall_back self other)"
  using unmerged_values_ok [of other] delay_onto_ok [of self "unmerged_values other"]
    merged_with_non_object_ok [of self other]
  by (auto simp: fall_back_def)

lemma with_fallback_generic:
  "\<not> (is_simple_object self \<and> is_simple_object other) \<Longrightarrow> with_fallback self other = fall_back self other"
  by (cases self; cases other) (simp_all add: fall_back_def Let_def)

lemma with_fallback_objects:
  "with_fallback (SimpleConfigObject orig ms st ig) (SimpleConfigObject fo fs fst' fig) =
     (if ig then Inr None
      else bind_exc (merge_members ms fs) (\<lambda>kept.
             finish_merge (SimpleConfigObject orig ms st ig) (SimpleConfigObject fo fs fst' fig) orig st ig kept
               (filter (\<lambda>e. fst e \<notin> fst ` set ms) fs) fig))"
  by simp

lemma with_fallback_ok:
  "well_formed v \<Longrightarrow> well_formed w \<Longrightarrow> merges_to v (with_fallback v w)"
  and merge_members_ok:
  "\<forall>e \<in> set ms. well_formed (snd e) \<Longrightarrow> \<forall>e \<in> set fs. well_formed (snd e) \<Longrightarrow>
   \<exists>kept. merge_members ms fs = Inr kept \<and> map fst kept = map fst ms \<and> (\<forall>(k, v, c) \<in> set kept. well_formed v)"
proof (induction v w and ms fs rule: with_fallback_merge_members.induct)
  case (1 orig ms st ig other)
  let ?self = "SimpleConfigObject orig ms st ig"
  show ?case
  proof (cases "is_simple_object other \<and> \<not> ig")
    case False
    show ?thesis
    proof (cases "is_simple_object other")
      case True
      with False show ?thesis by (cases other) simp_all
    next
      case False
      with fall_back_ok [OF 1(2,3)] show ?thesis by (simp only: with_fallback_generic simp_thms)
    qed
  next
    case True
    then obtain fo fs fst' fig where other: "other = SimpleConfigObject fo fs fst' fig" by (cases other) auto
    obtain kept where kept: "merge_members ms fs = Inr kept" "map fst kept = map fst ms"
      "\<forall>(k, v, c) \<in> set kept. well_formed v"
      using 1(1) [OF refl _ _ other] 1(2,3) True other by auto
    have "fst ` set kept = fst ` set ms" using arg_cong [OF kept(2), of set] by simp
    then have "merges_to ?self (finish_merge ?self other orig st ig kept (filter (\<lambda>e. fst e \<notin> fst ` set ms) fs) fig)"
      using 1(2,3) kept(2,3) other
      by (intro finish_merge_ok) (auto simp: distinct_map_filter)
    with True other kept show ?thesis by (simp add: bind_exc_def)
  qed
next
  case (4 k v ms fs)
  obtain kept where kept: "merge_members ms fs = Inr kept" "map fst kept = map fst ms"
    "\<forall>(k, v, c) \<in> set kept. well_formed v"
    using 4 by auto
  show ?case
  proof (cases "map_of fs k")
    case None
    with kept 4 show ?thesis by (simp add: bind_exc_def)
  next
    case (Some w)
    then have "well_formed w" using 4(4) map_of_SomeD [OF Some] by force
    then have "merges_to v (with_fallback v w)" using 4 Some by simp
    then obtain r where "with_fallback v w = Inr r" "r = None \<or> well_formed (the r)"
      by (auto simp: merges_to_def split: sum.splits option.splits)
    with Some kept 4(3) show ?thesis by (auto simp: bind_exc_def split: option.split)
  qed
qed (simp_all only: with_fallback_generic is_simple_object.simps fall_back_ok simp_thms, simp_all)

subsection \<open>Resolved values as trees\<close>

text \<open>
  The abstract view of a resolved value: an inner node gives each key a subtree and says
  whether it is closed to further fallbacks, anything else is a leaf.  \<open>tree_merge\<close> is
  the specification of falling back.
\<close>

datatype tree = Leaf config_value | Node "string \<Rightarrow> tree option" bool

fun tree_of :: "config_value \<Rightarrow> tree" where
  "tree_of (SimpleConfigObject _ ms _ ig) = Node (map_of (map (\<lambda>e. (fst e, tree_of (snd e))) ms)) ig"
| "tree_of v = Leaf v"

fun closed :: "tree \<Rightarrow> bool" where
  "closed (Leaf _) = True"
| "closed (Node _ c) = c"

primrec tree_merge :: "tree \<Rightarrow> tree \<Rightarrow> tree" where
  "tree_merge (Leaf v) = (\<lambda>t. Leaf v)"
| "tree_merge (Node f c) =
     (\<lambda>t. if c then Node f c
          else case t of
                 Leaf _ \<Rightarrow> Node f True
               | Node g d \<Rightarrow>
                   Node (\<lambda>k. case map_option tree_merge (f k) of
                               None \<Rightarrow> g k
                             | Some m \<Rightarrow> (case g k of None \<Rightarrow> f k | Some u \<Rightarrow> Some (m u))) d)"

lemma tree_merge_Node:
  "tree_merge (Node f c) t =
     (if c then Node f c
      else case t of
             Leaf _ \<Rightarrow> Node f True
           | Node g d \<Rightarrow>
               Node (\<lambda>k. case f k of
                           None \<Rightarrow> g k
                         | Some s \<Rightarrow> (case g k of None \<Rightarrow> Some s | Some u \<Rightarrow> Some (tree_merge s u))) d)"
  by (auto split: tree.split option.split)

lemma tree_merge_assoc: "tree_merge (tree_merge a b) c = tree_merge a (tree_merge b c)"
proof (induction a arbitrary: b c)
  case (Node f x)
  show ?case
  proof (cases "x \<or> closed b")
    case True
    then show ?thesis by (cases b; cases c) (auto simp: tree_merge_Node simp del: tree_merge.simps(2))
  next
    case False
    then obtain g y where b: "b = Node g y" "\<not> x" "\<not> y" by (cases b) auto
    show ?thesis
    proof (cases c)
      case (Leaf v)
      with b show ?thesis by (simp add: tree_merge_Node del: tree_merge.simps(2))
    next
      case (Node h z)
      have "tree_merge (tree_merge s u) w = tree_merge s (tree_merge u w)" if "f k = Some s" for k s u w
        using Node.IH [OF rangeI [of f k]] that by simp
      with b Node show ?thesis
        by (auto simp: tree_merge_Node fun_eq_iff simp del: tree_merge.simps(2) split: option.splits)
    qed
  qed
qed simp

definition resolved_ok :: "config_value \<Rightarrow> bool" where
  "resolved_ok v \<longleftrightarrow> well_formed v \<and> value_status v = RESOLVED"

lemma resolved_not_unmergeable: "resolved_ok v \<Longrightarrow> \<not> is_unmergeable v"
  by (cases v) (auto simp: resolved_ok_def)

lemma resolved_members:
  "resolved_ok (SimpleConfigObject orig ms st ig) \<Longrightarrow> \<forall>e \<in> set ms. resolved_ok (snd e)"
proof -
  assume v: "resolved_ok (SimpleConfigObject orig ms st ig)"
  then have "from_values (map snd ms) \<noteq> UNRESOLVED" by (auto simp: resolved_ok_def)
  then have "\<forall>e \<in> set ms. value_status (snd e) \<noteq> UNRESOLVED" by (simp add: from_values_iff)
  with v show ?thesis by (simp add: resolved_ok_def)
qed

lemma all_resolved_status: "\<forall>v \<in> set vs. value_status v = RESOLVED \<Longrightarrow> from_values vs = RESOLVED"
  using from_values_iff [of vs] by (cases "from_values vs") auto

definition kept_ok ::
  "(string \<times> config_value) list \<Rightarrow> (string \<times> config_value) list \<Rightarrow> (string \<times> config_value \<times> bool) list \<Rightarrow> bool" where
  "kept_ok ms fs kept \<longleftrightarrow>
     (\<forall>(k, v, c) \<in> set kept. value_status v = RESOLVED) \<and>
     (\<not> list_ex (\<lambda>(k, v, c). c) kept \<longrightarrow> map (\<lambda>(k, v, c). (k, v)) kept = ms) \<and>
     map (\<lambda>(k, v, c). (k, tree_of v)) kept =
       map (\<lambda>(k, v). (k, case map_of fs k of None \<Rightarrow> tree_of v | Some w \<Rightarrow> tree_merge (tree_of v) (tree_of w))) ms"

lemma map_of_map_values: "map_of (map (\<lambda>(k, v). (k, F k v)) xs) k = map_option (F k) (map_of xs k)"
  by (induction xs) auto

lemma map_of_filter_keys:
  "map_of (filter (\<lambda>e. fst e \<notin> A) xs) k = (if k \<in> A then None else map_of xs k)"
  by (induction xs) auto

lemma tree_of_members: "map (\<lambda>e. (fst e, tree_of (snd e))) xs = map (\<lambda>(k, v). (k, tree_of v)) xs"
  by (simp add: split_beta)

lemma finish_merge_tree:
  assumes self: "self = SimpleConfigObject orig ms st False" and fb: "fb = SimpleConfigObject fo fs fst' fig"
    and kept: "kept_ok ms fs kept" and rs: "resolved_ok self" "\<forall>e \<in> set fs. value_status (snd e) = RESOLVED"
    and r: "finish_merge self fb orig st False kept (filter (\<lambda>e. fst e \<notin> fst ` set ms) fs) fig = Inr r"
  shows "tree_of (case r of None \<Rightarrow> self | Some v \<Rightarrow> v) = tree_merge (tree_of self) (tree_of fb)
       \<and> value_status (case r of None \<Rightarrow> self | Some v \<Rightarrow> v) = RESOLVED"
proof -
  let ?rest = "filter (\<lambda>e. fst e \<notin> fst ` set ms) fs" and ?m = "map (\<lambda>(k, v, c). (k, v)) kept"
  let ?v = "case r of None \<Rightarrow> self | Some v \<Rightarrow> v"
  have res: "list_ex (\<lambda>v. value_status v = UNRESOLVED) (map snd (?m @ ?rest)) = False"
    using kept rs(2) by (auto simp: kept_ok_def list_ex_iff)
  have st: "st = RESOLVED" using rs(1) unfolding self resolved_ok_def by (elim conjE) simp
  have "\<exists>o'. ?v = SimpleConfigObject o' (?m @ ?rest) RESOLVED fig"
  proof (cases "list_ex (\<lambda>(k, v, c). c) kept \<or> ?rest \<noteq> []")
    case True
    with r res show ?thesis
      unfolding finish_merge_def Let_def
      by (auto simp: bind_exc_def from_bool_def make_object_def split: sum.splits if_splits)
  next
    case False
    then have "?m = ms" "?rest = []" using kept by (auto simp: kept_ok_def)
    with False r res st self show ?thesis
      unfolding finish_merge_def Let_def
      by (auto simp: bind_exc_def from_bool_def make_object_def split: sum.splits if_splits)
  qed
  then obtain o' where v: "?v = SimpleConfigObject o' (?m @ ?rest) RESOLVED fig" by blast
  have tm: "map (\<lambda>e. (fst e, tree_of (snd e))) ?m =
      map (\<lambda>(k, v). (k, case map_of fs k of None \<Rightarrow> tree_of v | Some w \<Rightarrow> tree_merge (tree_of v) (tree_of w))) ms"
  proof -
    have "map (\<lambda>e. (fst e, tree_of (snd e))) ?m = map (\<lambda>(k, v, c). (k, tree_of v)) kept"
      by (simp add: comp_def split_beta)
    with kept show ?thesis unfolding kept_ok_def by simp
  qed
  have dom: "k \<in> fst ` set ms \<longleftrightarrow> map_of ms k \<noteq> None" for k
    by (metis map_of_eq_None_iff)
  have "map_of (map (\<lambda>e. (fst e, tree_of (snd e))) (?m @ ?rest)) k =
      (case map_option tree_of (map_of ms k) of
         None \<Rightarrow> map_option tree_of (map_of fs k)
       | Some s \<Rightarrow> (case map_option tree_of (map_of fs k) of None \<Rightarrow> Some s | Some u \<Rightarrow> Some (tree_merge s u)))" for k
  proof -
    have "map_of (map (\<lambda>e. (fst e, tree_of (snd e))) ?rest) k =
        (if k \<in> fst ` set ms then None else map_option tree_of (map_of fs k))"
      unfolding tree_of_members map_of_map_values map_of_filter_keys by simp
    moreover have "map_of (map (\<lambda>e. (fst e, tree_of (snd e))) ?m) k =
        map_option (\<lambda>v. case map_of fs k of None \<Rightarrow> tree_of v | Some w \<Rightarrow> tree_merge (tree_of v) (tree_of w)) (map_of ms k)"
      unfolding tm map_of_map_values ..
    ultimately show ?thesis
      unfolding map_append map_of_append map_add_def dom
      by (cases "map_of ms k"; cases "map_of fs k") simp_all
  qed
  then have "map_of (map (\<lambda>e. (fst e, tree_of (snd e))) (?m @ ?rest)) =
      (\<lambda>k. case map_of (map (\<lambda>e. (fst e, tree_of (snd e))) ms) k of
         None \<Rightarrow> map_of (map (\<lambda>e. (fst e, tree_of (snd e))) fs) k
       | Some s \<Rightarrow> (case map_of (map (\<lambda>e. (fst e, tree_of (snd e))) fs) k of
                      None \<Rightarrow> Some s | Some u \<Rightarrow> Some (tree_merge s u)))"
    using map_of_map_values [of "\<lambda>_. tree_of" ms] map_of_map_values [of "\<lambda>_. tree_of" fs]
    by (simp only: tree_of_members [of ms] tree_of_members [of fs] fun_eq_iff simp_thms)
  then have "Node (map_of (map (\<lambda>e. (fst e, tree_of (snd e))) (?m @ ?rest))) fig
      = tree_merge (tree_of self) (tree_of fb)"
    unfolding self fb tree_of.simps tree_merge_Node by simp
  then show ?thesis
    unfolding v by simp
qed

lemma with_fallback_tree:
  "resolved_ok v \<Longrightarrow> resolved_ok w \<Longrightarrow> with_fallback v w = Inr r \<Longrightarrow>
   tree_of (case r of None \<Rightarrow> v | Some u \<Rightarrow> u) = tree_merge (tree_of v) (tree_of w)
   \<and> value_status (case r of None \<Rightarrow> v | Some u \<Rightarrow> u) = RESOLVED"
  and merge_members_tree:
  "\<forall>e \<in> set ms. resolved_ok (snd e) \<Longrightarrow> \<forall>e \<in> set fs. resolved_ok (snd e) \<Longrightarrow>
   merge_members ms fs = Inr kept \<Longrightarrow> kept_ok ms fs kept"
proof (induction v w and ms fs arbitrary: r and kept rule: with_fallback_merge_members.induct)
  case (1 orig ms st ig other)
  show ?case
  proof (cases "ig \<or> \<not> is_simple_object other")
    case True
    then show ?thesis
      using 1(2-4) resolved_not_unmergeable [OF 1(3)]
      by (cases other)
         (auto simp: merged_with_non_object_def with_fallbacks_ignored_def make_object_def bind_exc_def
            resolved_ok_def Let_def split: if_splits)
  next
    case False
    then obtain fo fs fst' fig where other: "other = SimpleConfigObject fo fs fst' fig" and ig: "\<not> ig"
      by (cases other) auto
    obtain kept where k: "merge_members ms fs = Inr kept"
      "finish_merge (SimpleConfigObject orig ms st False) other orig st False kept
         (filter (\<lambda>e. fst e \<notin> fst ` set ms) fs) fig = Inr r"
      using 1(4) ig unfolding other with_fallback_objects by (auto simp: bind_exc_def split: sum.splits)
    have fs: "\<forall>e \<in> set fs. resolved_ok (snd e)" using resolved_members 1(3) other by blast
    have "kept_ok ms fs kept"
      using 1(1) [OF refl ig _ other] k(1) resolved_members [OF 1(2)] fs other by auto
    moreover have "resolved_ok (SimpleConfigObject orig ms st False)" using 1(2) ig by simp
    moreover have "\<forall>e \<in> set fs. value_status (snd e) = RESOLVED" using fs by (simp add: resolved_ok_def)
    moreover have "ig = False" using ig by simp
    ultimately show ?thesis
      using finish_merge_tree [OF refl other _ _ _ k(2)] by (simp only:)
  qed
next
  case (4 k v ms fs)
  obtain v' c rest where m: "merge_members ms fs = Inr rest" "kept = (k, v', c) # rest"
    and v': "(case map_of fs k of
                 None \<Rightarrow> Inr (v, False)
               | Some w \<Rightarrow> bind_exc (with_fallback v w) (\<lambda>r.
                             Inr (case r of None \<Rightarrow> (v, False) | Some v' \<Rightarrow> (v', True)))) = Inr (v', c)"
    using 4(5) by (auto simp: bind_exc_def split: sum.splits prod.splits)
  have rest: "kept_ok ms fs rest" using 4 m(1) by simp
  have head: "value_status v' = RESOLVED \<and> (\<not> c \<longrightarrow> v' = v) \<and>
      tree_of v' = (case map_of fs k of None \<Rightarrow> tree_of v | Some w \<Rightarrow> tree_merge (tree_of v) (tree_of w))"
  proof (cases "map_of fs k")
    case None
    with v' 4(3) show ?thesis by (simp add: resolved_ok_def)
  next
    case (Some w)
    then obtain r where r: "with_fallback v w = Inr r" "(v', c) = (case r of None \<Rightarrow> (v, False) | Some v' \<Rightarrow> (v', True))"
      using v' by (auto simp: bind_exc_def split: sum.splits)
    have "resolved_ok w" using 4(4) map_of_SomeD [OF Some] by force
    with 4 Some r(1) have "tree_of (case r of None \<Rightarrow> v | Some u \<Rightarrow> u) = tree_merge (tree_of v) (tree_of w)
        \<and> value_status (case r of None \<Rightarrow> v | Some u \<Rightarrow> u) = RESOLVED" by simp
    with r(2) Some show ?thesis by (cases r) auto
  qed
  show ?case
    using rest head by (auto simp: kept_ok_def m(2))
qed (auto simp: kept_ok_def resolved_ok_def split: if_splits)

text \<open>
  C5: falling back on well-formed values never raises and gives a well-formed value again,
  an object when the receiver is one; every internal-error exception of the merge code is
  unreachable.
\<close>

theorem merge_well_formed:
  assumes "well_formed v" and "well_formed w"
  shows "\<exists>u. merge v w = Inr u \<and> well_formed u \<and> (is_object v \<longrightarrow> is_object u)"
  using with_fallback_ok [OF assms] assms(1)
  by (auto simp: merge_def merges_to_def bind_exc_def split: sum.splits option.splits)

definition sample_origin :: config_origin where
  "sample_origin = \<lparr>desc = ''a.conf'', line_no = 1, end_line_no = 1, origin_type = FILE, comments_or_null = []\<rparr>"

definition sample_object :: "(string \<times> config_value) list \<Rightarrow> config_value" where
  "sample_object ms = SimpleConfigObject sample_origin ms (from_values (map snd ms)) False"

definition sample_ref :: config_value where
  "sample_ref = ConfigReference sample_origin \<lparr>expr_path = Path ''x'' None, expr_optional = False\<rparr> 0"

lemma sample_origin_named [simp]: "origin_named sample_origin"
  by (simp add: origin_named_def sample_origin_def named_text.simps starts_with_def merge_of_prefix_def)

theorem merge_well_formed_witness:
  "\<exists>u. merge (sample_object [(''a'', sample_ref)]) (sample_object [(''a'', ConfigInt sample_origin 1 ''1'')]) = Inr u
     \<and> well_formed u \<and> is_object u"
  using merge_well_formed [of "sample_object [(''a'', sample_ref)]" "sample_object [(''a'', ConfigInt sample_origin 1 ''1'')]"]
  by (simp add: sample_object_def sample_ref_def)

lemma merge_resolved:
  assumes "resolved_ok v" "resolved_ok w"
  shows "\<exists>u. merge v w = Inr u \<and> resolved_ok u \<and> tree_of u = tree_merge (tree_of v) (tree_of w)"
proof -
  have "merges_to v (with_fallback v w)"
    using with_fallback_ok assms by (simp add: resolved_ok_def)
  then obtain r where r: "with_fallback v w = Inr r" "r = None \<or> well_formed (the r)"
    by (auto simp: merges_to_def split: sum.splits option.splits)
  with with_fallback_tree [OF assms r(1)] assms(1) show ?thesis
    by (cases r) (auto simp: merge_def bind_exc_def resolved_ok_def)
qed

text \<open>
  C4: on resolved values falling back implements the specification on trees: leaves and
  closed nodes stand, a node falling back to a leaf closes, two nodes merge key by key.
  It follows that merging three configurations does not depend on the grouping.
\<close>

theorem merge_refines_trees:
  assumes "resolved_ok u" and "resolved_ok v" and "resolved_ok w"
  shows "\<exists>uv uv_w vw u_vw.
     merge u v = Inr uv \<and> tree_of uv = tree_merge (tree_of u) (tree_of v) \<and>
     merge uv w = Inr uv_w \<and> merge v w = Inr vw \<and> merge u vw = Inr u_vw \<and>
     tree_of uv_w = tree_of u_vw"
proof -
  obtain uv where uv: "merge u v = Inr uv" "resolved_ok uv" "tree_of uv = tree_merge (tree_of u) (tree_of v)"
    using merge_resolved [OF assms(1,2)] by blast
  obtain vw where vw: "merge v w = Inr vw" "resolved_ok vw" "tree_of vw = tree_merge (tree_of v) (tree_of w)"
    using merge_resolved [OF assms(2,3)] by blast
  obtain x y where "merge uv w = Inr x" "tree_of x = tree_merge (tree_of uv) (tree_of w)"
    "merge u vw = Inr y" "tree_of y = tree_merge (tree_of u) (tree_of vw)"
    using merge_resolved [OF uv(2) assms(3)] merge_resolved [OF assms(1) vw(2)] by blast
  with uv vw show ?thesis by (simp add: tree_merge_assoc)
qed

theorem merge_refines_trees_witness:
  "\<exists>x y vw. merge (sample_object [(''a'', sample_object [])]) (sample_object [(''a'', ConfigNull sample_origin)]) = Inr x
     \<and> merge (sample_object [(''a'', ConfigNull sample_origin)]) (sample_object [(''b'', sample_object [])]) = Inr vw
     \<and> merge (sample_object [(''a'', sample_object [])]) vw = Inr y"
  using merge_refines_trees [of "sample_object [(''a'', sample_object [])]"
      "sample_object [(''a'', ConfigNull sample_origin)]" "sample_object [(''b'', sample_object [])]"]
  by (auto simp: resolved_ok_def sample_object_def)

end
