(* ===== verification/Config_Concat.thy ===== *)
theory Config_Concat
  imports Config_Object
begin

section \<open>Concatenations and prefixes (config_concatenation.cpp and the relativized methods)\<close>

text \<open>
  Values written next to each other: objects merge, lists append, scalars join their
  texts, and anything next to a substitution waits in a \<^verbatim>\<open>ConfigConcatenation\<close>.  The
  vector the loop works on is kept reversed, its back first.
\<close>

definition list_concatenate :: "config_value \<Rightarrow> config_value \<Rightarrow> config_exception + config_value" where
  "list_concatenate a b =
     (case (a, b) of
        (SimpleConfigList ao xs _, SimpleConfigList bo ys _) \<Rightarrow>
          bind_exc (merge_two ao bo) (\<lambda>orig. new_list orig (xs @ ys))
      | _ \<Rightarrow> Inl NullPointer)"

definition cannot_concatenate :: "config_value \<Rightarrow> config_exception" where
  "cannot_concatenate left =
     ConfigExceptionWrongType (Some (value_origin left))
       ''_cannot concatenate object or list with a non-object-or-list, '' [] []"

text \<open>\<open>None\<close> leaves \<^verbatim>\<open>joined\<close> null.\<close>

definition join_two :: "fp_text \<Rightarrow> config_value \<Rightarrow> config_value \<Rightarrow> config_exception + config_value option" where
  "join_two fp left right =
     (if is_object left \<and> is_object right then bind_exc (merge right left) (\<lambda>v. Inr (Some v))
      else if is_list left \<and> is_list right then bind_exc (list_concatenate left right) (\<lambda>v. Inr (Some v))
      else if is_concatenation left \<or> is_concatenation right
      then Inl (ConfigExceptionBugOrBroken ''unflattened ConfigConcatenation'')
      else if is_unmergeable left \<or> is_unmergeable right then Inr None
      else let s1 = transform_to_string fp left; s2 = transform_to_string fp right
           in if s1 = [] \<or> s2 = [] then Inl (cannot_concatenate left)
              else bind_exc (merge_two (value_origin left) (value_origin right)) (\<lambda>orig.
                     Inr (Some (ConfigString orig (s1 @ s2)))))"

fun join_into :: "fp_text \<Rightarrow> config_value list \<Rightarrow> config_value list \<Rightarrow> config_exception + config_value list" where
  "join_into fp builder [] = Inr builder"
| "join_into fp [] (v # vs) = join_into fp [v] vs"
| "join_into fp (left # builder) (v # vs) =
     bind_exc (join_two fp left v) (\<lambda>joined.
       case joined of
         None \<Rightarrow> join_into fp (v # left # builder) vs
       | Some w \<Rightarrow> join_into fp (w # builder) vs)"

fun flatten_piece :: "config_value \<Rightarrow> config_value list" where
  "flatten_piece (ConfigConcatenation _ ps) = ps"
| "flatten_piece v = [v]"

definition consolidate :: "fp_text \<Rightarrow> config_value list \<Rightarrow> config_exception + config_value list" where
  "consolidate fp pieces =
     (if length pieces < 2 then Inr pieces
      else bind_exc (join_into fp [] (concat (map flatten_piece pieces))) (\<lambda>r. Inr (rev r)))"

definition concatenate :: "fp_text \<Rightarrow> config_value list \<Rightarrow> config_exception + config_value option" where
  "concatenate fp pieces =
     bind_exc (consolidate fp pieces) (\<lambda>consolidated.
       case consolidated of
         [] \<Rightarrow> Inr None
       | [v] \<Rightarrow> Inr (Some v)
       | _ \<Rightarrow> bind_exc (merge_origins (map value_origin consolidated)) (\<lambda>orig.
                bind_exc (make_concatenation orig consolidated) (\<lambda>v. Inr (Some v))))"

subsection \<open>Putting a value below a prefix\<close>

text \<open>
  \<^verbatim>\<open>relativized\<close>: every reference is moved below the prefix.  The children are rebuilt in
  order; a child that raises ends the call.
\<close>

definition relativized_ref :: "config_path \<Rightarrow> config_origin \<Rightarrow> substitution_expression \<Rightarrow> nat \<Rightarrow> config_exception + config_value" where
  "relativized_ref prefix orig expr n =
     bind_exc (prepend (expr_path expr) prefix) (\<lambda>q.
       case q of
         None \<Rightarrow> Inl NullPointer
       | Some p \<Rightarrow> Inr (ConfigReference orig (expr\<lparr>expr_path := p\<rparr>) (n + path_length prefix)))"

fun relativized :: "config_path \<Rightarrow> config_value \<Rightarrow> config_exception + config_value"
  and relativized_list :: "config_path \<Rightarrow> config_value list \<Rightarrow> config_exception + config_value list"
  and relativized_members ::
    "config_path \<Rightarrow> (string \<times> config_value) list \<Rightarrow> config_exception + (string \<times> config_value) list" where
  "relativized prefix (ConfigReference orig expr n) = relativized_ref prefix orig expr n"
| "relativized prefix (SimpleConfigList orig vs st) =
     bind_exc (relativized_list prefix vs) (\<lambda>vs'.
       if vs' = vs then Inr (SimpleConfigList orig vs st) else make_list orig vs' st)"
| "relativized prefix (SimpleConfigObject orig ms st ig) =
     bind_exc (relativized_members prefix ms) (\<lambda>ms'.
       if ms' = ms then Inr (SimpleConfigObject orig ms st ig)
       else make_object orig ms' (from_values (map snd ms')) ig)"
| "relativized prefix (ConfigConcatenation orig ps) =
     bind_exc (relativized_list prefix ps) (\<lambda>ps'. make_concatenation orig ps')"
| "relativized prefix (ConfigDelayedMerge orig stack) =
     bind_exc (relativized_list prefix stack) (\<lambda>stack'. make_delayed_merge orig stack')"
| "relativized prefix (ConfigDelayedMergeObject orig stack) =
     bind_exc (relativized_list prefix stack) (\<lambda>stack'. make_delayed_merge_object orig stack')"
| "relativized prefix v = Inr v"
| "relativized_list prefix [] = Inr []"
| "relativized_list prefix (v # vs) =
     bind_exc (relativized prefix v) (\<lambda>v'. bind_exc (relativized_list prefix vs) (\<lambda>vs'. Inr (v' # vs')))"
| "relativized_members prefix [] = Inr []"
| "relativized_members prefix ((k, v) # ms) =
     bind_exc (relativized prefix v) (\<lambda>v'. bind_exc (relativized_members prefix ms) (\<lambda>ms'. Inr ((k, v') # ms')))"

subsection \<open>Concatenating well-formed pieces\<close>

text \<open>Objects that still take fallbacks, which is how the parser makes them.\<close>

fun open_value :: "config_value \<Rightarrow> bool" where
  "open_value (SimpleConfigObject _ _ _ ig) = (\<not> ig)"
| "open_value _ = True"

definition piece_ok :: "config_value \<Rightarrow> bool" where
  "piece_ok v \<longleftrightarrow> well_formed v \<and> open_value v \<and> \<not> is_concatenation v"

lemma delay_onto_unmergeable: "delay_onto v fs = Inr r \<Longrightarrow> \<exists>u. r = Some u \<and> is_unmergeable u"
  by (auto simp: delay_onto_def Let_def bind_exc_def construct_delayed_merge_def make_delayed_merge_def
      make_delayed_merge_object_def split: sum.splits if_splits)

lemma merge_open:
  assumes "merge v w = Inr u" "is_object v" "is_object w" "open_value v" "open_value w"
  shows "open_value u \<and> (is_unmergeable v \<or> is_unmergeable w \<longrightarrow> is_unmergeable u)"
proof (cases "is_simple_object v \<and> is_simple_object w")
  case True
  then obtain vo ms vst wo fs wst where
    vw: "v = SimpleConfigObject vo ms vst False" "w = SimpleConfigObject wo fs wst False"
    using assms(4,5) by (cases v; cases w) auto
  then show ?thesis
    using assms(1)
    by (auto simp: merge_def bind_exc_def finish_merge_def make_object_def Let_def
        split: sum.splits if_splits option.splits)
next
  case False
  then have "merge v w = bind_exc (fall_back v w) (\<lambda>r. Inr (case r of None \<Rightarrow> v | Some u \<Rightarrow> u))"
    by (simp add: merge_def with_fallback_generic)
  then obtain r where r: "fall_back v w = Inr r" "u = (case r of None \<Rightarrow> v | Some u \<Rightarrow> u)"
    using assms(1) by (auto simp: bind_exc_def split: sum.splits)
  have um: "is_unmergeable x \<Longrightarrow> open_value x" for x by (cases x) auto
  have "is_unmergeable u"
  proof (cases "ignores_fallbacks v")
    case True
    with r assms(2,4) show ?thesis by (cases v) (auto simp: fall_back_def)
  next
    case False
    then have "is_unmergeable w \<or> value_status v = UNRESOLVED"
      using assms(2,3) \<open>\<not> (is_simple_object v \<and> is_simple_object w)\<close> by (cases v; cases w) auto
    with False r show ?thesis
      by (auto simp: fall_back_def merged_with_non_object_def dest!: delay_onto_unmergeable split: if_splits)
  qed
  with um show ?thesis by blast
qed

lemma list_concatenate_ok:
  assumes "well_formed v" "well_formed w" "is_list v" "is_list w"
  shows "\<exists>u. list_concatenate v w = Inr u \<and> well_formed u \<and> is_list u"
proof -
  obtain vo vs vst wo ws wst where vw: "v = SimpleConfigList vo vs vst" "w = SimpleConfigList wo ws wst"
    using assms(3,4) by (cases v; cases w) auto
  with assms(1,2) obtain m where "merge_two vo wo = Inr m" "origin_named m"
    using merge_two_named [of vo wo] by auto
  with vw assms(1,2) show ?thesis
    by (auto simp: list_concatenate_def bind_exc_def new_list_def make_list_def)
qed

text \<open>What one step of the loop does with well-formed neighbours.\<close>

definition joins_to :: "config_value \<Rightarrow> config_value \<Rightarrow> config_exception + config_value option \<Rightarrow> bool" where
  "joins_to left right r \<longleftrightarrow>
     (case r of
        Inl e \<Rightarrow> e = cannot_concatenate left
      | Inr None \<Rightarrow> is_unmergeable left \<or> is_unmergeable right
      | Inr (Some w) \<Rightarrow> piece_ok w \<and> (is_unmergeable left \<longrightarrow> is_unmergeable w))"

lemma join_two_ok:
  assumes "piece_ok left" "piece_ok right"
  shows "joins_to left right (join_two fp left right)"
proof (cases "is_object left \<and> is_object right")
  case True
  obtain u where u: "merge right left = Inr u" "well_formed u" "is_object u"
    using with_fallback_ok [of right left] assms True
    by (auto simp: piece_ok_def merge_def merges_to_def bind_exc_def split: sum.splits option.splits)
  with merge_open [OF u(1)] assms True show ?thesis
    by (cases u) (auto simp: join_two_def joins_to_def bind_exc_def piece_ok_def)
next
  case False
  consider (lists) "is_list left \<and> is_list right"
    | (wait) "is_unmergeable left \<or> is_unmergeable right" "\<not> (is_list left \<and> is_list right)"
    | (scalars) "\<not> is_unmergeable left" "\<not> is_unmergeable right" "\<not> (is_list left \<and> is_list right)" by blast
  then show ?thesis
  proof cases
    case lists
    then obtain u where "list_concatenate left right = Inr u" "well_formed u" "is_list u"
      using list_concatenate_ok assms by (auto simp: piece_ok_def)
    with lists False show ?thesis
      by (cases u; cases left) (auto simp: join_two_def joins_to_def bind_exc_def piece_ok_def)
  next
    case wait
    then have "\<not> is_concatenation left \<and> \<not> is_concatenation right" using assms by (simp add: piece_ok_def)
    with wait False show ?thesis by (auto simp: join_two_def joins_to_def)
  next
    case scalars
    then have "\<not> is_concatenation left \<and> \<not> is_concatenation right" using assms by (simp add: piece_ok_def)
    moreover obtain m where "merge_two (value_origin left) (value_origin right) = Inr m" "origin_named m"
      using merge_two_named well_formed_origin assms by (meson piece_ok_def)
    ultimately show ?thesis
      using scalars False by (auto simp: join_two_def joins_to_def bind_exc_def piece_ok_def Let_def)
  qed
qed

definition builder_ok :: "config_value list \<Rightarrow> bool" where
  "builder_ok b \<longleftrightarrow> (\<forall>v \<in> set b. piece_ok v) \<and> (length b \<ge> 2 \<longrightarrow> list_ex is_unmergeable b)"

lemma join_into_ok:
  "builder_ok b \<Longrightarrow> \<forall>v \<in> set vs. piece_ok v \<Longrightarrow>
   (\<exists>left. join_into fp b vs = Inl (cannot_concatenate left)) \<or>
   (\<exists>r. join_into fp b vs = Inr r \<and> builder_ok r \<and> (b \<noteq> [] \<or> vs \<noteq> [] \<longrightarrow> r \<noteq> []))"
proof (induction fp b vs rule: join_into.induct)
  case (2 fp v vs)
  then show ?case by (simp add: builder_ok_def)
next
  case (3 fp left builder v vs)
  have ok: "piece_ok left" "piece_ok v" using 3 by (auto simp: builder_ok_def)
  note step = join_two_ok [OF ok, of fp]
  show ?case
  proof (cases "join_two fp left v")
    case (Inl e)
    with step show ?thesis by (auto simp: joins_to_def bind_exc_def)
  next
    case (Inr r)
    show ?thesis
    proof (cases r)
      case None
      with step Inr 3(3) ok have "builder_ok (v # left # builder)" by (auto simp: joins_to_def builder_ok_def)
      with 3 Inr None show ?thesis by (simp add: bind_exc_def)
    next
      case (Some w)
      with step Inr 3(3) have "builder_ok (w # builder)" by (auto simp: joins_to_def builder_ok_def)
      with 3 Inr Some show ?thesis by (simp add: bind_exc_def)
    qed
  qed
qed auto

text \<open>A well-formed value that may stand in a concatenation.\<close>

definition part_ok :: "config_value \<Rightarrow> bool" where
  "part_ok v \<longleftrightarrow> well_formed v \<and> (\<forall>w \<in> set (flatten_piece v). open_value w)"

lemma part_ok_pieces: "part_ok v \<Longrightarrow> w \<in> set (flatten_piece v) \<Longrightarrow> piece_ok w"
  by (cases v) (auto simp: part_ok_def piece_ok_def list_ex_iff)

lemma piece_ok_part: "piece_ok v \<Longrightarrow> part_ok v"
  by (cases v) (auto simp: part_ok_def piece_ok_def)

lemma flatten_not_Nil: "part_ok v \<Longrightarrow> flatten_piece v \<noteq> []"
  by (cases v) (auto simp: part_ok_def)

lemma concatenation_of_builder:
  assumes "builder_ok r" "r \<noteq> []"
  shows "\<exists>v. (case rev r of [] \<Rightarrow> Inr None | [v] \<Rightarrow> Inr (Some v)
       | _ \<Rightarrow> bind_exc (merge_origins (map value_origin (rev r))) (\<lambda>orig.
                bind_exc (make_concatenation orig (rev r)) (\<lambda>v. Inr (Some v)))) = Inr (Some v) \<and> part_ok v"
proof (cases "rev r" rule: remdups_adj.cases)
  case (3 x y ys)
  have "length (rev r) \<ge> 2" unfolding 3 by simp
  then have um: "list_ex is_unmergeable (rev r)" and len: "length (rev r) \<ge> 2"
    using assms(1) by (auto simp: builder_ok_def list_ex_iff)
  have all: "\<forall>v \<in> set (rev r). well_formed v \<and> \<not> is_concatenation v \<and> open_value v"
    using assms(1) by (auto simp: builder_ok_def piece_ok_def)
  obtain m where m: "merge_origins (map value_origin (rev r)) = Inr m" "origin_named m"
    using merge_origins_named [of "map value_origin (rev r)"] all assms(2) well_formed_origin
    by (auto simp: list_all_iff)
  have "make_concatenation m (rev r) = Inr (ConfigConcatenation m (rev r))"
    using len all um by (auto simp: make_concatenation_def list_ex_iff)
  moreover have "part_ok (ConfigConcatenation m (rev r))"
    using m(2) len all um by (auto simp: part_ok_def list_ex_iff)
  ultimately show ?thesis using m(1) unfolding 3 by (simp add: bind_exc_def)
next
  case (2 x)
  then have "piece_ok x" using assms(1) by (cases r rule: rev_cases) (auto simp: builder_ok_def)
  with 2 piece_ok_part show ?thesis by auto
qed (use assms in auto)

lemma concatenate_part_ok:
  assumes "pieces \<noteq> []" and "\<forall>v \<in> set pieces. part_ok v"
  shows "(\<exists>left. concatenate fp pieces = Inl (cannot_concatenate left)) \<or>
         (\<exists>v. concatenate fp pieces = Inr (Some v) \<and> part_ok v)"
proof (cases "length pieces < 2")
  case True
  with assms(1) obtain v where "pieces = [v]" by (cases pieces) auto
  with assms(2) show ?thesis by (simp add: concatenate_def consolidate_def bind_exc_def)
next
  case False
  have ok: "\<forall>w \<in> set (concat (map flatten_piece pieces)). piece_ok w"
    using part_ok_pieces assms(2) by auto
  have ne: "concat (map flatten_piece pieces) \<noteq> []"
    using assms flatten_not_Nil by (cases pieces) auto
  have "builder_ok []" by (simp add: builder_ok_def)
  from join_into_ok [OF this ok, of fp] ne concatenation_of_builder show ?thesis
    using False by (auto simp: concatenate_def consolidate_def bind_exc_def)
qed

text \<open>
  C25: a concatenation of well-formed values, each open to fallbacks, is a well-formed value
  that may be concatenated again; the only exception is the report that an object or a list,
  or an empty text, stands next to a scalar.  None of the three internal errors of the
  constructor can be raised.
\<close>

theorem concatenate_well_formed:
  assumes "pieces \<noteq> []" and "\<forall>v \<in> set pieces. part_ok v"
  shows "(\<exists>left. concatenate fp pieces = Inl (cannot_concatenate left)) \<or>
         (\<exists>v. concatenate fp pieces = Inr (Some v) \<and> part_ok v)"
  using concatenate_part_ok [OF assms] .

theorem concatenate_well_formed_witness:
  "(\<exists>left. concatenate no_doubles [sample_ref, ConfigString sample_origin ''x''] = Inl (cannot_concatenate left)) \<or>
   (\<exists>v. concatenate no_doubles [sample_ref, ConfigString sample_origin ''x''] = Inr (Some v) \<and> part_ok v)"
  by (rule concatenate_well_formed) (simp_all add: sample_ref_def part_ok_def)

end
