(* ===== verification/Object_Paths.thy ===== *)
theory Object_Paths
  imports Config_Object "HOL-Library.AList"
begin

section \<open>Objects addressed by paths (abstract_config_object.cpp, simple_config_object.cpp)\<close>

text \<open>
  Looking a path up in an object and building the object with a path set, removed or
  kept alone.  Assigning \<^verbatim>\<open>m[key] = v\<close> is \<open>AList.update\<close>.  The operations are virtual; on
  a \<^verbatim>\<open>ConfigDelayedMergeObject\<close> all but the lookup raise, and the static types keep
  every other value away, which is the last clause of each definition.
\<close>

subsection \<open>Looking up\<close>

fun attempt_peek :: "config_value \<Rightarrow> string \<Rightarrow> config_exception + config_value option"
  and peek_layers :: "config_value list \<Rightarrow> string \<Rightarrow> config_exception + config_value option" where
  "attempt_peek (SimpleConfigObject _ ms _ _) key = Inr (map_of ms key)"
| "attempt_peek (ConfigDelayedMergeObject _ stack) key = peek_layers stack key"
| "attempt_peek _ key = Inl NullPointer"
| "peek_layers [] key =
     Inl (ConfigExceptionBugOrBroken ''_delayed merge stack does not contain any unmergeable values'')"
| "peek_layers (layer # layers) key =
     (if is_object layer
      then bind_exc (attempt_peek layer key) (\<lambda>v.
             case v of
               Some w \<Rightarrow> if ignores_fallbacks w then Inr (Some w) else peek_layers layers key
             | None \<Rightarrow>
                 if is_unmergeable layer
                 then Inl (ConfigExceptionBugOrBroken ''should not be reached: unmergeable object returned null value'')
                 else peek_layers layers key)
      else if is_unmergeable layer then Inl ConfigExceptionNotResolved
      else if value_status layer = UNRESOLVED
      then if \<not> is_list layer then Inl (ConfigExceptionBugOrBroken ''_expecting a list here, not '') else Inr None
      else if \<not> ignores_fallbacks layer
      then Inl (ConfigExceptionBugOrBroken ''resolved non-object should ignore fallbacks'')
      else Inr None)"

text \<open>\<^verbatim>\<open>peek_path\<close> without a resolve context.\<close>

fun peek_path :: "config_value \<Rightarrow> config_path \<Rightarrow> config_exception + config_value option" where
  "peek_path self (Path k next) =
     bind_exc (attempt_peek self k) (\<lambda>v.
       case next of
         None \<Rightarrow> Inr v
       | Some p \<Rightarrow>
           (case v of
              None \<Rightarrow> Inr None
            | Some w \<Rightarrow> if is_object w then peek_path w p else Inr None))"

subsection \<open>Building\<close>

fun with_only_path_or_null :: "config_value \<Rightarrow> config_path \<Rightarrow> config_exception + config_value option" where
  "with_only_path_or_null (SimpleConfigObject orig ms st ig) (Path key next) =
     bind_exc (case next of
                 None \<Rightarrow> Inr (map_of ms key)
               | Some p \<Rightarrow>
                   (case map_of ms key of
                      None \<Rightarrow> Inr None
                    | Some v \<Rightarrow> if is_object v then with_only_path_or_null v p else Inr None)) (\<lambda>v.
       case v of
         None \<Rightarrow> Inr None
       | Some v \<Rightarrow> bind_exc (make_object orig [(key, v)] (value_status v) ig) (\<lambda>obj. Inr (Some obj)))"
| "with_only_path_or_null (ConfigDelayedMergeObject _ _) path = Inl ConfigExceptionNotResolved"
| "with_only_path_or_null _ path = Inl NullPointer"

fun with_only_path :: "config_value \<Rightarrow> config_path \<Rightarrow> config_exception + config_value" where
  "with_only_path (SimpleConfigObject orig ms st ig) path =
     bind_exc (with_only_path_or_null (SimpleConfigObject orig ms st ig) path) (\<lambda>r.
       case r of None \<Rightarrow> make_object orig [] RESOLVED ig | Some obj \<Rightarrow> Inr obj)"
| "with_only_path (ConfigDelayedMergeObject _ _) path = Inl ConfigExceptionNotResolved"
| "with_only_path _ path = Inl NullPointer"

fun without_path :: "config_value \<Rightarrow> config_path \<Rightarrow> config_exception + config_value" where
  "without_path (SimpleConfigObject orig ms st ig) (Path key next) =
     (case (map_of ms key, next) of
        (None, _) \<Rightarrow> Inr (SimpleConfigObject orig ms st ig)
      | (Some v, Some p) \<Rightarrow>
          if is_object v
          then bind_exc (without_path v p) (\<lambda>v'.
                 let updated = AList.update key v' ms
                 in make_object orig updated (from_values (map snd updated)) ig)
          else Inr (SimpleConfigObject orig ms st ig)
      | (Some v, None) \<Rightarrow>
          let smaller = filter (\<lambda>e. fst e \<noteq> key) ms
          in make_object orig smaller (from_values (map snd smaller)) ig)"
| "without_path (ConfigDelayedMergeObject _ _) path = Inl ConfigExceptionNotResolved"
| "without_path _ path = Inl NullPointer"

text \<open>The object around a value at one key, and the chain of objects at a path.\<close>

definition at_key_origin :: "config_origin \<Rightarrow> string \<Rightarrow> config_value \<Rightarrow> config_exception + config_value" where
  "at_key_origin orig key v = new_object orig [(key, v)]"

definition at_key :: "string \<Rightarrow> config_value \<Rightarrow> config_exception + config_value" where
  "at_key key v = bind_exc (new_simple (''at_key('' @ key @ '')'')) (\<lambda>orig. at_key_origin orig key v)"

lemma parent_shorter: "parent p = Inr (Some q) \<Longrightarrow> path_length q < path_length p"
  using parent_ok [of p] by (auto simp: path_length_eq opt_keys_def)

function at_path_loop :: "config_origin \<Rightarrow> config_path \<Rightarrow> config_value \<Rightarrow> config_exception + config_value" where
  "at_path_loop orig p v =
     bind_exc (at_key_origin orig (path_last p) v) (\<lambda>result.
       case parent p of
         Inl e \<Rightarrow> Inl e
       | Inr None \<Rightarrow> Inr result
       | Inr (Some q) \<Rightarrow> at_path_loop orig q result)"
  by pat_completeness auto
termination
  by (relation "measure (\<lambda>(orig, p, v). path_length p)") (auto dest: parent_shorter)

declare at_path_loop.simps [simp del]

definition at_path_origin :: "config_origin \<Rightarrow> config_path \<Rightarrow> config_value \<Rightarrow> config_exception + config_value" where
  "at_path_origin orig p v = at_path_loop orig p v"

text \<open>\<^verbatim>\<open>with_value\<close> at a key, where \<open>None\<close> is the null pointer, and at a path.\<close>

fun with_value_key :: "config_value \<Rightarrow> string \<Rightarrow> config_value option \<Rightarrow> config_exception + config_value" where
  "with_value_key (SimpleConfigObject orig ms st ig) key v =
     (case v of
        None \<Rightarrow> Inl (ConfigExceptionBugOrBroken ''_trying to store nullConfigValue in a ConfigObject'')
      | Some v \<Rightarrow>
          let new_map = (if ms = [] then [(key, v)] else AList.update key v ms)
          in make_object orig new_map (from_values (map snd new_map)) ig)"
| "with_value_key (ConfigDelayedMergeObject _ _) key v = Inl ConfigExceptionNotResolved"
| "with_value_key _ key v = Inl NullPointer"

fun with_value :: "config_value \<Rightarrow> config_path \<Rightarrow> config_value \<Rightarrow> config_exception + config_value" where
  "with_value (SimpleConfigObject orig ms st ig) (Path key next) v =
     (let self = SimpleConfigObject orig ms st ig
      in case next of
           None \<Rightarrow> with_value_key self key (Some v)
         | Some p \<Rightarrow>
             (case map_of ms key of
                None \<Rightarrow>
                  bind_exc (new_simple (''with_value('' @ path_render p @ '')'')) (\<lambda>o'.
                  bind_exc (at_path_origin o' p v) (\<lambda>subtree. with_value_key self key (Some subtree)))
              | Some child \<Rightarrow>
                  if is_object child
                  then bind_exc (with_value child p v) (\<lambda>child'. with_value_key self key (Some child'))
                  else bind_exc (new_simple (''with_value('' @ path_render p @ '')'')) (\<lambda>o'.
                       bind_exc (at_path_origin o' p v) (\<lambda>subtree. with_value_key self key (Some subtree)))))"
| "with_value (ConfigDelayedMergeObject _ _) path v = Inl ConfigExceptionNotResolved"
| "with_value _ path v = Inl NullPointer"

subsection \<open>Lookups as a function of the keys\<close>

text \<open>
  The abstraction of a resolved object: the value below a list of keys.
\<close>

fun look :: "config_value \<Rightarrow> string list \<Rightarrow> config_value option" where
  "look v [] = Some v"
| "look (SimpleConfigObject _ ms _ _) (k # ks) = (case map_of ms k of None \<Rightarrow> None | Some w \<Rightarrow> look w ks)"
| "look _ (k # ks) = None"

lemma resolved_object:
  "resolved_ok v \<Longrightarrow> is_object v \<Longrightarrow> \<exists>orig ms ig. v = SimpleConfigObject orig ms RESOLVED ig"
  by (cases v) (auto simp: resolved_ok_def)

lemma resolved_member:
  "resolved_ok (SimpleConfigObject orig ms st ig) \<Longrightarrow> map_of ms k = Some v \<Longrightarrow> resolved_ok v"
  using resolved_members map_of_SomeD by force

lemma look_non_object: "\<not> is_simple_object v \<Longrightarrow> look v (k # ks) = None"
  by (cases v) auto

lemma peek_path_look:
  "resolved_ok v \<Longrightarrow> is_object v \<Longrightarrow> peek_path v p = Inr (look v (path_keys p))"
proof (induction v p rule: peek_path.induct)
  case (1 self k nxt)
  obtain orig ms ig where self: "self = SimpleConfigObject orig ms RESOLVED ig"
    using resolved_object [OF 1(2,3)] by blast
  show ?case
  proof (cases "map_of ms k")
    case None
    then show ?thesis by (cases nxt) (simp_all add: self bind_exc_def)
  next
    case (Some w)
    then have w: "resolved_ok w" using resolved_member 1(2) self by blast
    show ?thesis
    proof (cases nxt)
      case None
      with Some show ?thesis by (simp add: self bind_exc_def)
    next
      case (Some p)
      have "\<not> is_object w \<Longrightarrow> look w (path_keys p) = None"
        by (cases p; cases w) auto
      then show ?thesis
        using 1(1) Some \<open>map_of ms k = Some w\<close> w by (auto simp: self bind_exc_def)
    qed
  qed
qed

text \<open>Two paths that part at some key.\<close>

fun diverge :: "string list \<Rightarrow> string list \<Rightarrow> bool" where
  "diverge (k # ks) (l # ls) = (k \<noteq> l \<or> diverge ks ls)"
| "diverge _ _ = False"

lemma diverge_Cons: "diverge (k # ps) ks \<longleftrightarrow> (case ks of [] \<Rightarrow> False | l # ls \<Rightarrow> k \<noteq> l \<or> diverge ps ls)"
  by (cases ks) auto

lemma diverge_append:
  "diverge (xs @ ys) ks \<longleftrightarrow> diverge xs ks \<or> (\<exists>zs. ks = xs @ zs \<and> diverge ys zs)"
proof (induction xs arbitrary: ks)
  case (Cons x xs)
  then show ?case by (cases ks) auto
qed simp

lemma update_members:
  "\<forall>e \<in> set ms. P (snd e) \<Longrightarrow> P v \<Longrightarrow> \<forall>e \<in> set (AList.update k v ms). P (snd e)"
  by (induction ms) auto

lemma update_resolved:
  assumes "resolved_ok (SimpleConfigObject orig ms st ig)" "resolved_ok v"
  shows "resolved_ok (SimpleConfigObject orig (AList.update k v ms) RESOLVED ig)"
    and "from_values (map snd (AList.update k v ms)) = RESOLVED"
proof -
  have vals: "\<forall>e \<in> set (AList.update k v ms). resolved_ok (snd e)"
    using update_members [of ms resolved_ok] resolved_members [OF assms(1)] assms(2) by blast
  then show st: "from_values (map snd (AList.update k v ms)) = RESOLVED"
    by (intro all_resolved_status) (auto simp: resolved_ok_def)
  have "distinct (map fst (AList.update k v ms))"
    using assms(1) by (simp add: resolved_ok_def distinct_update)
  then show "resolved_ok (SimpleConfigObject orig (AList.update k v ms) RESOLVED ig)"
    using vals st assms(1) by (simp add: resolved_ok_def)
qed

lemma at_key_resolved:
  assumes "origin_named orig" "resolved_ok v"
  shows "at_key_origin orig k v = Inr (SimpleConfigObject orig [(k, v)] RESOLVED False)"
    and "resolved_ok (SimpleConfigObject orig [(k, v)] RESOLVED False)"
  using assms by (simp_all add: at_key_origin_def new_object_def make_object_def resolved_ok_def)

lemma at_path_look:
  "origin_named orig \<Longrightarrow> resolved_ok v \<Longrightarrow>
   \<exists>r. at_path_loop orig p v = Inr r \<and> resolved_ok r \<and> is_object r \<and>
       (\<forall>ks. look r (path_keys p @ ks) = look v ks) \<and> (\<forall>ks. diverge (path_keys p) ks \<longrightarrow> look r ks = None)"
proof (induction orig p v rule: at_path_loop.induct)
  case (1 orig p v)
  let ?r = "SimpleConfigObject orig [(path_last p, v)] RESOLVED False"
  note r = at_key_resolved [OF 1(2,3), of "path_last p"]
  obtain q where q: "parent p = Inr q" "opt_keys q = butlast (path_keys p)"
    using parent_ok by blast
  have keys: "path_keys p = opt_keys q @ [path_last p]"
    using q(2) by (simp add: path_last_eq)
  have step: "at_path_loop orig p v = (case q of None \<Rightarrow> Inr ?r | Some q \<Rightarrow> at_path_loop orig q ?r)"
    using q(1) r(1) by (subst at_path_loop.simps) (simp add: bind_exc_def split: option.split)
  have one: "diverge [path_last p] zs \<Longrightarrow> look ?r zs = None" for zs
    by (cases zs) auto
  show ?case
  proof (cases q)
    case None
    with keys step one r(2) show ?thesis by (auto simp: opt_keys_def)
  next
    case (Some q')
    then obtain u where u: "at_path_loop orig q' ?r = Inr u" "resolved_ok u" "is_object u"
      "\<forall>ks. look u (path_keys q' @ ks) = look ?r ks" "\<forall>ks. diverge (path_keys q') ks \<longrightarrow> look u ks = None"
      using 1(1) [OF q(1) Some 1(2) r(2)] by auto
    have kq: "path_keys p = path_keys q' @ [path_last p]" using keys Some by (simp add: opt_keys_def)
    have "look u (path_keys p @ ks) = look v ks" for ks
      using u(4) kq by simp
    moreover have "look u ks = None" if "diverge (path_keys p) ks" for ks
      using that u(4,5) one unfolding kq diverge_append by auto
    ultimately show ?thesis using step Some u(1-3) by auto
  qed
qed

lemma with_value_origin: "\<exists>orig. new_simple (''with_value('' @ s) = Inr orig \<and> origin_named orig"
  by (simp add: new_simple_def make_origin_def origin_named_def named_text.simps starts_with_def merge_of_prefix_def)

lemma put_resolved:
  assumes "resolved_ok (SimpleConfigObject orig ms st ig)" "resolved_ok v"
  shows "\<exists>r. with_value_key (SimpleConfigObject orig ms st ig) k (Some v) = Inr r \<and> resolved_ok r \<and> is_object r \<and>
    (\<forall>l ls. look r (l # ls) = (if l = k then look v ls else look (SimpleConfigObject orig ms st ig) (l # ls)))"
proof -
  let ?r = "SimpleConfigObject orig (AList.update k v ms) RESOLVED ig"
  have "with_value_key (SimpleConfigObject orig ms st ig) k (Some v) = Inr ?r"
    using update_resolved [OF assms, of k] by (cases ms) (auto simp: make_object_def Let_def)
  then show ?thesis
    using update_resolved(1) [OF assms, of k] by (auto simp: update_conv')
qed

lemma with_value_look:
  "resolved_ok obj \<Longrightarrow> is_object obj \<Longrightarrow> resolved_ok v \<Longrightarrow>
   \<exists>r. with_value obj p v = Inr r \<and> resolved_ok r \<and> is_object r \<and>
       (\<forall>ks. look r (path_keys p @ ks) = look v ks) \<and>
       (\<forall>ks. diverge (path_keys p) ks \<longrightarrow> look r ks = look obj ks)"
proof (induction obj p v rule: with_value.induct)
  case (1 orig ms st ig key nxt v)
  let ?self = "SimpleConfigObject orig ms st ig"
  have finish: ?case if w: "resolved_ok w" "with_value ?self (Path key nxt) v = with_value_key ?self key (Some w)"
    "\<forall>ks. look w (opt_keys nxt @ ks) = look v ks"
    "\<forall>ks. diverge (opt_keys nxt) ks \<longrightarrow> look w ks = look ?self (key # ks)" for w
  proof -
    obtain r where r: "with_value_key ?self key (Some w) = Inr r" "resolved_ok r" "is_object r"
      "\<forall>l ls. look r (l # ls) = (if l = key then look w ls else look ?self (l # ls))"
      using put_resolved [OF 1(2) w(1)] by blast
    have k: "path_keys (Path key nxt) = key # opt_keys nxt"
      by (simp add: opt_keys_def)
    have "look r ks = look ?self ks" if "diverge (path_keys (Path key nxt)) ks" for ks
      using that w(4) r(4) unfolding k by (cases ks) auto
    with r w(2,3) show ?thesis unfolding k by simp
  qed
  show ?case
  proof (cases nxt)
    case None
    with finish [OF 1(4)] show ?thesis by (simp add: opt_keys_def)
  next
    case (Some p)
    show ?thesis
    proof (cases "\<exists>child. map_of ms key = Some child \<and> is_object child")
      case True
      then obtain child where child: "map_of ms key = Some child" "is_object child" by blast
      obtain w where "with_value child p v = Inr w" "resolved_ok w"
        "\<forall>ks. look w (path_keys p @ ks) = look v ks" "\<forall>ks. diverge (path_keys p) ks \<longrightarrow> look w ks = look child ks"
        using 1(1) [OF refl Some child] resolved_member [OF 1(2) child(1)] child(2) 1(4) by blast
      with Some child show ?thesis
        by (intro finish [of w]) (simp_all add: opt_keys_def bind_exc_def)
    next
      case False
      obtain o' where o': "new_simple (''with_value('' @ path_render p @ '')'') = Inr o'" "origin_named o'"
        using with_value_origin by blast
      obtain w where "at_path_origin o' p v = Inr w" "resolved_ok w"
        "\<forall>ks. look w (path_keys p @ ks) = look v ks" "\<forall>ks. diverge (path_keys p) ks \<longrightarrow> look w ks = None"
        using at_path_look [OF o'(2) 1(4), of p] unfolding at_path_origin_def by blast
      moreover have "diverge (path_keys p) ks \<Longrightarrow> look ?self (key # ks) = None" for ks
        using False by (cases ks; cases "map_of ms key"; cases "the (map_of ms key)") auto
      moreover have "with_value ?self (Path key nxt) v = with_value_key ?self key (Some w)"
        using False o'(1) Some \<open>at_path_origin o' p v = Inr w\<close>
        by (cases "map_of ms key") (simp_all add: bind_exc_def Let_def del: append.simps with_value_key.simps)
      ultimately show ?thesis
        using Some by (intro finish [of w]) (auto simp: opt_keys_def)
    qed
  qed
qed (auto simp: resolved_ok_def)

text \<open>
  C23: setting a path.  On a resolved object \<^verbatim>\<open>with_value\<close> succeeds, the path then holds
  the value, every path that parts from it holds what it held before, and a value in the
  way that is no object is replaced.
\<close>

theorem with_value_then_peek:
  assumes "resolved_ok obj" and "is_object obj" and "resolved_ok v"
  shows "\<exists>r. with_value obj p v = Inr r \<and> resolved_ok r \<and> peek_path r p = Inr (Some v) \<and>
    (diverge (path_keys p) (path_keys q) \<longrightarrow> peek_path r q = peek_path obj q)"
proof -
  obtain r where r: "with_value obj p v = Inr r" "resolved_ok r" "is_object r"
    "\<forall>ks. look r (path_keys p @ ks) = look v ks"
    "\<forall>ks. diverge (path_keys p) ks \<longrightarrow> look r ks = look obj ks"
    using with_value_look [OF assms, of p] by blast
  from r(4) [rule_format, of "[]"] have "look r (path_keys p) = Some v" by simp
  with r assms show ?thesis by (simp add: peek_path_look)
qed

theorem with_value_then_peek_witness:
  "\<exists>r. with_value (sample_object [(''a'', ConfigNull sample_origin)]) (Path ''a'' (Some (Path ''b'' None)))
         (ConfigBoolean sample_origin True) = Inr r
     \<and> peek_path r (Path ''a'' (Some (Path ''b'' None))) = Inr (Some (ConfigBoolean sample_origin True))"
  using with_value_then_peek [of "sample_object [(''a'', ConfigNull sample_origin)]"
      "ConfigBoolean sample_origin True" "Path ''a'' (Some (Path ''b'' None))"]
  by (auto simp: resolved_ok_def sample_object_def)

subsection \<open>Removing and keeping a path\<close>

lemma filter_resolved:
  assumes "resolved_ok (SimpleConfigObject orig ms st ig)"
  shows "resolved_ok (SimpleConfigObject orig (filter P ms) RESOLVED ig)"
    and "from_values (map snd (filter P ms)) = RESOLVED"
proof -
  show st: "from_values (map snd (filter P ms)) = RESOLVED"
    using resolved_members [OF assms] by (intro all_resolved_status) (auto simp: resolved_ok_def)
  show "resolved_ok (SimpleConfigObject orig (filter P ms) RESOLVED ig)"
    using assms st by (auto simp: resolved_ok_def distinct_map_filter)
qed

text \<open>What a lookup sees once the path \<open>ps\<close> is gone.\<close>

definition pruned :: "string list \<Rightarrow> config_value \<Rightarrow> config_value \<Rightarrow> bool" where
  "pruned ps obj r \<longleftrightarrow>
     (\<forall>ks. look r (ps @ ks) = None) \<and> (\<forall>ks. diverge ps ks \<longrightarrow> look r ks = look obj ks)"

lemma without_path_look:
  "resolved_ok obj \<Longrightarrow> is_object obj \<Longrightarrow>
   \<exists>r. without_path obj p = Inr r \<and> resolved_ok r \<and> is_object r \<and> pruned (path_keys p) obj r"
proof (induction obj p rule: without_path.induct)
  case (1 orig ms st ig key nxt)
  let ?self = "SimpleConfigObject orig ms st ig"
  have k: "path_keys (Path key nxt) = key # opt_keys nxt" by (simp add: opt_keys_def)
  consider "map_of ms key = None" | v where "map_of ms key = Some v" "nxt = None"
    | v p where "map_of ms key = Some v" "nxt = Some p" "\<not> is_object v"
    | v p where "map_of ms key = Some v" "nxt = Some p" "is_object v"
    by (cases "map_of ms key"; cases nxt) auto
  then show ?case
  proof cases
    case 1
    with "1.prems" show ?thesis unfolding k pruned_def by simp
  next
    case (2 v)
    let ?ms = "filter (\<lambda>e. fst e \<noteq> key) ms"
    have "map_of ?ms l = (if l = key then None else map_of ms l)" for l
      using map_of_filter_keys [of "{key}" ms l] by simp
    then have "pruned [key] ?self (SimpleConfigObject orig ?ms RESOLVED ig)"
      unfolding pruned_def diverge_Cons by (auto split: list.splits)
    with 2 filter_resolved [OF "1.prems"(1)] show ?thesis
      unfolding k by (simp add: opt_keys_def make_object_def)
  next
    case (3 v p)
    then have "look ?self (key # path_keys p @ ks) = None" for ks
      by (cases p; cases v) auto
    with 3 "1.prems" show ?thesis unfolding k pruned_def by (simp add: opt_keys_def)
  next
    case (4 v p)
    have v: "resolved_ok v" using resolved_member "1.prems"(1) 4(1) by blast
    obtain r where r: "without_path v p = Inr r" "resolved_ok r" "pruned (path_keys p) v r"
      using "1.IH" [OF _ 4(1) 4(2) 4(3) v 4(3)] by auto
    have "pruned (key # path_keys p) ?self (SimpleConfigObject orig (AList.update key r ms) RESOLVED ig)"
      using r(3) 4(1) unfolding pruned_def diverge_Cons
      by (auto simp: update_conv' split: list.splits)
    with r(1,2) 4 update_resolved [OF "1.prems"(1) r(2), of key] show ?thesis
      unfolding k by (simp add: opt_keys_def bind_exc_def make_object_def Let_def)
  qed
qed (auto simp: resolved_ok_def)

definition only_path :: "string list \<Rightarrow> config_value \<Rightarrow> config_value \<Rightarrow> bool" where
  "only_path ps obj r \<longleftrightarrow>
     (\<forall>ks. look r (ps @ ks) = look obj (ps @ ks)) \<and> (\<forall>ks. diverge ps ks \<longrightarrow> look r ks = None)"

lemma look_append_None: "look v ps = None \<Longrightarrow> look v (ps @ ks) = None"
  by (induction v ps rule: look.induct) (auto split: option.splits)

lemma with_only_path_or_null_look:
  "resolved_ok obj \<Longrightarrow> is_object obj \<Longrightarrow>
   \<exists>r. with_only_path_or_null obj p = Inr r \<and>
       (case r of
          None \<Rightarrow> look obj (path_keys p) = None
        | Some u \<Rightarrow> resolved_ok u \<and> is_object u \<and> only_path (path_keys p) obj u)"
proof (induction obj p rule: with_only_path_or_null.induct)
  case (1 orig ms st ig key nxt)
  let ?self = "SimpleConfigObject orig ms st ig"
  have k: "path_keys (Path key nxt) = key # opt_keys nxt" by (simp add: opt_keys_def)
  have orig: "origin_named orig" using "1.prems"(1) by (auto simp: resolved_ok_def)
  have finish: ?case
    if v: "resolved_ok v" "with_only_path_or_null ?self (Path key nxt)
              = bind_exc (make_object orig [(key, v)] (value_status v) ig) (\<lambda>obj. Inr (Some obj))"
      "\<forall>ks. look v (opt_keys nxt @ ks) = look ?self (key # opt_keys nxt @ ks)"
      "\<forall>ks. diverge (opt_keys nxt) ks \<longrightarrow> look v ks = None" for v
  proof -
    let ?r = "SimpleConfigObject orig [(key, v)] RESOLVED ig"
    have "with_only_path_or_null ?self (Path key nxt) = Inr (Some ?r)" "resolved_ok ?r"
      using v(1,2) orig by (simp_all add: make_object_def resolved_ok_def bind_exc_def)
    moreover have "only_path (key # opt_keys nxt) ?self ?r"
      using v(3,4) unfolding only_path_def diverge_Cons by (auto split: list.splits)
    ultimately show ?thesis unfolding k by simp
  qed
  consider "map_of ms key = None" | v where "map_of ms key = Some v" "nxt = None"
    | v p where "map_of ms key = Some v" "nxt = Some p" "\<not> is_object v"
    | v p where "map_of ms key = Some v" "nxt = Some p" "is_object v"
    by (cases "map_of ms key"; cases nxt) auto
  then show ?case
  proof cases
    case 1
    then show ?thesis unfolding k by (simp add: bind_exc_def split: option.split)
  next
    case (2 v)
    with finish [of v] resolved_member [OF "1.prems"(1)] show ?thesis
      by (simp add: opt_keys_def bind_exc_def)
  next
    case (3 v p)
    then have "look ?self (key # path_keys p) = None" by (cases p; cases v) auto
    with 3 show ?thesis unfolding k by (simp add: opt_keys_def bind_exc_def)
  next
    case (4 v p)
    have v: "resolved_ok v" using resolved_member "1.prems"(1) 4(1) by blast
    obtain r where r: "with_only_path_or_null v p = Inr r"
      "case r of None \<Rightarrow> look v (path_keys p) = None
         | Some u \<Rightarrow> resolved_ok u \<and> is_object u \<and> only_path (path_keys p) v u"
      using "1.IH" [OF 4(2) 4(1) 4(3) v 4(3)] by blast
    show ?thesis
    proof (cases r)
      case None
      with r 4 show ?thesis unfolding k by (simp add: opt_keys_def bind_exc_def)
    next
      case (Some u)
      with r 4 show ?thesis
        by (intro finish [of u]) (auto simp: opt_keys_def bind_exc_def only_path_def)
    qed
  qed
qed (auto simp: resolved_ok_def)

lemma with_only_path_look:
  assumes "resolved_ok obj" "is_object obj"
  shows "\<exists>r. with_only_path obj p = Inr r \<and> resolved_ok r \<and> is_object r \<and> only_path (path_keys p) obj r"
proof -
  obtain orig ms ig where obj: "obj = SimpleConfigObject orig ms RESOLVED ig"
    using resolved_object [OF assms] by blast
  obtain r where r: "with_only_path_or_null obj p = Inr r"
    "case r of None \<Rightarrow> look obj (path_keys p) = None
       | Some u \<Rightarrow> resolved_ok u \<and> is_object u \<and> only_path (path_keys p) obj u"
    using with_only_path_or_null_look [OF assms] by blast
  show ?thesis
  proof (cases r)
    case None
    let ?e = "SimpleConfigObject orig [] RESOLVED ig"
    have "look ?e (path_keys p @ ks) = None" for ks by (cases p) simp
    moreover have "diverge (path_keys p) ks \<Longrightarrow> look ?e ks = None" for ks by (cases ks) auto
    ultimately have "only_path (path_keys p) obj ?e"
      using r(2) None by (simp add: only_path_def look_append_None)
    with r(1) None assms(1) show ?thesis
      by (simp add: obj bind_exc_def make_object_def resolved_ok_def)
  qed (use r obj in \<open>simp add: bind_exc_def\<close>)
qed

text \<open>
  C24: taking a configuration apart at a path.  On a resolved object \<^verbatim>\<open>without_path\<close> leaves
  nothing at the path and everything that parts from it, \<^verbatim>\<open>with_only_path\<close> leaves the path
  and nothing that parts from it.
\<close>

theorem split_at_path:
  assumes "resolved_ok obj" and "is_object obj"
  shows "\<exists>r u. without_path obj p = Inr r \<and> with_only_path obj p = Inr u \<and> resolved_ok r \<and> resolved_ok u \<and>
     peek_path r p = Inr None \<and> peek_path u p = peek_path obj p \<and>
     (diverge (path_keys p) (path_keys q) \<longrightarrow> peek_path r q = peek_path obj q \<and> peek_path u q = Inr None)"
proof -
  obtain r where r: "without_path obj p = Inr r" "resolved_ok r" "is_object r" "pruned (path_keys p) obj r"
    using without_path_look [OF assms] by blast
  obtain u where u: "with_only_path obj p = Inr u" "resolved_ok u" "is_object u" "only_path (path_keys p) obj u"
    using with_only_path_look [OF assms] by blast
  have "look r (path_keys p) = None" "look u (path_keys p) = look obj (path_keys p)"
    using r(4) u(4) unfolding pruned_def only_path_def by (metis append_Nil2)+
  with r u assms show ?thesis
    by (simp add: peek_path_look pruned_def only_path_def)
qed

theorem split_at_path_witness:
  "\<exists>r u. without_path (sample_object [(''a'', ConfigNull sample_origin), (''b'', ConfigNull sample_origin)])
           (Path ''a'' None) = Inr r
     \<and> with_only_path (sample_object [(''a'', ConfigNull sample_origin), (''b'', ConfigNull sample_origin)])
           (Path ''a'' None) = Inr u
     \<and> peek_path r (Path ''b'' None) = Inr (Some (ConfigNull sample_origin)) \<and> peek_path u (Path ''b'' None) = Inr None"
  using split_at_path [of "sample_object [(''a'', ConfigNull sample_origin), (''b'', ConfigNull sample_origin)]"
      "Path ''a'' None" "Path ''b'' None"]
  by (auto simp: resolved_ok_def sample_object_def bind_exc_def)

end
