(* ===== verification/Double_Arith.thy ===== *)
theory Double_Arith
  imports Config_Value "HOL-Library.Log_Nat"
begin

section \<open>Arithmetic on doubles\<close>

text \<open>
  The three operations on IEEE doubles the configuration library uses, on bit patterns:
  the truncating cast to \<^verbatim>\<open>int64_t\<close>, the conversion of an integer, and the product,
  the last two rounded to nearest with ties to even.  A cast out of range gives the
  smallest integer, as the processors the program runs on do.
\<close>

record double_parts =
  dp_neg :: bool
  dp_mant :: int
  dp_exp :: int
  dp_special :: bool

definition double_decode :: "double \<Rightarrow> double_parts" where
  "double_decode d =
     (let b = uint d; e = b div 2 ^ 52 mod 2 ^ 11; m = b mod 2 ^ 52
      in \<lparr>dp_neg = (2 ^ 63 \<le> b), dp_mant = (if e = 0 \<or> e = 2047 then m else m + 2 ^ 52),
          dp_exp = (if e = 0 then 1 else e) - 1075, dp_special = (e = 2047)\<rparr>)"

definition double_trunc :: "double \<Rightarrow> int" where
  "double_trunc d =
     (let p = double_decode d;
          a = (if 0 \<le> dp_exp p then dp_mant p * 2 ^ nat (dp_exp p) else dp_mant p div 2 ^ nat (- dp_exp p));
          v = (if dp_neg p then - a else a)
      in if dp_special p \<or> v < int64_min \<or> int64_max < v then int64_min else v)"

text \<open>\<open>shift_round m s\<close> is \<^verbatim>\<open>m / 2^s\<close> rounded to an integer.\<close>

definition shift_round :: "int \<Rightarrow> int \<Rightarrow> int" where
  "shift_round m s =
     (if s \<le> 0 then m * 2 ^ nat (- s)
      else let q = m div 2 ^ nat s; r = m mod 2 ^ nat s; half = 2 ^ (nat s - 1)
           in if r > half \<or> r = half \<and> odd q then q + 1 else q)"

definition sign_bit :: "bool \<Rightarrow> int" where
  "sign_bit neg = (if neg then 2 ^ 63 else 0)"

definition double_infinity :: "bool \<Rightarrow> double" where
  "double_infinity neg = word_of_int (sign_bit neg + 2047 * 2 ^ 52)"

definition double_nan :: double where
  "double_nan = word_of_int (2047 * 2 ^ 52 + 2 ^ 51)"

text \<open>The double nearest to \<^verbatim>\<open>m * 2^e\<close> with a sign.\<close>

definition double_round :: "bool \<Rightarrow> int \<Rightarrow> int \<Rightarrow> double" where
  "double_round neg m e =
     (if m = 0 then word_of_int (sign_bit neg)
      else let ex = max (e + bitlen m - 53) (- 1074);
               q = shift_round m (ex - e);
               q' = (if q = 2 ^ 53 then 2 ^ 52 else q);
               ex' = (if q = 2 ^ 53 then ex + 1 else ex)
           in if ex' > 971 then double_infinity neg
              else word_of_int (sign_bit neg + (if q' < 2 ^ 52 then q' else (ex' + 1074) * 2 ^ 52 + q')))"

definition double_of_int :: "int \<Rightarrow> double" where
  "double_of_int i = double_round (i < 0) \<bar>i\<bar> 0"

definition double_times :: "double \<Rightarrow> double \<Rightarrow> double" where
  "double_times a b =
     (let p = double_decode a; q = double_decode b; neg = (dp_neg p \<noteq> dp_neg q)
      in if dp_special p \<and> dp_mant p \<noteq> 0 \<or> dp_special q \<and> dp_mant q \<noteq> 0 \<or>
            dp_special p \<and> \<not> dp_special q \<and> dp_mant q = 0 \<or> dp_special q \<and> \<not> dp_special p \<and> dp_mant p = 0
         then double_nan
         else if dp_special p \<or> dp_special q then double_infinity neg
         else double_round neg (dp_mant p * dp_mant q) (dp_exp p + dp_exp q))"

subsection \<open>Whole numbers\<close>

text \<open>Integers of at most 53 bits are doubles, and the cast gives them back.\<close>

lemma decode_of_bits:
  assumes "0 \<le> f" "f < 2 ^ 52" "0 \<le> e" "e < 2047"
  shows "double_decode (word_of_int (sign_bit neg + (e * 2 ^ 52 + f))) =
    \<lparr>dp_neg = neg, dp_mant = (if e = 0 then f else f + 2 ^ 52), dp_exp = (if e = 0 then 1 else e) - 1075, dp_special = False\<rparr>"
proof -
  let ?b = "sign_bit neg + (e * 2 ^ 52 + f)"
  have r: "0 \<le> ?b" "?b < 2 ^ 64" using assms by (auto simp: sign_bit_def)
  then have u: "uint (word_of_int ?b :: double) = ?b" by (simp only: uint_word_of_int) (simp add: mod_pos_pos_trivial)
  define k where "k = (if neg then 2 ^ 11 + e else e)"
  have b: "?b = f + k * 2 ^ 52" by (simp add: sign_bit_def k_def)
  have m: "?b mod 2 ^ 52 = f" unfolding b using assms(1,2) by simp
  have "?b div 2 ^ 52 = k" unfolding b using assms(1,2) by simp
  then have e: "?b div 2 ^ 52 mod 2 ^ 11 = e" using assms(3,4) by (simp add: k_def)
  have neg: "(2 ^ 63 \<le> ?b) = neg" using assms by (auto simp: sign_bit_def)
  show ?thesis
    unfolding double_decode_def u Let_def m e neg using assms(4) by simp
qed

lemma trunc_of_int:
  assumes "\<bar>i\<bar> \<le> 2 ^ 53"
  shows "double_trunc (double_of_int i) = i"
proof (cases "i = 0")
  case True
  then show ?thesis by (simp add: double_of_int_def double_round_def sign_bit_def double_trunc_def double_decode_def int_limits)
next
  case False
  define m where "m = \<bar>i\<bar>"
  have m: "0 < m" "m \<le> 2 ^ 53" using False assms by (auto simp: m_def)
  define n where "n = bitlen m"
  have n: "2 ^ nat (n - 1) \<le> m" "m < 2 ^ nat n" "n > 0"
    using bitlen_bounds [OF m(1)] bitlen_eq_zero_iff [of m] bitlen_nonneg [of m] m(1) unfolding n_def by auto
  have n54: "n \<le> 54"
  proof (rule ccontr)
    assume "\<not> n \<le> 54"
    then have "(2::int) ^ 54 \<le> 2 ^ nat (n - 1)" by (intro power_increasing) auto
    with n(1) m(2) show False by simp
  qed
  let ?neg = "i < 0"
  have dec: "double_decode (double_of_int i) = \<lparr>dp_neg = ?neg, dp_mant = q, dp_exp = ex, dp_special = False\<rparr>"
    if q: "q = (if n = 54 then 2 ^ 52 else m * 2 ^ nat (53 - n))" and ex: "ex = n - 53" for q ex
  proof -
    have qr: "2 ^ 52 \<le> q" "q < 2 ^ 53"
    proof -
      have "q = m * 2 ^ nat (53 - n)" "n \<le> 53" if "n \<noteq> 54" using that n54 q by auto
      moreover have "2 ^ nat (n - 1) * 2 ^ nat (53 - n) = (2::int) ^ 52" if "n \<le> 53"
        using that n(3) by (simp flip: power_add nat_add_distrib)
      moreover have "2 ^ nat n * 2 ^ nat (53 - n) = (2::int) ^ 53" if "n \<le> 53"
        using that n(3) by (simp flip: power_add nat_add_distrib)
      ultimately have "2 ^ 52 \<le> q \<and> q < 2 ^ 53" if "n \<noteq> 54"
        using that n(1,2) by (metis mult_right_mono mult_strict_right_mono zero_le_numeral zero_le_power zero_less_numeral zero_less_power)
      moreover have "2 ^ 52 \<le> q \<and> q < 2 ^ 53" if "n = 54" using that q by simp
      ultimately show "2 ^ 52 \<le> q" "q < 2 ^ 53" by blast+
    qed
    have exm: "max (0 + bitlen m - 53) (- 1074) = ex" using n(3) unfolding ex n_def by simp
    have "shift_round m (ex - 0) = q"
    proof (cases "n = 54")
      case True
      then have "m = 2 ^ 53" using n(1) m(2) by simp
      with True q ex show ?thesis by (simp add: shift_round_def)
    next
      case False
      with q ex n54 show ?thesis by (simp add: shift_round_def)
    qed
    then have "double_round ?neg m 0 = word_of_int (sign_bit ?neg + ((ex + 1074) * 2 ^ 52 + q))"
      unfolding double_round_def exm Let_def using m qr n54 ex by auto
    also have "(ex + 1074) * 2 ^ 52 + q = (ex + 1075) * 2 ^ 52 + (q - 2 ^ 52)" by simp
    finally show ?thesis
      using decode_of_bits [of "q - 2 ^ 52" "ex + 1075" ?neg] qr n(3) n54 ex unfolding double_of_int_def m_def by simp
  qed
  have "(if 0 \<le> n - 53 then (if n = 54 then 2 ^ 52 else m * 2 ^ nat (53 - n)) * 2 ^ nat (n - 53)
      else (if n = 54 then 2 ^ 52 else m * 2 ^ nat (53 - n)) div 2 ^ nat (- (n - 53))) = m"
  proof (cases "n = 54")
    case True
    then have "m = 2 ^ 53" using n(1) m(2) by simp
    with True show ?thesis by simp
  next
    case False
    then show ?thesis using n54 by (cases "n = 53") auto
  qed
  moreover have "int64_min \<le> i" "i \<le> int64_max" using assms by (auto simp: int_limits)
  ultimately show ?thesis
    unfolding double_trunc_def dec [OF refl refl] Let_def by (auto simp: m_def)
qed

end
