(* ===== verification/Simple_Config.thy ===== *)
theory Simple_Config
  imports Object_Paths Path_Parser Double_Arith
begin

section \<open>The configuration API (config/src/detail/simple_config.cpp)\<close>

text \<open>
  \<^verbatim>\<open>SimpleConfig\<close> wraps an object, and the model passes the object.  The getters take a
  path expression, walk the object and convert the value found.  An \<^verbatim>\<open>int64_t\<close> is an
  \<open>int\<close> in range, a \<^verbatim>\<open>uint64_t\<close> a \<open>64 word\<close>; a product of signed integers wraps, as
  it does on the processors the program runs on.  \<^verbatim>\<open>improve_not_resolved\<close> replaces the
  text of an exception that the model does not keep.
\<close>

subsection \<open>Finding a value\<close>

fun peek_assuming_resolved :: "config_value \<Rightarrow> string \<Rightarrow> config_exception + config_value option" where
  "peek_assuming_resolved self key = attempt_peek self key"

definition check_found ::
  "fp_text \<Rightarrow> config_value_type \<Rightarrow> config_path \<Rightarrow> config_value \<Rightarrow> config_exception + config_value" where
  "check_found fp expected original_path found =
     bind_exc (if expected \<noteq> NONE then transform fp found expected else Inr found) (\<lambda>v.
     bind_exc (value_type v) (\<lambda>t.
       if t = NONE
       then Inl (ConfigExceptionNull (value_origin v) (path_render original_path)
                   (if expected \<noteq> NONE then value_type_name expected else []))
       else if expected \<noteq> NONE \<and> t \<noteq> expected
       then Inl (ConfigExceptionWrongType (Some (value_origin v)) (path_render original_path)
                   (value_type_name expected) (value_type_name t))
       else Inr v))"

definition find_key ::
  "fp_text \<Rightarrow> config_value \<Rightarrow> string \<Rightarrow> config_value_type \<Rightarrow> config_path \<Rightarrow> config_exception + config_value" where
  "find_key fp self key expected original_path =
     bind_exc (peek_assuming_resolved self key) (\<lambda>v.
       case v of
         None \<Rightarrow> Inl (ConfigExceptionMissing (path_render original_path))
       | Some v \<Rightarrow> check_found fp expected original_path v)"

fun find_at ::
  "fp_text \<Rightarrow> config_value \<Rightarrow> config_path \<Rightarrow> config_value_type \<Rightarrow> config_path \<Rightarrow> config_exception + config_value" where
  "find_at fp self (Path key next) expected original_path =
     (case next of
        None \<Rightarrow> find_key fp self key expected original_path
      | Some p \<Rightarrow>
          bind_exc (sub_path original_path 0 (path_length original_path - path_length p)) (\<lambda>here.
          case here of
            None \<Rightarrow> Inl NullPointer
          | Some here \<Rightarrow>
              bind_exc (find_key fp self key OBJECT here) (\<lambda>o'. find_at fp o' p expected original_path)))"

definition path_of :: "fp_text \<Rightarrow> string \<Rightarrow> tok_exception + config_path" where
  "path_of fp path_expression =
     bind_exc (new_path fp path_expression) (\<lambda>r.
       case r of None \<Rightarrow> Inl (TokException NullPointer) | Some p \<Rightarrow> Inr p)"

definition find_value :: "fp_text \<Rightarrow> config_value \<Rightarrow> string \<Rightarrow> config_value_type \<Rightarrow> tok_exception + config_value" where
  "find_value fp self path_expression expected =
     bind_exc (path_of fp path_expression) (\<lambda>path. lift_exc (find_at fp self path expected path))"

definition has_path :: "fp_text \<Rightarrow> config_value \<Rightarrow> string \<Rightarrow> tok_exception + bool" where
  "has_path fp self path_expression =
     bind_exc (path_of fp path_expression) (\<lambda>path.
       lift_exc (bind_exc (peek_path self path) (\<lambda>peeked.
         case peeked of None \<Rightarrow> Inr False | Some v \<Rightarrow> bind_exc (value_type v) (\<lambda>t. Inr (t \<noteq> NONE)))))"

text \<open>The members of an object as its iterators give them.\<close>

fun entries :: "config_value \<Rightarrow> config_exception + (string \<times> config_value) list" where
  "entries (SimpleConfigObject _ ms _ _) = Inr ms"
| "entries (ConfigDelayedMergeObject _ _) = Inl ConfigExceptionNotResolved"
| "entries _ = Inl NullPointer"

definition config_empty :: "config_value \<Rightarrow> config_exception + bool" where
  "config_empty self = bind_exc (entries self) (\<lambda>ms. Inr (ms = []))"

text \<open>The paths of all leaves; \<^verbatim>\<open>None\<close> is the null parent of the first level.\<close>

definition child_path :: "config_path option \<Rightarrow> string \<Rightarrow> config_exception + config_path" where
  "child_path par key =
     (case par of
        None \<Rightarrow> Inr (new_key key)
      | Some p \<Rightarrow>
          bind_exc (prepend (new_key key) p) (\<lambda>q. case q of None \<Rightarrow> Inl NullPointer | Some q \<Rightarrow> Inr q))"

fun find_paths ::
  "config_path option \<Rightarrow> config_value \<Rightarrow> config_exception + (string \<times> config_value) list"
  and find_member_paths ::
  "config_path option \<Rightarrow> (string \<times> config_value) list \<Rightarrow> config_exception + (string \<times> config_value) list" where
  "find_paths par (SimpleConfigObject _ ms _ _) = find_member_paths par ms"
| "find_paths par (ConfigDelayedMergeObject _ _) = Inl ConfigExceptionNotResolved"
| "find_paths par _ = Inl NullPointer"
| "find_member_paths par [] = Inr []"
| "find_member_paths par ((elem, v) # ms) =
     bind_exc (child_path par elem) (\<lambda>path.
     bind_exc (if is_object v then find_paths (Some path) v
               else case v of ConfigNull _ \<Rightarrow> Inr [] | _ \<Rightarrow> Inr [(path_render path, v)]) (\<lambda>es.
     bind_exc (find_member_paths par ms) (\<lambda>es'. Inr (es @ es'))))"

definition entry_set :: "config_value \<Rightarrow> config_exception + (string \<times> config_value) list" where
  "entry_set self = find_paths None self"

subsection \<open>Unwrapped values\<close>

datatype config_variant =
    VNull
  | VInt int
  | VInt64 int
  | VDouble double
  | VBool bool
  | VString string
  | VMap "(string \<times> config_variant) list"
  | VVector "config_variant list"
  | VBase config_value

fun unwrapped :: "config_value \<Rightarrow> config_exception + config_variant"
  and unwrapped_list :: "config_value list \<Rightarrow> config_exception + config_variant list"
  and unwrapped_members :: "(string \<times> config_value) list \<Rightarrow> config_exception + (string \<times> config_variant) list" where
  "unwrapped (ConfigNull _) = Inr VNull"
| "unwrapped (ConfigBoolean _ b) = Inr (VBool b)"
| "unwrapped (ConfigInt _ i _) = Inr (VInt i)"
| "unwrapped (ConfigInt64 _ i _) = Inr (VInt64 i)"
| "unwrapped (ConfigDouble _ d _) = Inr (VDouble d)"
| "unwrapped (ConfigString _ s) = Inr (VString s)"
| "unwrapped (SimpleConfigList _ vs _) = bind_exc (unwrapped_list vs) (\<lambda>us. Inr (VVector us))"
| "unwrapped (SimpleConfigObject _ ms _ _) = bind_exc (unwrapped_members ms) (\<lambda>us. Inr (VMap us))"
| "unwrapped _ = Inl ConfigExceptionNotResolved"
| "unwrapped_list [] = Inr []"
| "unwrapped_list (v # vs) =
     bind_exc (unwrapped v) (\<lambda>u. bind_exc (unwrapped_list vs) (\<lambda>us. Inr (u # us)))"
| "unwrapped_members [] = Inr []"
| "unwrapped_members ((k, v) # ms) =
     bind_exc (unwrapped v) (\<lambda>u. bind_exc (unwrapped_members ms) (\<lambda>us. Inr ((k, u) # us)))"

text \<open>The visitors of \<^verbatim>\<open>variant_utils.hpp\<close>; anything that is no number or boolean counts 0.\<close>

fun variant_int64 :: "config_variant \<Rightarrow> int" where
  "variant_int64 (VInt i) = i"
| "variant_int64 (VInt64 i) = i"
| "variant_int64 (VDouble d) = double_trunc d"
| "variant_int64 (VBool b) = (if b then 1 else 0)"
| "variant_int64 _ = 0"

fun variant_double :: "config_variant \<Rightarrow> double" where
  "variant_double (VInt i) = double_of_int i"
| "variant_double (VInt64 i) = double_of_int i"
| "variant_double (VDouble d) = d"
| "variant_double (VBool b) = double_of_int (if b then 1 else 0)"
| "variant_double _ = double_of_int 0"

fun variant_bool :: "config_variant \<Rightarrow> config_exception + bool" where
  "variant_bool (VBool b) = Inr b"
| "variant_bool _ = Inl BadVariantGet"

fun variant_text :: "config_variant \<Rightarrow> config_exception + string" where
  "variant_text (VString s) = Inr s"
| "variant_text _ = Inl BadVariantGet"

text \<open>\<^verbatim>\<open>dynamic_get<ConfigObject>\<close>, with the use of the null pointer it may give.\<close>

fun variant_object :: "config_variant \<Rightarrow> config_exception + config_value" where
  "variant_object (VBase v) = (if is_object v then Inr v else Inl NullPointer)"
| "variant_object _ = Inl BadVariantGet"

subsection \<open>Getters\<close>

definition get_value_at :: "fp_text \<Rightarrow> config_value \<Rightarrow> string \<Rightarrow> tok_exception + config_value" where
  "get_value_at fp self path = find_value fp self path NONE"

definition get_boolean :: "fp_text \<Rightarrow> config_value \<Rightarrow> string \<Rightarrow> tok_exception + bool" where
  "get_boolean fp self path =
     bind_exc (find_value fp self path BOOLEAN) (\<lambda>v. lift_exc (bind_exc (unwrapped v) variant_bool))"

definition get_config_number :: "fp_text \<Rightarrow> config_value \<Rightarrow> string \<Rightarrow> tok_exception + config_value" where
  "get_config_number fp self path = find_value fp self path NUMBER"

definition range_checked :: "config_value \<Rightarrow> string \<Rightarrow> config_exception + int" where
  "range_checked v path = (case int_value_range_checked double_trunc v path of None \<Rightarrow> Inl NullPointer | Some r \<Rightarrow> r)"

definition get_int :: "fp_text \<Rightarrow> config_value \<Rightarrow> string \<Rightarrow> tok_exception + int" where
  "get_int fp self path =
     bind_exc (get_config_number fp self path) (\<lambda>n. lift_exc (range_checked n path))"

definition get_int64 :: "fp_text \<Rightarrow> config_value \<Rightarrow> string \<Rightarrow> tok_exception + int" where
  "get_int64 fp self path =
     bind_exc (get_config_number fp self path) (\<lambda>n. lift_exc (bind_exc (unwrapped n) (\<lambda>u. Inr (variant_int64 u))))"

definition get_double :: "fp_text \<Rightarrow> config_value \<Rightarrow> string \<Rightarrow> tok_exception + double" where
  "get_double fp self path =
     bind_exc (get_config_number fp self path) (\<lambda>n. lift_exc (bind_exc (unwrapped n) (\<lambda>u. Inr (variant_double u))))"

definition get_string :: "fp_text \<Rightarrow> config_value \<Rightarrow> string \<Rightarrow> tok_exception + string" where
  "get_string fp self path =
     bind_exc (find_value fp self path STRING) (\<lambda>v. lift_exc (bind_exc (unwrapped v) variant_text))"

text \<open>The elements of the list found; \<^verbatim>\<open>get_object\<close> and \<^verbatim>\<open>get_config\<close> give the same object.\<close>

definition get_list :: "fp_text \<Rightarrow> config_value \<Rightarrow> string \<Rightarrow> tok_exception + config_value list" where
  "get_list fp self path =
     bind_exc (find_value fp self path LIST) (\<lambda>v.
       case v of SimpleConfigList _ vs _ \<Rightarrow> Inr vs | _ \<Rightarrow> Inl (TokException NullPointer))"

definition get_object :: "fp_text \<Rightarrow> config_value \<Rightarrow> string \<Rightarrow> tok_exception + config_value" where
  "get_object fp self path = find_value fp self path OBJECT"

definition get_config :: "fp_text \<Rightarrow> config_value \<Rightarrow> string \<Rightarrow> tok_exception + config_value" where
  "get_config fp self path = get_object fp self path"

definition get_variant :: "fp_text \<Rightarrow> config_value \<Rightarrow> string \<Rightarrow> tok_exception + config_variant" where
  "get_variant fp self path = bind_exc (find_value fp self path NONE) (\<lambda>v. lift_exc (unwrapped v))"

subsection \<open>Sizes and durations\<close>

definition trim_copy :: "string \<Rightarrow> string" where
  "trim_copy s = strip is_space s"

text \<open>The letters at the end.\<close>

definition get_units :: "string \<Rightarrow> string" where
  "get_units s = rev (takeWhile is_alpha (rev s))"

definition squoted :: "string \<Rightarrow> string" where
  "squoted s = CHR 0x27 # s @ [CHR 0x27]"

definition bad_value :: "config_origin \<Rightarrow> string \<Rightarrow> string \<Rightarrow> config_exception" where
  "bad_value orig path message = ConfigExceptionBadValue (Some orig) path message"

text \<open>
  The number in front of a unit, times the unit: digits are read as an integer, anything
  else as a double.  \<^verbatim>\<open>None\<close> is \<^verbatim>\<open>boost::bad_lexical_cast\<close>.
\<close>

definition scaled_number :: "fp_text \<Rightarrow> string \<Rightarrow> 64 word \<Rightarrow> 64 word option" where
  "scaled_number fp number_string units =
     (if list_all is_digit number_string
      then map_option (\<lambda>i. word_of_int i * units) (lexical_int64 number_string)
      else map_option (\<lambda>d. word_of_int (double_trunc (double_times d (double_of_int (uint units)))))
             (lexical_double fp number_string))"

definition duration_unit :: "string \<Rightarrow> 64 word option" where
  "duration_unit unit_string =
     (if unit_string = [] \<or> unit_string = ''ms'' \<or> unit_string = ''milliseconds'' then Some 1000000
      else if unit_string = ''us'' \<or> unit_string = ''microseconds'' then Some 1000
      else if unit_string = ''ns'' \<or> unit_string = ''nanoseconds'' then Some 1
      else if unit_string = ''d'' \<or> unit_string = ''days'' then Some 86400000000000
      else if unit_string = ''h'' \<or> unit_string = ''hrs'' \<or> unit_string = ''hours'' then Some 3600000000000
      else if unit_string = ''s'' \<or> unit_string = ''secs'' \<or> unit_string = ''seconds'' then Some 1000000000
      else if unit_string = ''m'' \<or> unit_string = ''mins'' \<or> unit_string = ''minutes'' then Some 60000000000
      else None)"

definition plural_unit :: "string \<Rightarrow> string" where
  "plural_unit u = (if length u > 2 \<and> last u \<noteq> CHR ''s'' then u @ ''s'' else u)"

definition parse_duration ::
  "fp_text \<Rightarrow> string \<Rightarrow> config_origin \<Rightarrow> string \<Rightarrow> config_exception + 64 word" where
  "parse_duration fp inp orig path =
     (let s = trim_copy inp;
          original_unit_string = get_units s;
          number_string = trim_copy (take (length s - length original_unit_string) s)
      in if number_string = []
         then Inl (bad_value orig path (''_no number in duration value '' @ squoted inp))
         else case duration_unit (plural_unit original_unit_string) of
                None \<Rightarrow> Inl (bad_value orig path
                          (''_could not parse time unit '' @ squoted original_unit_string @ '' (try ns, us, ms, s, m, d)''))
              | Some units \<Rightarrow>
                  (case scaled_number fp number_string units of
                     None \<Rightarrow> Inl (bad_value orig path (''_could not parse duration number '' @ squoted number_string))
                   | Some n \<Rightarrow> Inr n))"

text \<open>\<^verbatim>\<open>MemoryUnit\<close>; the power is computed in 64 bits.\<close>

record memory_unit =
  mu_prefix :: string
  mu_power_of :: nat
  mu_power :: nat
  mu_bytes :: "64 word"

definition make_unit :: "string \<Rightarrow> nat \<Rightarrow> nat \<Rightarrow> memory_unit" where
  "make_unit pre power_of pow =
     \<lparr>mu_prefix = pre, mu_power_of = power_of, mu_power = pow, mu_bytes = of_nat power_of ^ pow\<rparr>"

definition memory_units :: "memory_unit list" where
  "memory_units =
     [make_unit '''' 1024 0,
      make_unit ''kilo'' 1000 1, make_unit ''mega'' 1000 2, make_unit ''giga'' 1000 3, make_unit ''tera'' 1000 4,
      make_unit ''peta'' 1000 5, make_unit ''exa'' 1000 6, make_unit ''zetta'' 1000 7, make_unit ''yotta'' 1000 8,
      make_unit ''kibi'' 1024 1, make_unit ''mebi'' 1024 2, make_unit ''gibi'' 1024 3, make_unit ''tebi'' 1024 4,
      make_unit ''pebi'' 1024 5, make_unit ''exbi'' 1024 6, make_unit ''zebi'' 1024 7, make_unit ''yobi'' 1024 8]"

text \<open>The keys a unit is entered under, and the map, where a later entry replaces an earlier one.\<close>

definition unit_keys :: "memory_unit \<Rightarrow> string list" where
  "unit_keys u =
     [mu_prefix u @ ''byte'', mu_prefix u @ ''bytes''] @
     (if mu_prefix u = [] then [''b'', ''_b'', '''']
      else let first = take 1 (mu_prefix u); first_upper = map toupper first
           in if mu_power_of u = 1024 then [first, first_upper, first_upper @ ''i'', first_upper @ ''i_b'']
              else if mu_power u = 1 then [first @ ''_b''] else [first_upper @ ''_b''])"

definition make_units_map :: "(string \<times> memory_unit) list" where
  "make_units_map = fold (\<lambda>u m. fold (\<lambda>k. AList.update k u) (unit_keys u) m) memory_units []"

definition parse_unit :: "string \<Rightarrow> memory_unit" where
  "parse_unit u = (case map_of make_units_map u of None \<Rightarrow> make_unit [] 0 0 | Some m \<Rightarrow> m)"

definition is_null_unit :: "memory_unit \<Rightarrow> bool" where
  "is_null_unit u \<longleftrightarrow> mu_power u = 0 \<and> mu_power_of u = 0"

definition parse_bytes ::
  "fp_text \<Rightarrow> string \<Rightarrow> config_origin \<Rightarrow> string \<Rightarrow> config_exception + 64 word" where
  "parse_bytes fp inp orig path =
     (let s = trim_copy inp;
          unit_string = get_units s;
          number_string = trim_copy (take (length s - length unit_string) s);
          units = parse_unit unit_string
      in if number_string = []
         then Inl (bad_value orig path (''_no number in size-in-bytes value '' @ squoted inp))
         else if is_null_unit units
         then Inl (bad_value orig path
                (''_could not parse size-in-bytes unit '' @ squoted unit_string @
                 '' (try k, _k, k_b, _ki_b, kilobytes, kibibytes)''))
         else case scaled_number fp number_string (mu_bytes units) of
                None \<Rightarrow> Inl (bad_value orig path (''_could not parse size-in-bytes number '' @ squoted number_string))
              | Some n \<Rightarrow> Inr n)"

text \<open>A number, or the text when the value is not one.\<close>

definition number_or_text ::
  "fp_text \<Rightarrow> (int \<Rightarrow> 64 word) \<Rightarrow> (fp_text \<Rightarrow> string \<Rightarrow> config_origin \<Rightarrow> string \<Rightarrow> config_exception + 64 word)
   \<Rightarrow> config_value \<Rightarrow> string \<Rightarrow> tok_exception + 64 word" where
  "number_or_text fp scale parse self path =
     (case get_int64 fp self path of
        Inr i \<Rightarrow> Inr (scale i)
      | Inl (TokException (ConfigExceptionWrongType _ _ _ _)) \<Rightarrow>
          bind_exc (find_value fp self path STRING) (\<lambda>v.
            lift_exc (bind_exc (bind_exc (unwrapped v) variant_text) (\<lambda>s. parse fp s (value_origin v) path)))
      | Inl e \<Rightarrow> Inl e)"

definition get_bytes :: "fp_text \<Rightarrow> config_value \<Rightarrow> string \<Rightarrow> tok_exception + 64 word" where
  "get_bytes fp self path = number_or_text fp word_of_int parse_bytes self path"

definition get_nanoseconds :: "fp_text \<Rightarrow> config_value \<Rightarrow> string \<Rightarrow> tok_exception + 64 word" where
  "get_nanoseconds fp self path = number_or_text fp (\<lambda>i. word_of_int (i * 1000000)) parse_duration self path"

definition get_milliseconds :: "fp_text \<Rightarrow> config_value \<Rightarrow> string \<Rightarrow> tok_exception + 64 word" where
  "get_milliseconds fp self path = bind_exc (get_nanoseconds fp self path) (\<lambda>n. Inr (n div 1000000))"

subsection \<open>Lists\<close>

text \<open>Each element converted and checked, then used; the first failure ends the call.\<close>

definition homogeneous_element ::
  "fp_text \<Rightarrow> string \<Rightarrow> config_value_type \<Rightarrow> config_value \<Rightarrow> config_exception + config_value" where
  "homogeneous_element fp path expected cv =
     bind_exc (if expected \<noteq> NONE then transform fp cv expected else Inr cv) (\<lambda>v.
     bind_exc (value_type v) (\<lambda>t.
       if t \<noteq> expected
       then Inl (ConfigExceptionWrongType (Some (value_origin v)) path
                   (''list of '' @ value_type_name expected) (''list of '' @ value_type_name t))
       else Inr v))"

fun map_exc :: "('a \<Rightarrow> 'e + 'b) \<Rightarrow> 'a list \<Rightarrow> 'e + 'b list" where
  "map_exc f [] = Inr []"
| "map_exc f (x # xs) = bind_exc (f x) (\<lambda>y. bind_exc (map_exc f xs) (\<lambda>ys. Inr (y # ys)))"

definition get_homogeneous_wrapped_list ::
  "fp_text \<Rightarrow> config_value \<Rightarrow> string \<Rightarrow> config_value_type \<Rightarrow> tok_exception + config_value list" where
  "get_homogeneous_wrapped_list fp self path expected =
     bind_exc (get_list fp self path) (\<lambda>vs. lift_exc (map_exc (homogeneous_element fp path expected) vs))"

definition get_homogeneous_unwrapped_list ::
  "fp_text \<Rightarrow> config_value \<Rightarrow> string \<Rightarrow> config_value_type \<Rightarrow> tok_exception + config_variant list" where
  "get_homogeneous_unwrapped_list fp self path expected =
     bind_exc (get_list fp self path) (\<lambda>vs.
       lift_exc (map_exc (\<lambda>cv. bind_exc (homogeneous_element fp path expected cv) unwrapped) vs))"

definition get_boolean_list :: "fp_text \<Rightarrow> config_value \<Rightarrow> string \<Rightarrow> tok_exception + bool list" where
  "get_boolean_list fp self path =
     bind_exc (get_homogeneous_unwrapped_list fp self path BOOLEAN) (\<lambda>us. lift_exc (map_exc variant_bool us))"

definition get_int_list :: "fp_text \<Rightarrow> config_value \<Rightarrow> string \<Rightarrow> tok_exception + int list" where
  "get_int_list fp self path =
     bind_exc (get_homogeneous_wrapped_list fp self path NUMBER) (\<lambda>vs. lift_exc (map_exc (\<lambda>v. range_checked v path) vs))"

definition get_int64_list :: "fp_text \<Rightarrow> config_value \<Rightarrow> string \<Rightarrow> tok_exception + int list" where
  "get_int64_list fp self path =
     bind_exc (get_homogeneous_unwrapped_list fp self path NUMBER) (\<lambda>us. Inr (map variant_int64 us))"

definition get_double_list :: "fp_text \<Rightarrow> config_value \<Rightarrow> string \<Rightarrow> tok_exception + double list" where
  "get_double_list fp self path =
     bind_exc (get_homogeneous_unwrapped_list fp self path NUMBER) (\<lambda>us. Inr (map variant_double us))"

definition get_string_list :: "fp_text \<Rightarrow> config_value \<Rightarrow> string \<Rightarrow> tok_exception + string list" where
  "get_string_list fp self path =
     bind_exc (get_homogeneous_unwrapped_list fp self path STRING) (\<lambda>us. lift_exc (map_exc variant_text us))"

definition get_object_list :: "fp_text \<Rightarrow> config_value \<Rightarrow> string \<Rightarrow> tok_exception + config_value list" where
  "get_object_list fp self path = get_homogeneous_wrapped_list fp self path OBJECT"

definition get_config_list :: "fp_text \<Rightarrow> config_value \<Rightarrow> string \<Rightarrow> tok_exception + config_value list" where
  "get_config_list fp self path =
     bind_exc (get_homogeneous_unwrapped_list fp self path OBJECT) (\<lambda>us. lift_exc (map_exc variant_object us))"

definition get_variant_list :: "fp_text \<Rightarrow> config_value \<Rightarrow> string \<Rightarrow> tok_exception + config_variant list" where
  "get_variant_list fp self path = bind_exc (get_list fp self path) (\<lambda>vs. lift_exc (map_exc unwrapped vs))"

text \<open>The elements of a list of sizes or durations; an unsigned result is stored as signed.\<close>

definition number_or_text_element ::
  "fp_text \<Rightarrow> (int \<Rightarrow> int) \<Rightarrow> (fp_text \<Rightarrow> string \<Rightarrow> config_origin \<Rightarrow> string \<Rightarrow> config_exception + 64 word)
   \<Rightarrow> string \<Rightarrow> string \<Rightarrow> config_value \<Rightarrow> config_exception + int" where
  "number_or_text_element fp scale parse wanted path v =
     bind_exc (value_type v) (\<lambda>t.
       if t = NUMBER then bind_exc (unwrapped v) (\<lambda>u. Inr (scale (variant_int64 u)))
       else if t = STRING
       then bind_exc (bind_exc (unwrapped v) variant_text) (\<lambda>s.
            bind_exc (parse fp s (value_origin v) path) (\<lambda>n. Inr (sint n)))
       else Inl (ConfigExceptionWrongType (Some (value_origin v)) path wanted (value_type_name t)))"

definition get_bytes_list :: "fp_text \<Rightarrow> config_value \<Rightarrow> string \<Rightarrow> tok_exception + int list" where
  "get_bytes_list fp self path =
     bind_exc (get_list fp self path) (\<lambda>vs. lift_exc
       (map_exc (number_or_text_element fp id parse_bytes ''memory size string or number of bytes'' path) vs))"

definition get_nanoseconds_list :: "fp_text \<Rightarrow> config_value \<Rightarrow> string \<Rightarrow> tok_exception + int list" where
  "get_nanoseconds_list fp self path =
     bind_exc (get_list fp self path) (\<lambda>vs. lift_exc
       (map_exc (number_or_text_element fp (\<lambda>i. sint (word_of_int (i * 1000000) :: 64 word)) parse_duration
          ''duration string or number of nanoseconds'' path) vs))"

definition get_milliseconds_list :: "fp_text \<Rightarrow> config_value \<Rightarrow> string \<Rightarrow> tok_exception + int list" where
  "get_milliseconds_list fp self path =
     bind_exc (get_nanoseconds_list fp self path) (\<lambda>ns. Inr (map (\<lambda>n. sgn n * (\<bar>n\<bar> div 1000000)) ns))"


subsection \<open>Validation\<close>

definition add_problem :: "config_path \<Rightarrow> config_origin \<Rightarrow> string \<Rightarrow> validation_problem" where
  "add_problem path orig prob = \<lparr>problem_path = path_render path, problem_origin = orig, problem_text = prob\<rparr>"

fun join_comma :: "string list \<Rightarrow> string \<Rightarrow> string" where
  "join_comma [] acc = acc"
| "join_comma (k # ks) acc = join_comma ks ((if acc = [] then [] else acc @ '', '') @ k)"

definition get_desc :: "config_value \<Rightarrow> config_exception + string" where
  "get_desc v =
     (if is_object v
      then bind_exc (entries v) (\<lambda>ms.
             Inr (if ms = [] then ''object'' else ''object with keys '' @ join_comma (map fst ms) []))
      else if is_list v then Inr ''list''
      else bind_exc (value_type v) (\<lambda>t. Inr (map tolower (value_type_name t))))"

definition add_missing :: "config_value \<Rightarrow> config_path \<Rightarrow> config_origin \<Rightarrow> config_exception + validation_problem" where
  "add_missing ref_value path orig =
     bind_exc (get_desc ref_value) (\<lambda>d.
       Inr (add_problem path orig (''_no setting at '' @ squoted (path_render path) @ '', expecting: '' @ d)))"

definition add_wrong_type :: "config_value \<Rightarrow> config_value \<Rightarrow> config_path \<Rightarrow> config_exception + validation_problem" where
  "add_wrong_type ref_value actual path =
     bind_exc (get_desc ref_value) (\<lambda>d. bind_exc (get_desc actual) (\<lambda>a.
       Inr (add_problem path (value_origin actual)
         (''_wrong value type at '' @ squoted (path_render path) @ '', expecting: '' @ d @ '' but got: '' @ a))))"

definition add_wrong_element ::
  "config_value \<Rightarrow> config_value \<Rightarrow> config_path \<Rightarrow> config_exception + validation_problem" where
  "add_wrong_element ref_element e path =
     bind_exc (get_desc ref_element) (\<lambda>d. bind_exc (get_desc e) (\<lambda>a.
       Inr (add_problem path (value_origin e)
         (''_list at '' @ squoted (path_render path) @ '' contains wrong value type, expecting list of '' @ d @
          '' but got element of type '' @ a))))"

definition could_be_null :: "fp_text \<Rightarrow> config_value \<Rightarrow> config_exception + bool" where
  "could_be_null fp v = bind_exc (transform fp v NONE) (\<lambda>w. bind_exc (value_type w) (\<lambda>t. Inr (t = NONE)))"

fun is_string :: "config_value \<Rightarrow> bool" where
  "is_string (ConfigString _ _) = True"
| "is_string _ = False"

definition have_compatible_types :: "fp_text \<Rightarrow> config_value \<Rightarrow> config_value \<Rightarrow> config_exception + bool" where
  "have_compatible_types fp reference v =
     bind_exc (could_be_null fp reference) (\<lambda>ref_null.
     bind_exc (if ref_null then Inr True else could_be_null fp v) (\<lambda>null.
       if null then Inr True
       else if is_object reference then Inr (is_object v)
       else if is_list reference then Inr (is_list v)
       else if is_string reference then Inr True
       else if is_string v then Inr True
       else bind_exc (value_type reference) (\<lambda>t. bind_exc (value_type v) (\<lambda>u. Inr (t = u)))))"

text \<open>At most one problem for the elements of a list.\<close>

fun check_elements ::
  "fp_text \<Rightarrow> config_path \<Rightarrow> config_value \<Rightarrow> config_value list \<Rightarrow> config_exception + validation_problem list" where
  "check_elements fp path ref_element [] = Inr []"
| "check_elements fp path ref_element (e # es) =
     bind_exc (have_compatible_types fp ref_element e) (\<lambda>ok.
       if ok then check_elements fp path ref_element es
       else bind_exc (add_wrong_element ref_element e path) (\<lambda>p. Inr [p]))"

definition check_list ::
  "fp_text \<Rightarrow> config_path \<Rightarrow> config_value \<Rightarrow> config_value \<Rightarrow> config_exception + validation_problem list" where
  "check_list fp path reference v =
     (case (reference, v) of
        (SimpleConfigList _ (r # rs) _, SimpleConfigList _ (e # es) _) \<Rightarrow> check_elements fp path r (e # es)
      | _ \<Rightarrow> Inr [])"

text \<open>
  \<^verbatim>\<open>check_valid\<close> on two values, with the loop of \<^verbatim>\<open>check_valid_object\<close> over the members of
  the reference.  The problems found are returned in the order they are added.
\<close>

fun check_valid_value ::
  "fp_text \<Rightarrow> config_path \<Rightarrow> config_value \<Rightarrow> config_value \<Rightarrow> config_exception + validation_problem list"
  and check_valid_object ::
  "fp_text \<Rightarrow> config_path option \<Rightarrow> (string \<times> config_value) list \<Rightarrow> config_value
   \<Rightarrow> config_exception + validation_problem list" where
  "check_valid_value fp path (SimpleConfigObject ro rs rst rig) v =
     bind_exc (have_compatible_types fp (SimpleConfigObject ro rs rst rig) v) (\<lambda>ok.
       if ok
       then if is_object v then check_valid_object fp (Some path) rs v else Inr []
       else bind_exc (add_wrong_type (SimpleConfigObject ro rs rst rig) v path) (\<lambda>p. Inr [p]))"
| "check_valid_value fp path reference v =
     bind_exc (have_compatible_types fp reference v) (\<lambda>ok.
       if ok
       then if is_object reference \<and> is_object v then Inl ConfigExceptionNotResolved
            else check_list fp path reference v
       else bind_exc (add_wrong_type reference v path) (\<lambda>p. Inr [p]))"
| "check_valid_object fp path [] v = Inr []"
| "check_valid_object fp path ((key, r) # rs) v =
     bind_exc (child_path path key) (\<lambda>child.
     bind_exc (entries v) (\<lambda>ms.
     bind_exc (case map_of ms key of
                 None \<Rightarrow> bind_exc (add_missing r child (value_origin v)) (\<lambda>p. Inr [p])
               | Some w \<Rightarrow> check_valid_value fp child r w) (\<lambda>ps.
     bind_exc (check_valid_object fp path rs v) (\<lambda>ps'. Inr (ps @ ps')))))"

fun check_paths ::
  "fp_text \<Rightarrow> config_value \<Rightarrow> config_value \<Rightarrow> string list \<Rightarrow> tok_exception + validation_problem list" where
  "check_paths fp reference self [] = Inr []"
| "check_paths fp reference self (p # ps) =
     bind_exc (path_of fp p) (\<lambda>path.
     bind_exc (lift_exc (bind_exc (peek_path reference path) (\<lambda>ref_value.
                 case ref_value of
                   None \<Rightarrow> Inr []
                 | Some r \<Rightarrow> bind_exc (peek_path self path) (\<lambda>child.
                     case child of
                       None \<Rightarrow> bind_exc (add_missing r path (value_origin self)) (\<lambda>p. Inr [p])
                     | Some v \<Rightarrow> check_valid_value fp path r v)))) (\<lambda>found.
     bind_exc (check_paths fp reference self ps) (\<lambda>rest. Inr (found @ rest))))"

definition check_valid ::
  "fp_text \<Rightarrow> config_value \<Rightarrow> config_value \<Rightarrow> string list \<Rightarrow> tok_exception + unit" where
  "check_valid fp self reference restrict_to_paths =
     (if value_status reference \<noteq> RESOLVED
      then Inl (TokException (ConfigExceptionBugOrBroken
        ''do not call check_valid() with an unresolved reference config, call Config#resolve(), see Config#resolve() API docs''))
      else if value_status self \<noteq> RESOLVED then Inl (TokException ConfigExceptionNotResolved)
      else bind_exc (if restrict_to_paths = []
                     then lift_exc (bind_exc (entries reference) (\<lambda>rs. check_valid_object fp None rs self))
                     else check_paths fp reference self restrict_to_paths) (\<lambda>problems.
           if problems \<noteq> [] then Inl (TokException (ConfigExceptionValidationFailed problems)) else Inr ()))"

subsection \<open>Configurations from configurations\<close>

definition config_with_fallback :: "config_value \<Rightarrow> config_value \<Rightarrow> config_exception + config_value" where
  "config_with_fallback self other =
     bind_exc (merge self other) (\<lambda>v. if is_object v then Inr v else Inl NullPointer)"

definition config_with_only_path :: "fp_text \<Rightarrow> config_value \<Rightarrow> string \<Rightarrow> tok_exception + config_value" where
  "config_with_only_path fp self path_expression =
     bind_exc (path_of fp path_expression) (\<lambda>path. lift_exc (with_only_path self path))"

definition config_without_path :: "fp_text \<Rightarrow> config_value \<Rightarrow> string \<Rightarrow> tok_exception + config_value" where
  "config_without_path fp self path_expression =
     bind_exc (path_of fp path_expression) (\<lambda>path. lift_exc (without_path self path))"

definition config_with_value ::
  "fp_text \<Rightarrow> config_value \<Rightarrow> string \<Rightarrow> config_value \<Rightarrow> tok_exception + config_value" where
  "config_with_value fp self path_expression v =
     bind_exc (path_of fp path_expression) (\<lambda>path. lift_exc (with_value self path v))"


subsection \<open>Walking a resolved object\<close>

lemma resolved_value_type: "resolved_ok v \<Longrightarrow> \<exists>t. value_type v = Inr t"
  by (cases v) (auto simp: resolved_ok_def)

lemma transform_object [simp]: "resolved_ok v \<Longrightarrow> transform fp v OBJECT = Inr v"
  by (cases v) (auto simp: resolved_ok_def transform_def transform_string_def)

lemma check_found_object:
  "resolved_ok v \<Longrightarrow> is_object v \<Longrightarrow> check_found fp OBJECT q v = Inr v"
  by (cases v) (auto simp: check_found_def resolved_ok_def transform_def)

text \<open>What stands in the way: a null, or a value that is no object.\<close>

definition in_the_way :: "config_path \<Rightarrow> config_value \<Rightarrow> config_exception" where
  "in_the_way q v =
     (case value_type v of
        Inr NONE \<Rightarrow> ConfigExceptionNull (value_origin v) (path_render q) ''OBJECT''
      | Inr t \<Rightarrow> ConfigExceptionWrongType (Some (value_origin v)) (path_render q) ''OBJECT'' (value_type_name t)
      | Inl e \<Rightarrow> e)"

lemma check_found_in_the_way:
  "resolved_ok v \<Longrightarrow> \<not> is_object v \<Longrightarrow> check_found fp OBJECT q v = Inl (in_the_way q v)"
  by (cases v) (auto simp: check_found_def resolved_ok_def transform_def transform_string_def in_the_way_def)

text \<open>
  The outcome of walking the keys \<open>ks\<close> from an object reached by \<open>pre\<close>: the walk stops
  after \<open>n\<close> keys, at the end or at the first key whose value is missing or no object.
\<close>

definition walked ::
  "fp_text \<Rightarrow> config_value_type \<Rightarrow> config_value \<Rightarrow> string list \<Rightarrow> string list
   \<Rightarrow> config_exception + config_value \<Rightarrow> bool" where
  "walked fp expected obj pre ks r \<longleftrightarrow>
     (\<exists>n q par. 0 < n \<and> n \<le> length ks \<and> path_keys q = pre @ take n ks \<and>
        look obj (take (n - 1) ks) = Some par \<and> is_object par \<and>
        (case look obj (take n ks) of
           None \<Rightarrow> r = Inl (ConfigExceptionMissing (path_render q))
         | Some w \<Rightarrow> (n = length ks \<and> r = check_found fp expected q w) \<or>
                     (n < length ks \<and> \<not> is_object w \<and> r = Inl (in_the_way q w))))"

lemma walkedI:
  assumes "0 < n" "n \<le> length ks" "path_keys q = pre @ take n ks"
    "look obj (take (n - 1) ks) = Some par" "is_object par"
    "look obj (take n ks) = None \<Longrightarrow> r = Inl (ConfigExceptionMissing (path_render q))"
    "\<And>w. look obj (take n ks) = Some w \<Longrightarrow>
       (n = length ks \<and> r = check_found fp expected q w) \<or> (n < length ks \<and> \<not> is_object w \<and> r = Inl (in_the_way q w))"
  shows "walked fp expected obj pre ks r"
  using assms unfolding walked_def by (intro exI [of _ n] exI [of _ q] exI [of _ par]) (auto split: option.splits)

lemma walked_deeper:
  assumes "walked fp expected w (pre @ [k]) ks r" "look obj [k] = Some w" "is_object obj"
  shows "walked fp expected obj pre (k # ks) r"
proof -
  have shift: "look obj (k # js) = look w js" for js
    using assms(2) by (cases obj) (auto split: option.splits)
  obtain n q par where n: "0 < n" "n \<le> length ks" "path_keys q = (pre @ [k]) @ take n ks"
    "look w (take (n - 1) ks) = Some par" "is_object par"
    and c: "case look w (take n ks) of
           None \<Rightarrow> r = Inl (ConfigExceptionMissing (path_render q))
         | Some w \<Rightarrow> (n = length ks \<and> r = check_found fp expected q w) \<or>
                     (n < length ks \<and> \<not> is_object w \<and> r = Inl (in_the_way q w))"
    using assms(1) unfolding walked_def by blast
  have "take (Suc n - 1) (k # ks) = k # take (n - 1) ks" using n(1) by (cases n) auto
  with n c show ?thesis
    by (intro walkedI [of "Suc n" _ q _ _ par]) (auto simp: shift split: option.splits)
qed

lemma find_at_walked:
  "resolved_ok obj \<Longrightarrow> is_object obj \<Longrightarrow> path_keys original = pre @ path_keys p \<Longrightarrow>
   walked fp expected obj pre (path_keys p) (find_at fp obj p expected original)"
proof (induction p arbitrary: obj pre)
  case (Path key nxt)
  obtain orig ms ig where obj: "obj = SimpleConfigObject orig ms RESOLVED ig"
    using resolved_object [OF Path.prems(1,2)] by blast
  show ?case
  proof (cases nxt)
    case None
    then show ?thesis
      using Path.prems by (intro walkedI [of 1 _ original _ _ obj])
        (auto simp: obj find_key_def bind_exc_def split: option.splits)
  next
    case (Some p)
    have len: "path_length original - path_length p = Suc (length pre)"
      using Path.prems(3) Some by (simp add: path_length_eq)
    have "Suc (length pre) < path_length original"
      using Path.prems(3) Some by (cases p) (simp add: path_length_eq)
    then obtain r where r: "sub_path original 0 (Suc (length pre)) = Inr r" "opt_keys r = pre @ [key]"
      using sub_path_inside [of 0 "Suc (length pre)" original] Path.prems(3) Some by auto
    then obtain q where q: "r = Some q" "path_keys q = pre @ [key]" by (cases r) auto
    have step: "find_at fp obj (Path key nxt) expected original =
        bind_exc (find_key fp obj key OBJECT q) (\<lambda>o'. find_at fp o' p expected original)"
      using Some r q by (simp add: len)
    show ?thesis
    proof (cases "map_of ms key")
      case None
      then show ?thesis
        using q Some unfolding step
        by (intro walkedI [of 1 _ q _ _ obj]) (simp_all add: obj find_key_def bind_exc_def)
    next
      case (Some w)
      have w: "resolved_ok w" using resolved_member Path.prems(1) Some obj by blast
      have kw: "find_key fp obj key OBJECT q = check_found fp OBJECT q w"
        using Some by (simp add: obj find_key_def bind_exc_def)
      have lw: "look obj [key] = Some w" using Some by (simp add: obj)
      show ?thesis
      proof (cases "is_object w")
        case True
        have "walked fp expected w (pre @ [key]) (path_keys p) (find_at fp w p expected original)"
          using Path.IH [of p w "pre @ [key]"] \<open>nxt = Some p\<close> w True Path.prems(3) by simp
        from walked_deeper [OF this lw Path.prems(2)] show ?thesis
          unfolding step kw check_found_object [OF w True] using \<open>nxt = Some p\<close> by simp
      next
        case False
        then show ?thesis
          using q lw \<open>nxt = Some p\<close> unfolding step kw check_found_in_the_way [OF w False]
          by (intro walkedI [of 1 _ q _ _ obj]) (simp_all add: Path.prems(2) obj)
      qed
    qed
  qed
qed


lemma look_through:
  assumes "look v (xs @ ys) = Some w"
  shows "\<exists>u. look v xs = Some u \<and> (ys \<noteq> [] \<longrightarrow> is_object u)"
  using assms
proof (induction v xs rule: look.induct)
  case (1 v)
  then show ?case by (cases ys; cases v) auto
qed (auto split: option.splits)

lemma walked_to_end:
  assumes "walked fp expected obj pre ks r" "look obj ks = Some w"
  shows "\<exists>q. path_keys q = pre @ ks \<and> r = check_found fp expected q w"
proof -
  obtain n q where n: "n \<le> length ks" "path_keys q = pre @ take n ks"
    and c: "case look obj (take n ks) of
           None \<Rightarrow> r = Inl (ConfigExceptionMissing (path_render q))
         | Some w \<Rightarrow> (n = length ks \<and> r = check_found fp expected q w) \<or>
                     (n < length ks \<and> \<not> is_object w \<and> r = Inl (in_the_way q w))"
    using assms(1) unfolding walked_def by blast
  obtain u where "look obj (take n ks) = Some u" "drop n ks \<noteq> [] \<longrightarrow> is_object u"
    using look_through [of obj "take n ks" "drop n ks"] assms(2) by auto
  with n c assms(2) show ?thesis by auto
qed

lemma walked_found:
  assumes "walked fp expected obj pre ks (Inr v)"
  shows "\<exists>w q. look obj ks = Some w \<and> check_found fp expected q w = Inr v"
  using assms unfolding walked_def by (force split: option.splits)

lemma check_found_any:
  "resolved_ok w \<Longrightarrow> check_found fp NONE q w = Inr v \<longleftrightarrow> v = w \<and> (\<forall>orig. w \<noteq> ConfigNull orig)"
  by (cases w) (auto simp: check_found_def resolved_ok_def bind_exc_def)

lemma look_resolved: "look v ks = Some w \<Longrightarrow> resolved_ok v \<Longrightarrow> resolved_ok w"
  by (induction v ks rule: look.induct) (auto split: option.splits dest: resolved_member)

lemma find_value_walked:
  assumes "resolved_ok obj" "is_object obj" "new_path fp s = Inr (Some p)"
  shows "\<exists>r. find_value fp obj s expected = lift_exc r \<and> walked fp expected obj [] (path_keys p) r"
  using find_at_walked [OF assms(1,2), of p "[]" p fp expected] assms(3)
  by (auto simp: find_value_def path_of_def)

lemma lift_exc_Inr [simp]: "lift_exc r = Inr v \<longleftrightarrow> r = Inr v"
  by (cases r) (auto simp: lift_exc_def)

lemma find_value_look:
  assumes "resolved_ok obj" "is_object obj" "new_path fp s = Inr (Some p)"
  shows "find_value fp obj s NONE = Inr v \<longleftrightarrow> look obj (path_keys p) = Some v \<and> (\<forall>orig. v \<noteq> ConfigNull orig)"
proof -
  obtain r where r: "find_value fp obj s NONE = lift_exc r" "walked fp NONE obj [] (path_keys p) r"
    using find_value_walked [OF assms] by blast
  have "resolved_ok w" if "look obj (path_keys p) = Some w" for w
    using look_resolved that assms(1) by blast
  with r show ?thesis
    using walked_to_end [OF r(2)] walked_found [of fp NONE obj "[]" "path_keys p" v]
    by (auto simp: check_found_any)
qed

text \<open>
  C6: reading a setting.  On a resolved configuration \<^verbatim>\<open>get_value\<close> returns exactly the
  value below the keys of the path when there is one and it is not null.  Every request
  walks the keys to the end or to the first key that is missing or holds no object, and
  then raises \<^verbatim>\<open>Missing\<close>, \<^verbatim>\<open>Null\<close> or \<^verbatim>\<open>WrongType\<close> with the path walked so far; no other
  exception and no null pointer can come out.
\<close>

theorem find_value_outcome:
  assumes "resolved_ok obj" and "is_object obj" and "new_path fp s = Inr (Some p)"
  shows "(get_value_at fp obj s = Inr v \<longleftrightarrow>
           look obj (path_keys p) = Some v \<and> (\<forall>orig. v \<noteq> ConfigNull orig)) \<and>
         (\<exists>r. find_value fp obj s expected = lift_exc r \<and> walked fp expected obj [] (path_keys p) r)"
  using find_value_look [OF assms] find_value_walked [OF assms] by (simp add: get_value_at_def)

lemma new_path_sample [simp]: "new_path fp ''a.b'' = Inr (Some (Path ''a'' (Some (Path ''b'' None))))"
  by code_simp

theorem find_value_outcome_witness:
  "get_value_at no_doubles (sample_object [(''a'', sample_object [(''b'', ConfigBoolean sample_origin True)])]) ''a.b''
     = Inr (ConfigBoolean sample_origin True)"
proof -
  let ?obj = "sample_object [(''a'', sample_object [(''b'', ConfigBoolean sample_origin True)])]"
  have "resolved_ok ?obj" "is_object ?obj" by (simp_all add: resolved_ok_def sample_object_def)
  then show ?thesis
    using find_value_outcome [of ?obj no_doubles "''a.b''" _ "ConfigBoolean sample_origin True" NONE] new_path_sample
    by (auto simp: sample_object_def)
qed


subsection \<open>Setting and reading numbers\<close>

lemma find_value_typed:
  assumes "resolved_ok obj" "is_object obj" "new_path fp s = Inr (Some p)"
    and "look obj (path_keys p) = Some w"
  shows "find_value fp obj s expected = lift_exc (check_found fp expected p w)"
proof -
  obtain r where r: "find_value fp obj s expected = lift_exc r" "walked fp expected obj [] (path_keys p) r"
    using find_value_walked [OF assms(1-3)] by blast
  with walked_to_end [OF r(2) assms(4)] show ?thesis by (auto simp: path_keys_inject)
qed

text \<open>The integer as a number or as its text.\<close>

definition stores :: "config_value \<Rightarrow> config_origin \<Rightarrow> int \<Rightarrow> bool" where
  "stores v orig i \<longleftrightarrow> v = ConfigInt64 orig i [] \<or> v = ConfigString orig (show_int i)"

lemma stores_number:
  assumes "stores v orig i" "int64_min \<le> i" "i \<le> int64_max"
  shows "\<exists>t. check_found fp NUMBER q v = Inr (ConfigInt64 orig i t)"
  using assms lexical_int64_show_int [of i]
  by (auto simp: stores_def check_found_def transform_def transform_string_def bind_exc_def)

lemma stores_string:
  assumes "stores v orig i"
  shows "check_found fp STRING q v = Inr (ConfigString orig (show_int i))"
  using assms by (auto simp: stores_def check_found_def transform_def transform_string_def bind_exc_def)

text \<open>
  C13: setting and reading back.  A 64-bit integer set at a path, as a number or as text, is
  what \<^verbatim>\<open>get_int64\<close> and \<^verbatim>\<open>get_string\<close> return; \<^verbatim>\<open>get_int\<close> returns it or reports that it does
  not fit 32 bits; \<^verbatim>\<open>get_double\<close> gives a double that truncates to it up to 53 bits.
  Settings at paths that part from it read as before.
\<close>

theorem set_then_get:
  assumes "resolved_ok obj" and "is_object obj" and "origin_named orig"
    and "new_path fp s = Inr (Some p)" and "new_path fp s' = Inr (Some q)"
    and "stores v orig i" and "int64_min \<le> i" and "i \<le> int64_max"
  shows "\<exists>r. config_with_value fp obj s v = Inr r \<and>
     get_int64 fp r s = Inr i \<and> get_string fp r s = Inr (show_int i) \<and>
     get_int fp r s =
       (if int32_min \<le> i \<and> i \<le> int32_max then Inr i
        else Inl (TokException (ConfigExceptionWrongType (Some orig) s ''32-bit integer''
                                  (''out-of-range value '' @ show_int i)))) \<and>
     (\<bar>i\<bar> \<le> 2 ^ 53 \<longrightarrow> (\<exists>d. get_double fp r s = Inr d \<and> double_trunc d = i)) \<and>
     (diverge (path_keys p) (path_keys q) \<longrightarrow> (get_value_at fp r s' = Inr w \<longleftrightarrow> get_value_at fp obj s' = Inr w))"
proof -
  have v: "resolved_ok v" using assms(3,6) by (auto simp: stores_def resolved_ok_def)
  obtain r where r: "with_value obj p v = Inr r" "resolved_ok r" "is_object r"
    "\<forall>ks. look r (path_keys p @ ks) = look v ks"
    "\<forall>ks. diverge (path_keys p) ks \<longrightarrow> look r ks = look obj ks"
    using with_value_look [OF assms(1,2) v, of p] by blast
  from r(4) [rule_format, of "[]"] have l: "look r (path_keys p) = Some v" by simp
  note found = find_value_typed [OF r(2,3) assms(4) l]
  obtain t where n: "find_value fp r s NUMBER = Inr (ConfigInt64 orig i t)"
    using stores_number [OF assms(6-8), of fp p] found by (auto simp: lift_exc_def)
  have st: "find_value fp r s STRING = Inr (ConfigString orig (show_int i))"
    using found stores_string [OF assms(6)] by (simp add: lift_exc_def)
  have "get_value_at fp r s' = Inr w \<longleftrightarrow> get_value_at fp obj s' = Inr w" if "diverge (path_keys p) (path_keys q)"
    using find_value_look [OF r(2,3) assms(5)] find_value_look [OF assms(1,2,5)] r(5) that
    by (simp add: get_value_at_def)
  moreover have "config_with_value fp obj s v = Inr r"
    using assms(4) r(1) by (simp add: config_with_value_def path_of_def lift_exc_def)
  moreover have "get_int64 fp r s = Inr i" "get_string fp r s = Inr (show_int i)"
    using n st by (simp_all add: get_int64_def get_config_number_def get_string_def lift_exc_def)
  moreover have "get_int fp r s =
      (if int32_min \<le> i \<and> i \<le> int32_max then Inr i
       else Inl (TokException (ConfigExceptionWrongType (Some orig) s ''32-bit integer''
                                 (''out-of-range value '' @ show_int i))))"
    using n by (auto simp: get_int_def get_config_number_def range_checked_def int_value_range_checked_def lift_exc_def)
  moreover have "get_double fp r s = Inr (double_of_int i)"
    using n by (simp add: get_double_def get_config_number_def lift_exc_def)
  ultimately show ?thesis using trunc_of_int [of i] by auto
qed

theorem set_then_get_witness:
  "\<exists>r. config_with_value no_doubles (sample_object []) ''a.b'' (ConfigString sample_origin (show_int (2 ^ 40))) = Inr r \<and>
     get_int64 no_doubles r ''a.b'' = Inr (2 ^ 40)"
  using set_then_get [of "sample_object []" sample_origin no_doubles "''a.b''" _ "''a.b''" _
      "ConfigString sample_origin (show_int (2 ^ 40))" "2 ^ 40" undefined]
    new_path_sample [of no_doubles]
  by (auto simp: stores_def resolved_ok_def sample_object_def int_limits)

end
