(* ===== verification/Config_Units.thy ===== *)
theory Config_Units
  imports Simple_Config
begin

section \<open>Sizes and durations\<close>

text \<open>
  What the parsers of memory sizes and of durations in simple_config.cpp accept, against
  two tables of units.  The map of memory units is built by 17 rounds of insertions; it is
  compared with the table as a list of entries, the last one first.
\<close>

interpretation boost_trim: trimming trim_copy is_space
  by unfold_locales (simp add: trim_copy_def)

lemma make_unit_sel [simp]:
  "mu_prefix (make_unit p b k) = p" "mu_power_of (make_unit p b k) = b" "mu_power (make_unit p b k) = k"
  "mu_bytes (make_unit p b k) = of_nat b ^ k"
  by (simp_all add: make_unit_def)

text \<open>
  The alphabetic units and their sizes: powers of 1024 by a binary prefix, its initial, the
  upper-case initial or that with an \<open>i\<close>, powers of 1000 by a decimal prefix.
\<close>

definition binary_prefixes :: "(nat \<times> string) list" where
  "binary_prefixes = [(8, ''yobi''), (7, ''zebi''), (6, ''exbi''), (5, ''pebi''), (4, ''tebi''), (3, ''gibi''),
     (2, ''mebi''), (1, ''kibi'')]"

definition decimal_prefixes :: "(nat \<times> string) list" where
  "decimal_prefixes = [(8, ''yotta''), (7, ''zetta''), (6, ''exa''), (5, ''peta''), (4, ''tera''), (3, ''giga''),
     (2, ''mega''), (1, ''kilo'')]"

definition size_table :: "(string \<times> nat) list" where
  "size_table =
     concat (map (\<lambda>(i, p). map (\<lambda>u. (u, 1024 ^ i))
       [map toupper (take 1 p) @ ''i'', map toupper (take 1 p), take 1 p, p @ ''bytes'', p @ ''byte'']) binary_prefixes) @
     concat (map (\<lambda>(i, p). map (\<lambda>u. (u, 1000 ^ i)) [p @ ''bytes'', p @ ''byte'']) decimal_prefixes) @
     [('''', 1), (''b'', 1), (''bytes'', 1), (''byte'', 1)]"

lemma map_of_updates: "map_of (fold (\<lambda>k. AList.update k u) ks m) x = (if x \<in> set ks then Some u else map_of m x)"
  by (induction ks arbitrary: m) (auto simp: update_conv')

lemma map_of_units:
  "map_of (fold (\<lambda>u m. fold (\<lambda>k. AList.update k u) (unit_keys u) m) us m) x =
   (map_of m ++ map_of (rev (concat (map (\<lambda>u. map (\<lambda>k. (k, u)) (unit_keys u)) us)))) x"
proof (induction us arbitrary: m)
  case (Cons u us)
  have "map_of (rev (map (\<lambda>k. (k, u)) ks)) x = (if x \<in> set ks then Some u else None)" for ks
    by (induction ks) (auto simp: map_add_def split: option.splits)
  then show ?case
    unfolding fold_simps comp_def Cons.IH by (auto simp: map_add_def map_of_updates split: option.splits)
qed simp

lemma map_of_filter_alpha:
  "c \<notin> set u \<Longrightarrow> map_of (filter (\<lambda>e. c \<notin> set (fst e)) xs) u = map_of xs u"
  by (induction xs) auto

lemma upper_initials: "map toupper ''kmgtpezy'' = ''KMGTPEZY''"
  by code_simp

lemma table_of_units:
  "filter (\<lambda>e. CHR ''_'' \<notin> set (fst e))
     (map (\<lambda>(k, u). (k, mu_power_of u ^ mu_power u)) (rev (concat (map (\<lambda>u. map (\<lambda>k. (k, u)) (unit_keys u)) memory_units))))
   = size_table"
  unfolding size_table_def decimal_prefixes_def binary_prefixes_def
  by (simp add: memory_units_def unit_keys_def upper_initials [simplified] del: power_Suc)

definition unit_ok :: "memory_unit \<Rightarrow> bool" where
  "unit_ok u \<longleftrightarrow> mu_bytes u = of_nat (mu_power_of u ^ mu_power u) \<and> mu_power_of u \<noteq> 0"

lemma unit_ok_make: "unit_ok (make_unit p b k) \<longleftrightarrow> b \<noteq> 0"
  by (simp add: unit_ok_def)

lemma units_ok: "list_all unit_ok memory_units"
  by (simp add: memory_units_def unit_ok_make)

lemma map_of_map_snd: "map_of (map (\<lambda>(k, u). (k, f u)) xs) x = map_option f (map_of xs x)"
  by (induction xs) auto

lemma parse_unit_table:
  assumes "CHR ''_'' \<notin> set u"
  shows "case map_of size_table u of
           None \<Rightarrow> is_null_unit (parse_unit u)
         | Some b \<Rightarrow> \<not> is_null_unit (parse_unit u) \<and> mu_bytes (parse_unit u) = of_nat b"
proof -
  let ?kvs = "rev (concat (map (\<lambda>u. map (\<lambda>k. (k, u)) (unit_keys u)) memory_units))"
  have "map_of make_units_map u = map_of ?kvs u"
    unfolding make_units_map_def map_of_units by simp
  moreover have "map_of size_table u = map_option (\<lambda>u. mu_power_of u ^ mu_power u) (map_of ?kvs u)"
    unfolding table_of_units [symmetric] map_of_filter_alpha [OF assms] map_of_map_snd ..
  moreover have "unit_ok m" if "map_of ?kvs u = Some m" for m
    using map_of_SomeD [OF that] units_ok by (auto simp: list_all_iff)
  ultimately show ?thesis
    by (cases "map_of ?kvs u") (auto simp: parse_unit_def is_null_unit_def unit_ok_def)
qed

lemma show_nat_ends: "is_digit (hd (show_nat n)) \<and> is_digit (last (show_nat n))"
  using show_nat_digits [of _ n] show_nat_not_Nil [of n] by (metis hd_in_set last_in_set)

lemma alpha_not_digit: "is_digit c \<Longrightarrow> \<not> is_alpha c" "is_space c \<Longrightarrow> \<not> is_alpha c" "is_alpha c \<Longrightarrow> \<not> is_space c"
  by (auto simp: ctype_defs)

lemma split_unit:
  assumes "list_all is_space sp1" "list_all is_space sp" "list_all is_space sp2" "list_all is_alpha u"
    and s_def: "s = trim_copy (sp1 @ show_nat n @ sp @ u @ sp2)"
  shows "get_units s = u \<and> trim_copy (take (length s - length u) s) = show_nat n"
proof -
  note ends = show_nat_ends [of n] show_nat_not_Nil [of n]
  have num: "trim_copy (show_nat n @ sp) = show_nat n"
    using strip_middle [of is_space "[]" sp "show_nat n"] assms(2) ends is_digit_not_space
    by (auto simp: trim_copy_def)
  show ?thesis
  proof (cases "u = []")
    case True
    have "s = show_nat n"
      using strip_middle [of is_space sp1 "sp @ sp2" "show_nat n"] assms(1-3) ends is_digit_not_space True
      by (auto simp: s_def trim_copy_def)
    moreover have "takeWhile is_alpha (rev (show_nat n)) = []"
      using ends alpha_not_digit by (auto simp: takeWhile_eq_Nil_iff hd_rev)
    ultimately show ?thesis
      using True strip_id [of "show_nat n" is_space] ends is_digit_not_space by (auto simp: get_units_def trim_copy_def)
  next
    case False
    have "is_alpha (last u)" using assms(4) False by (auto simp: list_all_iff)
    then have s: "s = (show_nat n @ sp) @ u"
      using strip_middle [of is_space sp1 sp2 "show_nat n @ sp @ u"] assms(1,3) ends is_digit_not_space False alpha_not_digit
      by (auto simp: s_def trim_copy_def)
    have "\<not> is_alpha (last (show_nat n @ sp))"
      using ends assms(2) alpha_not_digit by (cases sp rule: rev_cases) (auto simp: list_all_iff)
    then have "takeWhile is_alpha (rev (show_nat n @ sp)) = []"
      using ends by (simp add: takeWhile_eq_Nil_iff hd_rev del: rev_append)
    then have "takeWhile is_alpha (rev u @ rev (show_nat n @ sp)) = rev u"
      using assms(4) by (subst takeWhile_append2) (auto simp: list_all_iff)
    then have "get_units s = u" unfolding get_units_def s by simp
    with num show ?thesis by (simp add: s)
  qed
qed

lemma scaled_digits:
  assumes "int n \<le> int64_max"
  shows "scaled_number fp (show_nat n) w = Some (of_nat n * w)"
proof -
  have "lexical_int64 (show_nat n) = Some (int n)"
    using lexical_int64_show_int [of "int n"] assms by (simp add: show_int_def int_limits)
  moreover have "list_all is_digit (show_nat n)" by (auto simp: list_all_iff dest: show_nat_digits)
  ultimately show ?thesis by (simp add: scaled_number_def)
qed

text \<open>The units of durations, in nanoseconds; a unit of three letters or more may lack its \<open>s\<close>.\<close>

definition duration_table :: "(string \<times> nat) list" where
  "duration_table =
     concat (map (\<lambda>(ns, us). map (\<lambda>u. (u, ns)) us)
       [(1, [''ns'', ''nanosecond'', ''nanoseconds'']),
        (10 ^ 3, [''us'', ''microsecond'', ''microseconds'']),
        (10 ^ 6, ['''', ''ms'', ''millisecond'', ''milliseconds'']),
        (10 ^ 9, [''s'', ''sec'', ''secs'', ''second'', ''seconds'']),
        (60 * 10 ^ 9, [''m'', ''min'', ''mins'', ''minute'', ''minutes'']),
        (3600 * 10 ^ 9, [''h'', ''hrs'', ''hour'', ''hours'']),
        (86400 * 10 ^ 9, [''d'', ''day'', ''days''])])"

lemma duration_table_units:
  "list_all (\<lambda>(u, b). duration_unit (plural_unit u) = Some (of_nat b)) duration_table"
  by (simp add: duration_table_def duration_unit_def plural_unit_def)

lemma duration_table_known:
  "map_of duration_table u = Some b \<Longrightarrow> duration_unit (plural_unit u) = Some (of_nat b)"
  using duration_table_units by (auto simp: list_all_iff dest!: map_of_SomeD)

lemma plural_unit_eq: "plural_unit u = v \<Longrightarrow> u = v \<or> u = butlast v \<and> length v > 3"
  by (auto simp: plural_unit_def split: if_splits)

definition duration_words :: "string list" where
  "duration_words = ['''', ''ms'', ''milliseconds'', ''us'', ''microseconds'', ''ns'', ''nanoseconds'', ''d'', ''days'',
     ''h'', ''hrs'', ''hours'', ''s'', ''secs'', ''seconds'', ''m'', ''mins'', ''minutes'']"

lemma duration_unit_word: "duration_unit v \<noteq> None \<Longrightarrow> v \<in> set duration_words"
  by (rule ccontr) (simp add: duration_unit_def duration_words_def)

lemma duration_words_table:
  "list_all (\<lambda>v. v \<in> set (map fst duration_table) \<and> (length v > 3 \<longrightarrow> butlast v \<in> set (map fst duration_table)))
     duration_words"
  by (simp add: duration_table_def duration_words_def)

lemma duration_table_unknown:
  assumes "map_of duration_table u = None"
  shows "duration_unit (plural_unit u) = None"
proof (rule ccontr)
  assume "duration_unit (plural_unit u) \<noteq> None"
  from duration_unit_word [OF this] have "u \<in> set (map fst duration_table)"
    using plural_unit_eq [OF refl, of u] duration_words_table unfolding list_all_iff by metis
  with assms show False by (simp add: map_of_eq_None_iff)
qed

lemma alpha_no_underscore: "list_all is_alpha u \<Longrightarrow> CHR ''_'' \<notin> set u"
  by (auto simp: list_all_iff ctype_defs)

text \<open>
  C34: sizes and durations.  A decimal number of at most 63 bits with a unit, blanks allowed
  around both, reads as the number times the unit in 64-bit arithmetic, for exactly the
  units of the two tables; every other alphabetic unit is reported.
\<close>

theorem sizes_and_durations:
  assumes "list_all is_space sp1" and "list_all is_space sp" and "list_all is_space sp2"
    and "list_all is_alpha u" and "int n \<le> int64_max"
  shows "parse_bytes fp (sp1 @ show_nat n @ sp @ u @ sp2) orig path =
      (case map_of size_table u of
         Some b \<Rightarrow> Inr (of_nat (n * b))
       | None \<Rightarrow> Inl (bad_value orig path (''_could not parse size-in-bytes unit '' @ squoted u @
                        '' (try k, _k, k_b, _ki_b, kilobytes, kibibytes)''))) \<and>
    parse_duration fp (sp1 @ show_nat n @ sp @ u @ sp2) orig path =
      (case map_of duration_table u of
         Some b \<Rightarrow> Inr (of_nat (n * b))
       | None \<Rightarrow> Inl (bad_value orig path (''_could not parse time unit '' @ squoted u @
                        '' (try ns, us, ms, s, m, d)'')))"
proof
  let ?s = "trim_copy (sp1 @ show_nat n @ sp @ u @ sp2)"
  have s: "get_units ?s = u" "trim_copy (take (length ?s - length u) ?s) = show_nat n"
    using split_unit [OF assms(1-4) refl, of n] by auto
  show "parse_bytes fp (sp1 @ show_nat n @ sp @ u @ sp2) orig path =
      (case map_of size_table u of
         Some b \<Rightarrow> Inr (of_nat (n * b))
       | None \<Rightarrow> Inl (bad_value orig path (''_could not parse size-in-bytes unit '' @ squoted u @
                        '' (try k, _k, k_b, _ki_b, kilobytes, kibibytes)'')))"
    using parse_unit_table [OF alpha_no_underscore [OF assms(4)]]
    unfolding parse_bytes_def Let_def s scaled_digits [OF assms(5)]
    by (simp split: option.splits)
  show "parse_duration fp (sp1 @ show_nat n @ sp @ u @ sp2) orig path =
      (case map_of duration_table u of
         Some b \<Rightarrow> Inr (of_nat (n * b))
       | None \<Rightarrow> Inl (bad_value orig path (''_could not parse time unit '' @ squoted u @
                        '' (try ns, us, ms, s, m, d)'')))"
    using duration_table_known [of u] duration_table_unknown [of u]
    unfolding parse_duration_def Let_def s scaled_digits [OF assms(5)]
    by (cases "map_of duration_table u") simp_all
qed

theorem sizes_and_durations_witness:
  "parse_bytes no_doubles '' 512 k'' sample_origin [] = Inr (512 * 1024) \<and>
   parse_duration no_doubles '' 512 k'' sample_origin [] =
     Inl (bad_value sample_origin [] (''_could not parse time unit '' @ squoted ''k'' @ '' (try ns, us, ms, s, m, d)''))"
proof -
  have n: "show_nat 512 = ''512''" by code_simp
  have "map_of size_table ''k'' = Some 1024" "map_of duration_table ''k'' = None"
    by (simp_all add: size_table_def binary_prefixes_def duration_table_def upper_initials [simplified])
  moreover have "list_all is_space '' ''" "list_all is_alpha ''k''" by code_simp+
  ultimately show ?thesis
    using sizes_and_durations [of "'' ''" "'' ''" "[]" "''k''" 512 no_doubles sample_origin "[]"]
    by (simp add: n int_limits)
qed

end
