(* ===== verification/Config_Validation.thy ===== *)
theory Config_Validation
  imports Simple_Config
begin

section \<open>Validation against a reference configuration\<close>

text \<open>
  What \<^verbatim>\<open>check_valid\<close> of simple_config.cpp establishes, against a specification by
  recursion on the reference.
\<close>

subsection \<open>Specification\<close>

text \<open>A null, or text that reads as one.\<close>

fun nullish :: "config_value \<Rightarrow> bool" where
  "nullish (ConfigNull _) = True"
| "nullish (ConfigString _ s) = (s = ''null'')"
| "nullish _ = False"

definition compatible :: "config_value \<Rightarrow> config_value \<Rightarrow> bool" where
  "compatible r v \<longleftrightarrow>
     nullish r \<or> nullish v \<or>
     (if is_object r then is_object v
      else if is_list r then is_list v
      else is_string r \<or> is_string v \<or> value_type r = value_type v)"

fun elements :: "config_value \<Rightarrow> config_value list" where
  "elements (SimpleConfigList _ vs _) = vs"
| "elements _ = []"

fun members :: "config_value \<Rightarrow> (string \<times> config_value) list" where
  "members (SimpleConfigObject _ ms _ _) = ms"
| "members _ = []"

text \<open>
  A value conforms when its type is compatible, every element of a list is compatible
  with the first of the reference, and every member of the reference is present and conforms.
\<close>

fun conforms :: "config_value \<Rightarrow> config_value \<Rightarrow> bool" where
  "conforms (SimpleConfigObject ro rs rst rig) v \<longleftrightarrow>
     compatible (SimpleConfigObject ro rs rst rig) v \<and>
     (is_object v \<longrightarrow> (\<forall>e \<in> set rs. case map_of (members v) (fst e) of None \<Rightarrow> False | Some w \<Rightarrow> conforms (snd e) w))"
| "conforms r v \<longleftrightarrow>
     compatible r v \<and> (elements r \<noteq> [] \<longrightarrow> (\<forall>e \<in> set (elements v). compatible (hd (elements r)) e))"

text \<open>A problem that names a path of the reference where the value is missing or does not conform.\<close>

definition violates :: "string list \<Rightarrow> config_value \<Rightarrow> config_value \<Rightarrow> validation_problem \<Rightarrow> bool" where
  "violates pre r v p \<longleftrightarrow>
     (\<exists>q ks r'. problem_path p = path_render q \<and> path_keys q = pre @ ks \<and> look r ks = Some r' \<and>
        (case look v ks of None \<Rightarrow> True | Some v' \<Rightarrow> \<not> conforms r' v'))"

definition checks :: "string list \<Rightarrow> config_value \<Rightarrow> config_value \<Rightarrow> config_exception + validation_problem list \<Rightarrow> bool" where
  "checks pre r v res \<longleftrightarrow>
     (\<exists>ps. res = Inr ps \<and> (ps = [] \<longleftrightarrow> conforms r v) \<and> (\<forall>p \<in> set ps. violates pre r v p))"

subsection \<open>The steps\<close>

lemma get_desc_ok: "resolved_ok v \<Longrightarrow> \<exists>d. get_desc v = Inr d"
  by (cases v) (auto simp: get_desc_def resolved_ok_def)

lemma could_be_null_nullish: "resolved_ok v \<Longrightarrow> could_be_null fp v = Inr (nullish v)"
  by (cases v) (auto simp: could_be_null_def transform_def transform_string_def resolved_ok_def)

lemma have_compatible_types_eq:
  "resolved_ok r \<Longrightarrow> resolved_ok v \<Longrightarrow> have_compatible_types fp r v = Inr (compatible r v)"
  using resolved_value_type [of r] resolved_value_type [of v]
  by (auto simp: have_compatible_types_def could_be_null_nullish compatible_def)

lemma child_path_keys: "\<exists>c. child_path par k = Inr c \<and> path_keys c = opt_keys par @ [k]"
proof (cases par)
  case (Some p)
  then show ?thesis using prepend_keys [of "new_key k" p] by (auto simp: child_path_def new_key_def)
qed (simp add: child_path_def new_key_def)

lemma violates_here: "\<not> conforms r v \<Longrightarrow> path_keys q = pre \<Longrightarrow> problem_path p = path_render q \<Longrightarrow> violates pre r v p"
  unfolding violates_def by (intro exI [of _ q] exI [of _ "[]"]) simp

lemma check_elements_ok:
  "resolved_ok r \<Longrightarrow> \<forall>e \<in> set es. resolved_ok e \<Longrightarrow>
   \<exists>ps. check_elements fp path r es = Inr ps \<and> (ps = [] \<longleftrightarrow> (\<forall>e \<in> set es. compatible r e)) \<and>
        (\<forall>p \<in> set ps. problem_path p = path_render path)"
proof (induction es)
  case (Cons e es)
  show ?case
  proof (cases "compatible r e")
    case True
    with Cons show ?thesis by (simp add: have_compatible_types_eq)
  next
    case False
    obtain d a where "get_desc r = Inr d" "get_desc e = Inr a" using get_desc_ok Cons.prems by force
    with False Cons.prems show ?thesis
      by (simp add: have_compatible_types_eq add_wrong_element_def add_problem_def)
  qed
qed simp

lemma resolved_elements:
  "resolved_ok (SimpleConfigList orig vs st) \<Longrightarrow> \<forall>v \<in> set vs. resolved_ok v"
  using from_values_iff [of vs] by (auto simp: resolved_ok_def)

lemma elements_resolved: "resolved_ok v \<Longrightarrow> \<forall>e \<in> set (elements v). resolved_ok e"
  using resolved_elements by (cases v) auto

lemma check_list_eq:
  "check_list fp path r v =
     (if elements r = [] \<or> elements v = [] then Inr [] else check_elements fp path (hd (elements r)) (elements v))"
  by (cases r; cases v) (auto simp: check_list_def split: list.split)

lemma wrong_type_ok:
  "resolved_ok r \<Longrightarrow> resolved_ok v \<Longrightarrow>
   \<exists>p. add_wrong_type r v path = Inr p \<and> problem_path p = path_render path"
  using get_desc_ok [of r] get_desc_ok [of v] by (auto simp: add_wrong_type_def add_problem_def)

lemma missing_ok:
  "resolved_ok r \<Longrightarrow> \<exists>p. add_missing r path orig = Inr p \<and> problem_path p = path_render path"
  using get_desc_ok [of r] by (auto simp: add_missing_def add_problem_def)

lemma conforms_leaf:
  "\<not> is_simple_object r \<Longrightarrow> conforms r v \<longleftrightarrow>
     compatible r v \<and> (elements r \<noteq> [] \<longrightarrow> (\<forall>e \<in> set (elements v). compatible (hd (elements r)) e))"
  by (cases r) auto

lemma check_leaf:
  assumes "\<not> is_simple_object r" "resolved_ok r" "resolved_ok v"
  shows "checks (path_keys path) r v (check_valid_value fp path r v)"
proof -
  have "\<not> is_object r" using assms(1,2) by (cases r) (auto simp: resolved_ok_def)
  then have eq: "check_valid_value fp path r v =
      (if compatible r v then check_list fp path r v else bind_exc (add_wrong_type r v path) (\<lambda>p. Inr [p]))"
    using assms by (cases r) (simp_all add: have_compatible_types_eq)
  show ?thesis
  proof (cases "compatible r v")
    case False
    obtain p where p: "add_wrong_type r v path = Inr p" "problem_path p = path_render path"
      using wrong_type_ok assms by blast
    have "\<not> conforms r v" using False conforms_leaf [OF assms(1)] by simp
    with violates_here p False show ?thesis by (simp add: eq checks_def)
  next
    case True
    show ?thesis
    proof (cases "elements r = [] \<or> elements v = []")
      case True
      with \<open>compatible r v\<close> show ?thesis
        by (auto simp: eq checks_def check_list_eq conforms_leaf [OF assms(1)])
    next
      case False
      then have hd: "resolved_ok (hd (elements r))" using elements_resolved [OF assms(2)] by simp
      obtain ps where ps: "check_elements fp path (hd (elements r)) (elements v) = Inr ps"
        "ps = [] \<longleftrightarrow> (\<forall>e \<in> set (elements v). compatible (hd (elements r)) e)"
        "\<forall>p \<in> set ps. problem_path p = path_render path"
        using check_elements_ok [OF hd elements_resolved [OF assms(3)]] by blast
      have c: "ps = [] \<longleftrightarrow> conforms r v"
        using ps(2) False \<open>compatible r v\<close> by (simp add: conforms_leaf [OF assms(1)])
      have "violates (path_keys path) r v p" if "p \<in> set ps" for p
        using that c ps(3) by (intro violates_here [OF _ refl]) auto
      with ps(1) c False \<open>compatible r v\<close> show ?thesis by (auto simp: eq checks_def check_list_eq)
    qed
  qed
qed


definition members_checked ::
  "string list \<Rightarrow> (string \<times> config_value) list \<Rightarrow> config_value \<Rightarrow> config_exception + validation_problem list \<Rightarrow> bool" where
  "members_checked pre rs v res \<longleftrightarrow>
     (\<exists>ps. res = Inr ps \<and>
        (ps = [] \<longleftrightarrow> (\<forall>e \<in> set rs. case map_of (members v) (fst e) of None \<Rightarrow> False | Some w \<Rightarrow> conforms (snd e) w)) \<and>
        (\<forall>p \<in> set ps. \<exists>e \<in> set rs. case map_of (members v) (fst e) of
           None \<Rightarrow> \<exists>q. path_keys q = pre @ [fst e] \<and> problem_path p = path_render q
         | Some w \<Rightarrow> violates (pre @ [fst e]) (snd e) w p))"

lemma violates_member:
  assumes r: "resolved_ok (SimpleConfigObject ro rs rst rig)" and e: "e \<in> set rs" and v: "resolved_ok v" "is_object v"
    and p: "case map_of (members v) (fst e) of
           None \<Rightarrow> \<exists>q. path_keys q = pre @ [fst e] \<and> problem_path p = path_render q
         | Some w \<Rightarrow> violates (pre @ [fst e]) (snd e) w p"
  shows "violates pre (SimpleConfigObject ro rs rst rig) v p"
proof -
  let ?r = "SimpleConfigObject ro rs rst rig"
  have "map_of rs (fst e) = Some (snd e)"
    using r e by (auto simp: resolved_ok_def)
  then have lr: "look ?r (fst e # ks) = look (snd e) ks" for ks by simp
  obtain orig ms ig where "v = SimpleConfigObject orig ms RESOLVED ig" using resolved_object [OF v] by blast
  then have lv: "look v (fst e # ks) = (case map_of (members v) (fst e) of None \<Rightarrow> None | Some w \<Rightarrow> look w ks)" for ks
    by simp
  show ?thesis
  proof (cases "map_of (members v) (fst e)")
    case None
    then show ?thesis
      using p lr [of "[]"] lv [of "[]"] unfolding violates_def by (auto intro!: exI [of _ "[fst e]"])
  next
    case (Some w)
    then obtain q ks r' where "problem_path p = path_render q" "path_keys q = pre @ fst e # ks"
      "look (snd e) ks = Some r'" "case look w ks of None \<Rightarrow> True | Some v' \<Rightarrow> \<not> conforms r' v'"
      using p unfolding violates_def by auto
    with Some lr lv show ?thesis
      unfolding violates_def by (intro exI [of _ q] exI [of _ "fst e # ks"] exI [of _ r']) simp
  qed
qed

lemma check_object:
  assumes r: "resolved_ok (SimpleConfigObject ro rs rst rig)" and v: "resolved_ok v"
    and m: "is_object v \<Longrightarrow> members_checked (path_keys path) rs v (check_valid_object fp (Some path) rs v)"
  shows "checks (path_keys path) (SimpleConfigObject ro rs rst rig) v
           (check_valid_value fp path (SimpleConfigObject ro rs rst rig) v)"
proof -
  let ?r = "SimpleConfigObject ro rs rst rig"
  have eq: "check_valid_value fp path ?r v =
      (if compatible ?r v then if is_object v then check_valid_object fp (Some path) rs v else Inr []
       else bind_exc (add_wrong_type ?r v path) (\<lambda>p. Inr [p]))"
    by (simp add: have_compatible_types_eq [OF r v])
  show ?thesis
  proof (cases "compatible ?r v")
    case False
    obtain p where p: "add_wrong_type ?r v path = Inr p" "problem_path p = path_render path"
      using wrong_type_ok [OF r v] by blast
    have "\<not> conforms ?r v" using False by simp
    then have "violates (path_keys path) ?r v p" using violates_here p(2) by blast
    with \<open>\<not> conforms ?r v\<close> p(1) False show ?thesis unfolding eq checks_def by simp
  next
    case True
    show ?thesis
    proof (cases "is_object v")
      case False
      with True show ?thesis unfolding eq checks_def by simp
    next
      case obj: True
      then obtain ps where ps: "check_valid_object fp (Some path) rs v = Inr ps"
        "ps = [] \<longleftrightarrow> (\<forall>e \<in> set rs. case map_of (members v) (fst e) of None \<Rightarrow> False | Some w \<Rightarrow> conforms (snd e) w)"
        and bad: "\<forall>p \<in> set ps. \<exists>e \<in> set rs. case map_of (members v) (fst e) of
           None \<Rightarrow> \<exists>q. path_keys q = path_keys path @ [fst e] \<and> problem_path p = path_render q
         | Some w \<Rightarrow> violates (path_keys path @ [fst e]) (snd e) w p"
        using m unfolding members_checked_def by blast
      have "\<forall>p \<in> set ps. violates (path_keys path) ?r v p"
        using bad violates_member [OF r _ v obj] by blast
      with ps True obj show ?thesis unfolding eq checks_def by simp
    qed
  qed
qed

lemma check_valid_checks:
  "resolved_ok r \<Longrightarrow> resolved_ok v \<Longrightarrow> checks (path_keys path) r v (check_valid_value fp path r v)"
  and check_members_checked:
  "\<forall>e \<in> set rs. resolved_ok (snd e) \<Longrightarrow> resolved_ok v \<Longrightarrow> is_object v \<Longrightarrow>
   members_checked (opt_keys par) rs v (check_valid_object fp par rs v)"
proof (induction fp path r v and fp par rs v rule: check_valid_value_check_valid_object.induct)
  case (1 fp path ro rs rst rig v)
  have m: "compatible (SimpleConfigObject ro rs rst rig) v" if "is_object v" using that by (simp add: compatible_def)
  show ?case
    by (rule check_object [OF 1(2,3)])
       (use 1 resolved_members [OF 1(2)] in \<open>simp add: have_compatible_types_eq m\<close>)
next
  case (4 fp par key r rs v)
  obtain c where c: "child_path par key = Inr c" "path_keys c = opt_keys par @ [key]"
    using child_path_keys by blast
  obtain orig ms ig where v: "v = SimpleConfigObject orig ms RESOLVED ig"
    using resolved_object [OF 4(4,5)] by blast
  have r: "resolved_ok r" and rs: "\<forall>e \<in> set rs. resolved_ok (snd e)" using 4(3) by auto
  obtain ps' where rest: "check_valid_object fp par rs v = Inr ps'"
    "ps' = [] \<longleftrightarrow> (\<forall>e \<in> set rs. case map_of (members v) (fst e) of None \<Rightarrow> False | Some w \<Rightarrow> conforms (snd e) w)"
    and bad: "\<forall>p \<in> set ps'. \<exists>e \<in> set rs. case map_of (members v) (fst e) of
         None \<Rightarrow> \<exists>q. path_keys q = opt_keys par @ [fst e] \<and> problem_path p = path_render q
       | Some w \<Rightarrow> violates (opt_keys par @ [fst e]) (snd e) w p"
    using 4(2) [OF rs 4(4,5)] unfolding members_checked_def by blast
  show ?case
  proof (cases "map_of ms key")
    case None
    obtain p where "add_missing r c orig = Inr p" "problem_path p = path_render c"
      using missing_ok [OF r] by blast
    with None c rest bad show ?thesis
      by (auto simp: members_checked_def v intro!: exI [of _ c])
  next
    case (Some w)
    then have w: "resolved_ok w" using resolved_member 4(4) v by blast
    obtain ps where ps: "check_valid_value fp c r w = Inr ps" "ps = [] \<longleftrightarrow> conforms r w"
      "\<forall>p \<in> set ps. violates (opt_keys par @ [key]) r w p"
      using 4(1) [OF Some r w, of c] c(2) unfolding checks_def by auto
    with Some c rest bad show ?thesis
      by (auto simp: members_checked_def v)
  qed
qed (auto intro: check_leaf simp: members_checked_def simp del: check_valid_value.simps)


lemma check_root:
  assumes "resolved_ok ref" "is_object ref" "resolved_ok self" "is_object self"
  shows "\<exists>ps. bind_exc (entries ref) (\<lambda>rs. check_valid_object fp None rs self) = Inr ps \<and>
     (ps = [] \<longleftrightarrow> conforms ref self) \<and> (\<forall>p \<in> set ps. violates [] ref self p)"
proof -
  obtain ro rs rig where ref: "ref = SimpleConfigObject ro rs RESOLVED rig"
    using resolved_object [OF assms(1,2)] by blast
  have rs: "\<forall>e \<in> set rs. resolved_ok (snd e)" using resolved_members assms(1) ref by blast
  obtain ps where ps: "check_valid_object fp None rs self = Inr ps"
    "ps = [] \<longleftrightarrow> (\<forall>e \<in> set rs. case map_of (members self) (fst e) of None \<Rightarrow> False | Some w \<Rightarrow> conforms (snd e) w)"
    and bad: "\<forall>p \<in> set ps. \<exists>e \<in> set rs. case map_of (members self) (fst e) of
         None \<Rightarrow> \<exists>q. path_keys q = [] @ [fst e] \<and> problem_path p = path_render q
       | Some w \<Rightarrow> violates ([] @ [fst e]) (snd e) w p"
    using check_members_checked [OF rs assms(3,4), of None fp] unfolding members_checked_def opt_keys_simps by blast
  have "compatible ref self" using assms(2,4) by (simp add: compatible_def)
  moreover have "\<forall>p \<in> set ps. violates [] ref self p"
    using bad violates_member [of ro rs RESOLVED rig _ self "[]"] assms ref by blast
  ultimately show ?thesis using ps assms(4) ref by auto
qed



end
