(* ===== verification/Config_Render.thy ===== *)
theory Config_Render
  imports Config_Object
begin

section \<open>Rendering of values (the render methods of config/src/detail, config_render_options.cpp)\<close>

text \<open>
  The text a value is written as.  The source appends to a string and chops the last separator
  again; here each call gives the text it appends, and the chopping is of that text, as every
  member has appended a separator.  The order of the members of an object is that of the list.
\<close>

subsection \<open>Options\<close>

record render_options =
  get_origin_comments :: bool
  get_comments :: bool
  get_formatted :: bool
  get_json :: bool

definition make_render_options :: "bool \<Rightarrow> bool \<Rightarrow> bool \<Rightarrow> bool \<Rightarrow> render_options" where
  "make_render_options oc c f j =
     \<lparr>get_origin_comments = oc, get_comments = c, get_formatted = f, get_json = j\<rparr>"

definition render_defaults :: render_options where
  "render_defaults = make_render_options True True True True"

definition render_concise :: render_options where
  "render_concise = make_render_options False False False True"

definition set_render_comments :: "bool \<Rightarrow> render_options \<Rightarrow> render_options" where
  "set_render_comments v opts =
     (if v = get_comments opts then opts
      else make_render_options (get_origin_comments opts) v (get_formatted opts) (get_json opts))"

definition set_origin_comments :: "bool \<Rightarrow> render_options \<Rightarrow> render_options" where
  "set_origin_comments v opts =
     (if v = get_origin_comments opts then opts
      else make_render_options v (get_comments opts) (get_formatted opts) (get_json opts))"

definition set_formatted :: "bool \<Rightarrow> render_options \<Rightarrow> render_options" where
  "set_formatted v opts =
     (if v = get_formatted opts then opts
      else make_render_options (get_origin_comments opts) (get_comments opts) v (get_json opts))"

definition set_json :: "bool \<Rightarrow> render_options \<Rightarrow> render_options" where
  "set_json v opts =
     (if v = get_json opts then opts
      else make_render_options (get_origin_comments opts) (get_comments opts) (get_formatted opts) v)"

definition render_options_to_string :: "render_options \<Rightarrow> string" where
  "render_options_to_string opts =
     (let s = ''ConfigRenderOptions('' @ (if get_origin_comments opts then ''origin_comments,'' else []) @
            (if get_comments opts then ''comments,'' else []) @ (if get_formatted opts then ''formatted,'' else []) @
            (if get_json opts then ''json,'' else [])
      in (if last s = CHR '','' then butlast s else s) @ '')'')"

subsection \<open>Pieces\<close>

definition newline :: string where
  "newline = [CHR 0x0A]"

definition indent :: "nat \<Rightarrow> render_options \<Rightarrow> string" where
  "indent n opts = (if get_formatted opts then concat (replicate n ''    '') else [])"

text \<open>The comment lines before a member.\<close>

definition member_comments :: "nat \<Rightarrow> render_options \<Rightarrow> config_value \<Rightarrow> string" where
  "member_comments n opts v =
     (if get_origin_comments opts then indent n opts @ ''# '' @ description (value_origin v) @ newline else []) @
     (if get_comments opts
      then concat (map (\<lambda>c. indent n opts @ ''# '' @ c @ newline) (comments_or_null (value_origin v))) else [])"

definition render_key_text :: "render_options \<Rightarrow> bool \<Rightarrow> string \<Rightarrow> string" where
  "render_key_text opts before_object key =
     (if get_json opts
      then render_json_string key @ (if get_formatted opts then '' : '' else '':'')
      else render_string_unquoted_if_possible key @
           (if before_object then (if get_formatted opts then '' '' else []) else ''=''))"

definition string_text :: "render_options \<Rightarrow> string \<Rightarrow> string" where
  "string_text opts s = (if get_json opts then render_json_string s else render_string_unquoted_if_possible s)"

definition expr_to_string :: "substitution_expression \<Rightarrow> string" where
  "expr_to_string e = ''${'' @ (if expr_optional e then ''?'' else []) @ path_render (expr_path e) @ ''}''"

definition chop :: "nat \<Rightarrow> string \<Rightarrow> string" where
  "chop n s = take (length s - n) s"

definition unmerged_comments :: "nat \<Rightarrow> string option \<Rightarrow> render_options \<Rightarrow> nat \<Rightarrow> config_value \<Rightarrow> string" where
  "unmerged_comments n at_key opts i v =
     indent n opts @ ''#     unmerged value '' @ show_nat i @
     (case at_key of Some k \<Rightarrow> '' for key '' @ render_json_string k | None \<Rightarrow> []) @ '' from '' @
     description (value_origin v) @ newline @
     concat (map (\<lambda>c. indent n opts @ ''# '' @ c @ newline) (comments_or_null (value_origin v)))"

definition merge_header :: "nat \<Rightarrow> string option \<Rightarrow> render_options \<Rightarrow> nat \<Rightarrow> string" where
  "merge_header n at_key opts count =
     (if get_comments opts
      then ''# unresolved merge of '' @ show_nat count @ '' values follows ('' @ newline @
           (if at_key = None
            then indent n opts @ ''# this unresolved merge will not be parseable because it'' @ [CHR 0x27] @ ''s at the root of the object'' @ newline @
                 indent n opts @ ''# the HOCON format has no way to list multiple root objects in a single file'' @ newline
            else [])
      else [])"

subsection \<open>Containers, given the texts of what they hold\<close>

definition list_text :: "render_options \<Rightarrow> nat \<Rightarrow> (config_value \<times> string) list \<Rightarrow> string" where
  "list_text opts n es =
     (let body = concat (map (\<lambda>(v, s). member_comments (n + 1) opts v @ indent (n + 1) opts @ s @ '','' @
                   (if get_formatted opts then newline else [])) es)
      in ''['' @ (if get_formatted opts then newline else []) @
         (if get_formatted opts then chop 1 (chop 1 body) @ newline @ indent n opts else chop 1 body) @ '']'')"

definition object_text :: "render_options \<Rightarrow> nat \<Rightarrow> (config_value \<times> string) list \<Rightarrow> string" where
  "object_text opts n es =
     (let outer_braces = (n > 0 \<or> get_json opts);
          body = concat (map (\<lambda>(v, s). member_comments (n + 1) opts v @ indent (n + 1) opts @ s @
                   (if get_formatted opts then (if get_json opts then '','' else []) @ newline else '','')) es);
          separator_count = (if get_formatted opts \<and> get_json opts then 2 else 1)
      in (if outer_braces then ''{'' else []) @ (if get_formatted opts then newline else []) @
         chop separator_count body @ (if get_formatted opts then newline @ indent n opts else []) @
         (if outer_braces then ''}'' else []))"

definition merge_text :: "render_options \<Rightarrow> nat \<Rightarrow> string option \<Rightarrow> (config_value \<times> string) list \<Rightarrow> string" where
  "merge_text opts n at_key es =
     (let body = concat (map (\<lambda>(i, v, s).
            (if get_comments opts then unmerged_comments n at_key opts i v else []) @ indent n opts @
            (case at_key of Some k \<Rightarrow> render_json_string k @ (if get_formatted opts then '' : '' else '':'') | None \<Rightarrow> []) @
            s @ '','' @ (if get_formatted opts then newline else [])) (enumerate 0 (rev es)))
      in merge_header n at_key opts (length es) @
         (if get_formatted opts then chop 1 (chop 1 body) @ newline else chop 1 body) @
         (if get_comments opts then indent n opts @ ''# ) end of unresolved merge'' @ newline else []))"

subsection \<open>Values\<close>

text \<open>
  The method that takes an optional key, and the one without.  A delayed merge overrides only
  the first, so that the second asks for its unwrapped value, which raises.
\<close>

datatype render_mode = Plain | Keyed "string option"

fun mode_key :: "render_mode \<Rightarrow> string option" where
  "mode_key Plain = None" | "mode_key (Keyed k) = k"

definition key_prefix :: "render_options \<Rightarrow> render_mode \<Rightarrow> bool \<Rightarrow> string" where
  "key_prefix opts m before_object =
     (case mode_key m of None \<Rightarrow> [] | Some k \<Rightarrow> render_key_text opts before_object k)"

fun render_value :: "fp_text \<Rightarrow> render_options \<Rightarrow> render_mode \<Rightarrow> nat \<Rightarrow> config_value \<Rightarrow> config_exception + string"
  and render_each :: "fp_text \<Rightarrow> render_options \<Rightarrow> nat \<Rightarrow> config_value list \<Rightarrow> config_exception + string list"
  and render_members :: "fp_text \<Rightarrow> render_options \<Rightarrow> nat \<Rightarrow> (string \<times> config_value) list \<Rightarrow> config_exception + string list" where
  "render_value fp opts m n (ConfigNull _) = Inr (key_prefix opts m False @ ''null'')"
| "render_value fp opts m n (ConfigBoolean _ b) = Inr (key_prefix opts m False @ (if b then ''true'' else ''false''))"
| "render_value fp opts m n (ConfigInt _ i _) = Inr (key_prefix opts m False @ show_int i)"
| "render_value fp opts m n (ConfigInt64 _ i _) = Inr (key_prefix opts m False @ show_int i)"
| "render_value fp opts m n (ConfigDouble _ d _) = Inr (key_prefix opts m False @ show_double fp d)"
| "render_value fp opts m n (ConfigString _ s) =
     Inr (key_prefix opts m False @ string_text opts s)"
| "render_value fp opts m n (SimpleConfigList _ vs _) =
     bind_exc (render_each fp opts (n + 1) vs) (\<lambda>ss.
       Inr (key_prefix opts m False @ (if vs = [] then ''[]'' else list_text opts n (zip vs ss))))"
| "render_value fp opts m n (SimpleConfigObject _ ms _ _) =
     bind_exc (render_members fp opts (n + 1) ms) (\<lambda>ss.
       Inr (key_prefix opts m True @ (if ms = [] then ''{}'' else object_text opts n (zip (map snd ms) ss))))"
| "render_value fp opts m n (ConfigReference _ e _) = Inr (key_prefix opts m False @ expr_to_string e)"
| "render_value fp opts m n (ConfigConcatenation _ ps) =
     bind_exc (render_each fp opts n ps) (\<lambda>ss. Inr (key_prefix opts m False @ concat ss))"
| "render_value fp opts m n (ConfigDelayedMerge _ stack) =
     (case m of
        Plain \<Rightarrow> Inl ConfigExceptionNotResolved
      | Keyed k \<Rightarrow> bind_exc (render_each fp opts n stack) (\<lambda>ss. Inr (merge_text opts n k (zip stack ss))))"
| "render_value fp opts m n (ConfigDelayedMergeObject _ stack) =
     bind_exc (render_each fp opts n stack) (\<lambda>ss. Inr (merge_text opts n (mode_key m) (zip stack ss)))"
| "render_each fp opts n [] = Inr []"
| "render_each fp opts n (v # vs) =
     bind_exc (render_value fp opts Plain n v) (\<lambda>s. bind_exc (render_each fp opts n vs) (\<lambda>ss. Inr (s # ss)))"
| "render_members fp opts n [] = Inr []"
| "render_members fp opts n ((k, v) # ms) =
     bind_exc (render_value fp opts (Keyed (Some k)) n v) (\<lambda>s. bind_exc (render_members fp opts n ms) (\<lambda>ss. Inr (s # ss)))"

definition render :: "fp_text \<Rightarrow> render_options \<Rightarrow> config_value \<Rightarrow> config_exception + string" where
  "render fp opts v = render_value fp opts (Keyed None) 0 v"

definition value_to_string :: "fp_text \<Rightarrow> string \<Rightarrow> config_value \<Rightarrow> config_exception + string" where
  "value_to_string fp class_name v =
     bind_exc (render fp render_concise v) (\<lambda>s. Inr (class_name @ ''('' @ s @ '')''))"

end
