(* ===== verification/Config_Parser.thy ===== *)
theory Config_Parser
  imports Config_Concat Path_Parser "HOL-Library.AList"
begin

section \<open>The parser of configurations (config/src/detail/parser.cpp)\<close>

text \<open>
  \<^verbatim>\<open>ParseContext\<close> with all its methods, as functions on the context; an exception ends the
  parse and the context with it.  The includer, an interface users implement, is an
  argument, and so is the double conversion of the tokenizer.  The loops run on fuel.
\<close>

subsection \<open>State\<close>

record token_with_comments =
  twc_token :: token
  twc_comments :: "token list"

record parse_context =
  pc_line :: int
  pc_buffer :: "token_with_comments list"
  pc_tokens :: token_iterator
  pc_flavor :: config_syntax
  pc_origin :: config_origin
  pc_path_stack :: "config_path list"
  pc_equals :: int

record full_includer =
  include_any :: "string \<Rightarrow> tok_exception + config_value"
  include_file :: "string \<Rightarrow> tok_exception + config_value"

type_synonym 'a parser = "parse_context \<Rightarrow> tok_exception + 'a \<times> parse_context"

definition parse_then :: "'a parser \<Rightarrow> ('a \<Rightarrow> 'b parser) \<Rightarrow> 'b parser" where
  "parse_then m f s = (case m s of Inl e \<Rightarrow> Inl e | Inr (x, s') \<Rightarrow> f x s')"

definition parse_return :: "'a \<Rightarrow> 'a parser" where
  "parse_return x s = Inr (x, s)"

definition parse_lift :: "tok_exception + 'a \<Rightarrow> 'a parser" where
  "parse_lift m s = (case m of Inl e \<Rightarrow> Inl e | Inr x \<Rightarrow> Inr (x, s))"

definition parse_exc :: "config_exception + 'a \<Rightarrow> 'a parser" where
  "parse_exc m = parse_lift (lift_exc m)"

definition parse_get :: "(parse_context \<Rightarrow> 'a) \<Rightarrow> 'a parser" where
  "parse_get f s = Inr (f s, s)"

definition parse_set :: "(parse_context \<Rightarrow> parse_context) \<Rightarrow> unit parser" where
  "parse_set f s = Inr ((), f s)"

definition new_context :: "config_syntax \<Rightarrow> config_origin \<Rightarrow> token_iterator \<Rightarrow> parse_context" where
  "new_context flavor orig it =
     \<lparr>pc_line = 1, pc_buffer = [], pc_tokens = it, pc_flavor = flavor, pc_origin = orig,
      pc_path_stack = [], pc_equals = 0\<rparr>"

subsection \<open>Tokens with comments\<close>

definition plain_token :: "token \<Rightarrow> token_with_comments" where
  "plain_token t = \<lparr>twc_token = t, twc_comments = []\<rparr>"

definition prepend_comments :: "token list \<Rightarrow> token_with_comments \<Rightarrow> token_with_comments" where
  "prepend_comments earlier t =
     (if twc_comments t = [] then t\<lparr>twc_comments := earlier\<rparr> else t\<lparr>twc_comments := earlier @ twc_comments t\<rparr>)"

fun comment_texts :: "fp_text \<Rightarrow> token list \<Rightarrow> config_exception + string list" where
  "comment_texts fp [] = Inr []"
| "comment_texts fp (c # cs) =
     bind_exc (get_comment_text fp c) (\<lambda>s. bind_exc (comment_texts fp cs) (\<lambda>ss. Inr (s # ss)))"

definition set_token_comments ::
  "fp_text \<Rightarrow> token_with_comments \<Rightarrow> config_origin \<Rightarrow> config_exception + config_origin" where
  "set_token_comments fp t orig =
     (if twc_comments t = [] then Inr orig
      else bind_exc (comment_texts fp (twc_comments t)) (\<lambda>new_comments. set_comments orig new_comments))"

subsection \<open>Messages\<close>

definition pc_line_origin :: "parse_context \<Rightarrow> config_exception + config_origin" where
  "pc_line_origin s = set_line_number (pc_origin s) (pc_line s)"

definition parse_error :: "string \<Rightarrow> 'a parser" where
  "parse_error message s =
     (case pc_line_origin s of
        Inl e \<Rightarrow> Inl (TokException e)
      | Inr orig \<Rightarrow> Inl (TokException (ConfigExceptionParse orig message)))"

definition previous_field_name :: "config_path option \<Rightarrow> parse_context \<Rightarrow> string" where
  "previous_field_name last_path s =
     (case last_path of
        Some p \<Rightarrow> path_render p
      | None \<Rightarrow> (case pc_path_stack s of [] \<Rightarrow> [] | p # _ \<Rightarrow> path_render p))"

fun full_path_loop :: "config_path option \<Rightarrow> config_path list \<Rightarrow> config_exception + config_path option" where
  "full_path_loop full [] = Inr full"
| "full_path_loop None (p # ps) = full_path_loop (Some p) ps"
| "full_path_loop (Some f) (p # ps) = bind_exc (prepend f p) (\<lambda>full. full_path_loop full ps)"

definition full_current_path :: "parse_context \<Rightarrow> config_exception + config_path option" where
  "full_current_path s = full_path_loop None (pc_path_stack s)"

definition in_single_quotes :: "string \<Rightarrow> string" where
  "in_single_quotes s = CHR 0x27 # s @ [CHR 0x27]"

definition add_key_name :: "string \<Rightarrow> parse_context \<Rightarrow> string" where
  "add_key_name message s =
     (let name = previous_field_name None s
      in if name = [] then ''in value for key '' @ in_single_quotes name @ '': '' @ message else message)"

definition add_quote_suggestion_at ::
  "config_path option \<Rightarrow> bool \<Rightarrow> string \<Rightarrow> string \<Rightarrow> parse_context \<Rightarrow> string" where
  "add_quote_suggestion_at last_path inside_equals bad_token message s =
     (let name = previous_field_name last_path s;
          finish = (\<lambda>part. part @ (if inside_equals
                     then '', or you may be able to rename the file .properties rather than .conf)'' else '')''))
      in if bad_token = plain_to_string END
         then if name \<noteq> []
              then finish (message @ '' (if you intended '' @ in_single_quotes name @
                     '' to be part of a value, instead of a key, try adding double quotes around the whole value'')
              else message
         else if name \<noteq> []
         then finish (message @ '' (if you intended '' @ bad_token @ '' to be part of the value for '' @
                in_single_quotes name @ '', try enclosing the value in double quotes'')
         else finish (message @ '' (if you intended '' @ bad_token @
                '' to be part of a key or string value, try enclosing the key or value in double quotes''))"

definition add_quote_suggestion :: "string \<Rightarrow> string \<Rightarrow> parse_context \<Rightarrow> string" where
  "add_quote_suggestion bad_token message s = add_quote_suggestion_at None (pc_equals s > 0) bad_token message s"

text \<open>An error whose text names a token and depends on the context.\<close>

definition token_error :: "fp_text \<Rightarrow> token \<Rightarrow> (string \<Rightarrow> parse_context \<Rightarrow> string) \<Rightarrow> 'a parser" where
  "token_error fp t message =
     parse_then (parse_exc (token_to_string fp t)) (\<lambda>text.
     parse_then (parse_get (message text)) parse_error)"

subsection \<open>Taking tokens\<close>

definition pull_token :: "fp_text \<Rightarrow> token parser" where
  "pull_token fp s =
     (case iter_next fp (pc_tokens s) of
        (Inl e, _) \<Rightarrow> Inl e
      | (Inr t, it) \<Rightarrow> Inr (t, s\<lparr>pc_tokens := it\<rparr>))"

fun comment_block ::
  "fp_text \<Rightarrow> nat \<Rightarrow> token list \<Rightarrow> token list \<Rightarrow> token option \<Rightarrow> token \<Rightarrow> unit parser" where
  "comment_block fp 0 newlines comments previous nxt = parse_lift (Inl OutOfFuel)"
| "comment_block fp (Suc n) newlines comments previous nxt =
     (if is_newline nxt
      then let comments' = (case previous of Some p \<Rightarrow> if is_newline p then [] else comments | None \<Rightarrow> comments)
           in parse_then (pull_token fp) (comment_block fp n (newlines @ [nxt]) comments' (Some nxt))
      else if is_comment nxt
      then parse_then (pull_token fp) (comment_block fp n newlines (comments @ [nxt]) (Some nxt))
      else parse_set (\<lambda>s. s\<lparr>pc_buffer := map plain_token newlines @
             \<lparr>twc_token = nxt, twc_comments = comments\<rparr> # pc_buffer s\<rparr>))"

definition consolidate_comment_block :: "fp_text \<Rightarrow> nat \<Rightarrow> token \<Rightarrow> unit parser" where
  "consolidate_comment_block fp n comment_token = comment_block fp n [] [] None comment_token"

text \<open>\<^verbatim>\<open>front\<close> and \<^verbatim>\<open>pop_front\<close> of the buffer.\<close>

definition pop_buffer :: "token_with_comments parser" where
  "pop_buffer s =
     (case pc_buffer s of [] \<Rightarrow> Inl (TokException NullPointer) | t # ts \<Rightarrow> Inr (t, s\<lparr>pc_buffer := ts\<rparr>))"

definition pop_token :: "fp_text \<Rightarrow> nat \<Rightarrow> token_with_comments parser" where
  "pop_token fp n =
     parse_then (parse_get pc_buffer) (\<lambda>buf.
       if buf = []
       then parse_then (pull_token fp) (\<lambda>t.
              if is_comment t then parse_then (consolidate_comment_block fp n t) (\<lambda>_. pop_buffer)
              else parse_return (plain_token t))
       else pop_buffer)"

definition pc_put_back :: "token_with_comments \<Rightarrow> unit parser" where
  "pc_put_back t = parse_set (\<lambda>s. s\<lparr>pc_buffer := t # pc_buffer s\<rparr>)"

definition pc_next_token :: "fp_text \<Rightarrow> nat \<Rightarrow> token_with_comments parser" where
  "pc_next_token fp n =
     parse_then (pop_token fp n) (\<lambda>with_comments.
       let t = twc_token with_comments
       in if is_problem t
          then parse_then (parse_exc (token_origin t)) (\<lambda>orig.
               parse_then (parse_exc (get_problem_message fp t)) (\<lambda>message.
               parse_then (parse_exc (get_problem_suggest_quotes fp t)) (\<lambda>suggest_quotes.
               parse_then (if suggest_quotes
                           then parse_then (parse_exc (token_to_string fp t)) (\<lambda>text.
                                  parse_get (add_quote_suggestion text message))
                           else parse_get (add_key_name message)) (\<lambda>message'.
               parse_lift (Inl (TokException (ConfigExceptionParse orig message')))))))
          else parse_then (parse_get pc_flavor) (\<lambda>flavor.
               if flavor = JSON \<and> is_unquoted_text t
               then parse_then (parse_exc (get_unquoted_text fp t)) (\<lambda>text.
                    parse_then (parse_get (add_key_name (''_token not allowed in valid JSON: '' @ in_single_quotes text)))
                      parse_error)
               else if flavor = JSON \<and> is_substitution t
               then parse_then (parse_get (add_key_name ''_substitutions (${} syntax) not allowed in JSON'')) parse_error
               else parse_return with_comments))"

text \<open>The line after a newline token.\<close>

definition note_newline :: "token_with_comments \<Rightarrow> unit parser" where
  "note_newline t = parse_set (\<lambda>s. s\<lparr>pc_line := token_line_number (twc_token t) + 1\<rparr>)"

fun next_token_ignoring_newline :: "fp_text \<Rightarrow> nat \<Rightarrow> token_with_comments parser" where
  "next_token_ignoring_newline fp 0 = parse_lift (Inl OutOfFuel)"
| "next_token_ignoring_newline fp (Suc n) =
     parse_then (pc_next_token fp n) (\<lambda>t.
       if is_newline (twc_token t)
       then parse_then (note_newline t) (\<lambda>_. next_token_ignoring_newline fp n)
       else parse_return t)"

fun separator_loop :: "fp_text \<Rightarrow> nat \<Rightarrow> bool \<Rightarrow> token_with_comments \<Rightarrow> bool parser" where
  "separator_loop fp 0 saw t = parse_lift (Inl OutOfFuel)"
| "separator_loop fp (Suc n) saw t =
     (if is_newline (twc_token t)
      then parse_then (note_newline t) (\<lambda>_. parse_then (pc_next_token fp n) (separator_loop fp n True))
      else if twc_token t = Token COMMA then parse_return True
      else parse_then (pc_put_back t) (\<lambda>_. parse_return saw))"

definition check_element_separator :: "fp_text \<Rightarrow> nat \<Rightarrow> bool parser" where
  "check_element_separator fp n =
     parse_then (parse_get pc_flavor) (\<lambda>flavor.
       if flavor = JSON
       then parse_then (next_token_ignoring_newline fp n) (\<lambda>t.
              if twc_token t = Token COMMA then parse_return True
              else parse_then (pc_put_back t) (\<lambda>_. parse_return False))
       else parse_then (pc_next_token fp n) (separator_loop fp n False))"

subsection \<open>Values\<close>

text \<open>\<^verbatim>\<open>with_origin\<close>, through the \<^verbatim>\<open>new_copy\<close> of each class.\<close>

definition with_origin :: "config_origin \<Rightarrow> config_value \<Rightarrow> config_exception + config_value" where
  "with_origin orig v =
     (if value_origin v = orig then Inr v
      else case v of
             ConfigNull _ \<Rightarrow> Inr (ConfigNull orig)
           | ConfigBoolean _ b \<Rightarrow> Inr (ConfigBoolean orig b)
           | ConfigInt _ i t \<Rightarrow> Inr (ConfigInt orig i t)
           | ConfigInt64 _ i t \<Rightarrow> Inr (ConfigInt64 orig i t)
           | ConfigDouble _ d t \<Rightarrow> Inr (ConfigDouble orig d t)
           | ConfigString _ s \<Rightarrow> Inr (ConfigString orig s)
           | SimpleConfigList _ vs _ \<Rightarrow> new_list orig vs
           | SimpleConfigObject _ ms st ig \<Rightarrow> make_object orig ms st ig
           | ConfigReference _ expr n \<Rightarrow> Inr (ConfigReference orig expr n)
           | ConfigConcatenation _ ps \<Rightarrow> make_concatenation orig ps
           | ConfigDelayedMerge _ stack \<Rightarrow> make_delayed_merge orig stack
           | ConfigDelayedMergeObject _ stack \<Rightarrow> make_delayed_merge_object orig stack)"

definition token_to_substitution_expression :: "fp_text \<Rightarrow> token \<Rightarrow> tok_exception + substitution_expression" where
  "token_to_substitution_expression fp t =
     bind_exc (lift_exc (get_substitution_path_expression fp t)) (\<lambda>expression.
     bind_exc (lift_exc (token_origin t)) (\<lambda>orig.
     bind_exc (parse_path_expression fp (VectorIterator expression) orig []) (\<lambda>path.
     bind_exc (lift_exc (get_substitution_optional fp t)) (\<lambda>optional.
       case path of
         None \<Rightarrow> Inl (TokException NullPointer)
       | Some p \<Rightarrow> Inr \<lparr>expr_path = p, expr_optional = optional\<rparr>))))"

text \<open>The value of a token that needs no parsing; \<open>None\<close> for any other token.\<close>

definition direct_value :: "fp_text \<Rightarrow> token \<Rightarrow> tok_exception + config_value option" where
  "direct_value fp t =
     (if is_value t then bind_exc (lift_exc (get_value fp t)) (\<lambda>v. Inr (Some v))
      else if is_unquoted_text t
      then bind_exc (lift_exc (token_origin t)) (\<lambda>orig.
           bind_exc (lift_exc (get_unquoted_text fp t)) (\<lambda>text. Inr (Some (ConfigString orig text))))
      else if is_substitution t
      then bind_exc (lift_exc (token_origin t)) (\<lambda>orig.
           bind_exc (token_to_substitution_expression fp t) (\<lambda>expr. Inr (Some (ConfigReference orig expr 0))))
      else Inr None)"

text \<open>The keys of a path up to the first empty one.\<close>

fun keys_until_empty :: "config_path \<Rightarrow> string list" where
  "keys_until_empty (Path key remaining) =
     (if key = [] then [] else key # (case remaining of None \<Rightarrow> [] | Some p \<Rightarrow> keys_until_empty p))"

fun wrap_keys :: "config_origin \<Rightarrow> string list \<Rightarrow> config_value \<Rightarrow> config_exception + config_value" where
  "wrap_keys orig [] v = Inr v"
| "wrap_keys orig (k # ks) v = bind_exc (new_object orig [(k, v)]) (\<lambda>obj. wrap_keys orig ks obj)"

text \<open>With no key the code dereferences the end iterator.\<close>

definition create_value_under_path :: "config_path \<Rightarrow> config_value \<Rightarrow> config_exception + config_value" where
  "create_value_under_path path v =
     (let ks = keys_until_empty path
      in if ks = [] then Inl EndDereference
         else bind_exc (set_comments (value_origin v) []) (\<lambda>orig. wrap_keys orig (rev ks) v))"

subsection \<open>Keys\<close>

fun key_tokens :: "fp_text \<Rightarrow> nat \<Rightarrow> token list \<Rightarrow> token_with_comments \<Rightarrow> (token list \<times> token_with_comments) parser" where
  "key_tokens fp 0 expression t = parse_lift (Inl OutOfFuel)"
| "key_tokens fp (Suc n) expression t =
     (if is_value (twc_token t) \<or> is_unquoted_text (twc_token t)
      then parse_then (pc_next_token fp n) (key_tokens fp n (expression @ [twc_token t]))
      else parse_return (expression, t))"

definition parse_key :: "fp_text \<Rightarrow> nat \<Rightarrow> token_with_comments \<Rightarrow> config_path parser" where
  "parse_key fp n t =
     parse_then (parse_get pc_flavor) (\<lambda>flavor.
       if flavor = JSON
       then parse_then (parse_exc (is_value_with_type fp (twc_token t) STRING)) (\<lambda>ok.
              if ok
              then parse_then (parse_exc (get_value fp (twc_token t))) (\<lambda>v.
                     parse_return (new_key (transform_to_string fp v)))
              else token_error fp (twc_token t) (\<lambda>text.
                     add_key_name (''_expecting close brace } or a field name here, got '' @ text)))
       else parse_then (key_tokens fp n [] t) (\<lambda>(expression, t').
              if expression = []
              then token_error fp (twc_token t') (\<lambda>text.
                     add_key_name (''expecting a close brace or a field name here, got '' @ text))
              else parse_then (pc_put_back t') (\<lambda>_.
                   parse_then (parse_get pc_line_origin) (\<lambda>lo.
                   parse_then (parse_exc lo) (\<lambda>orig.
                   parse_then (parse_lift (parse_path_expression fp (VectorIterator expression) orig [])) (\<lambda>p.
                     case p of
                       None \<Rightarrow> parse_lift (Inl (TokException NullPointer))
                     | Some p \<Rightarrow> parse_return p))))))"

definition is_include_keyword :: "token \<Rightarrow> bool" where
  "is_include_keyword t = (case t of UnquotedTextToken _ s \<Rightarrow> s = ''include'' | _ \<Rightarrow> False)"

definition is_unquoted_whitespace :: "token \<Rightarrow> bool" where
  "is_unquoted_whitespace t = (case t of UnquotedTextToken _ s \<Rightarrow> list_all is_space s | _ \<Rightarrow> False)"

subsection \<open>Includes\<close>

fun next_token_ignoring_space :: "fp_text \<Rightarrow> nat \<Rightarrow> token_with_comments parser" where
  "next_token_ignoring_space fp 0 = parse_lift (Inl OutOfFuel)"
| "next_token_ignoring_space fp (Suc n) =
     parse_then (next_token_ignoring_newline fp n) (\<lambda>t.
       if is_unquoted_whitespace (twc_token t) then next_token_ignoring_space fp n else parse_return t)"

definition quoted_name :: "fp_text \<Rightarrow> token \<Rightarrow> string \<Rightarrow> string parser" where
  "quoted_name fp t message =
     parse_then (parse_exc (is_value_with_type fp t STRING)) (\<lambda>ok.
       if ok then parse_then (parse_exc (get_value fp t)) (\<lambda>v. parse_return (transform_to_string fp v))
       else token_error fp t (\<lambda>text s. message @ text))"

definition included_object :: "full_includer \<Rightarrow> fp_text \<Rightarrow> nat \<Rightarrow> config_value parser" where
  "included_object inc fp n =
     parse_then (next_token_ignoring_space fp n) (\<lambda>t.
       if is_unquoted_text (twc_token t)
       then parse_then (parse_exc (get_unquoted_text fp (twc_token t))) (\<lambda>kind.
              if kind \<noteq> ''file(''
              then token_error fp (twc_token t) (\<lambda>text s.
                     ''expecting include parameter to be quoted filename, or file(). _no spaces are allowed before the open paren. _not expecting: '' @ text)
              else parse_then (next_token_ignoring_space fp n) (\<lambda>t1.
                   parse_then (quoted_name fp (twc_token t1) ''expecting a quoted string inside file(), rather than: '') (\<lambda>name.
                   parse_then (next_token_ignoring_space fp n) (\<lambda>t2.
                     if (case twc_token t2 of UnquotedTextToken _ s \<Rightarrow> s = '')'' | _ \<Rightarrow> False)
                     then parse_lift (include_file inc name)
                     else token_error fp (twc_token t2) (\<lambda>text s.
                            ''expecting a close parentheses '' @ in_single_quotes '')'' @ '' here, not: '' @ text)))))
       else parse_then (quoted_name fp (twc_token t) ''include keyword is not followed by a quoted string, but by: '')
              (\<lambda>name. parse_lift (include_any inc name)))"

fun merge_included ::
  "(string \<times> config_value) list \<Rightarrow> (string \<times> config_value) list \<Rightarrow> config_exception + (string \<times> config_value) list" where
  "merge_included [] values = Inr values"
| "merge_included ((k, v) # ms) values =
     bind_exc (case map_of values k of None \<Rightarrow> Inr v | Some existing \<Rightarrow> merge v existing) (\<lambda>w.
       merge_included ms (AList.update k w values))"

fun object_entries :: "config_value \<Rightarrow> config_exception + (string \<times> config_value) list" where
  "object_entries (SimpleConfigObject _ ms _ _) = Inr ms"
| "object_entries (ConfigDelayedMergeObject _ _) = Inl ConfigExceptionNotResolved"
| "object_entries _ = Inl NullPointer"

definition parse_include ::
  "full_includer \<Rightarrow> fp_text \<Rightarrow> nat \<Rightarrow> (string \<times> config_value) list \<Rightarrow> (string \<times> config_value) list parser" where
  "parse_include inc fp n values =
     parse_then (included_object inc fp n) (\<lambda>obj.
     parse_then (parse_get pc_path_stack) (\<lambda>stack.
     parse_then (parse_exc (if stack = [] then Inr obj
                            else bind_exc (path_concat stack) (\<lambda>prefix. relativized prefix obj))) (\<lambda>obj'.
     parse_exc (bind_exc (object_entries obj') (\<lambda>ms. merge_included ms values)))))"

definition is_key_value_separator_token :: "config_syntax \<Rightarrow> token \<Rightarrow> bool" where
  "is_key_value_separator_token flavor t \<longleftrightarrow>
     t = Token COLON \<or> flavor \<noteq> JSON \<and> (t = Token EQUALS \<or> t = Token PLUS_EQUALS)"


subsection \<open>Members\<close>

type_synonym config_members = "(string \<times> config_value) list"

text \<open>Entering a value below its path into the members read so far.\<close>

definition store_value :: "config_path \<Rightarrow> config_value \<Rightarrow> config_members \<Rightarrow> config_members parser" where
  "store_value path new_value values =
     parse_then (parse_get pc_flavor) (\<lambda>flavor.
       let key = first path; existing = map_of values key
       in case remainder path of
            None \<Rightarrow>
              (case existing of
                 None \<Rightarrow> parse_return (AList.update key new_value values)
               | Some old \<Rightarrow>
                   if flavor = JSON
                   then parse_error (''JSON does not allow duplicate fields: '' @ in_single_quotes key @
                          '' was already seen at '' @ description (value_origin old))
                   else parse_then (parse_exc (merge new_value old)) (\<lambda>v. parse_return (AList.update key v values)))
          | Some remaining \<Rightarrow>
              if flavor = JSON
              then parse_exc (Inl (ConfigExceptionBugOrBroken ''somehow got multi-element path in JSON mode''))
              else parse_then (parse_exc (create_value_under_path remaining new_value)) (\<lambda>obj.
                   parse_then (parse_exc (case existing of None \<Rightarrow> Inr obj | Some old \<Rightarrow> merge obj old)) (\<lambda>v.
                     parse_return (AList.update key v values))))"

text \<open>The value of \<^verbatim>\<open>+=\<close>: the optional previous value followed by a list of the new one.\<close>

definition append_to_previous :: "fp_text \<Rightarrow> config_value \<Rightarrow> config_value parser" where
  "append_to_previous fp new_value =
     parse_then (parse_get full_current_path) (\<lambda>full.
     parse_then (parse_exc full) (\<lambda>path.
       case path of
         None \<Rightarrow> parse_exc (Inl NullPointer)
       | Some p \<Rightarrow>
           parse_then (parse_exc (new_list (value_origin new_value) [new_value])) (\<lambda>list.
           parse_then (parse_exc (concatenate fp
             [ConfigReference (value_origin new_value) \<lparr>expr_path = p, expr_optional = True\<rparr> 0, list])) (\<lambda>v.
             case v of None \<Rightarrow> parse_exc (Inl NullPointer) | Some v \<Rightarrow> parse_return v))))"

definition push_path :: "config_path \<Rightarrow> unit parser" where
  "push_path p = parse_set (\<lambda>s. s\<lparr>pc_path_stack := p # pc_path_stack s\<rparr>)"

definition pop_path :: "config_path parser" where
  "pop_path s =
     (case pc_path_stack s of
        [] \<Rightarrow> Inl (TokException NullPointer)
      | p # ps \<Rightarrow> Inr (p, s\<lparr>pc_path_stack := ps\<rparr>))"

definition add_equals :: "int \<Rightarrow> unit parser" where
  "add_equals d = parse_set (\<lambda>s. s\<lparr>pc_equals := pc_equals s + d\<rparr>)"

text \<open>What follows an element: \<open>True\<close> to go on, \<open>False\<close> at the end of the object.\<close>

definition after_element :: "fp_text \<Rightarrow> nat \<Rightarrow> bool \<Rightarrow> config_path option \<Rightarrow> bool \<Rightarrow> bool parser" where
  "after_element fp n had_open_curly last_path last_inside_equals =
     parse_then (check_element_separator fp n) (\<lambda>separated.
       if separated then parse_return True
       else parse_then (next_token_ignoring_newline fp n) (\<lambda>t.
              if twc_token t = Token CLOSE_CURLY
              then if \<not> had_open_curly
                   then token_error fp (twc_token t) (\<lambda>text. add_quote_suggestion_at last_path last_inside_equals text
                          (''unbalanced close brace '' @ in_single_quotes ''}'' @ '' with no open brace''))
                   else parse_return False
              else if had_open_curly
              then token_error fp (twc_token t) (\<lambda>text. add_quote_suggestion_at last_path last_inside_equals text
                     (''_expecting close brace } or a comma, got '' @ text))
              else if twc_token t = Token END
              then parse_then (pc_put_back t) (\<lambda>_. parse_return False)
              else token_error fp (twc_token t) (\<lambda>text. add_quote_suggestion_at last_path last_inside_equals text
                     (''_expecting end of input or a comma, got '' @ text))))"

definition opens_value :: "token \<Rightarrow> bool" where
  "opens_value t \<longleftrightarrow> is_value t \<or> t = Token OPEN_CURLY \<or> t = Token OPEN_SQUARE"

definition list_error :: "fp_text \<Rightarrow> token \<Rightarrow> string \<Rightarrow> string \<Rightarrow> 'a parser" where
  "list_error fp t message wanted =
     token_error fp t (\<lambda>text. add_key_name (message @ text @ '' (if you want '' @ wanted @ text @
       '' to be part of a string value, then double-quote it)''))"

subsection \<open>Values, objects and arrays\<close>

text \<open>
  The methods call one another only through \<^verbatim>\<open>parse_value\<close>, which is the argument \<open>pv\<close>
  of all others.  Each loop has its own count of rounds.
\<close>

type_synonym value_parser = "token_with_comments \<Rightarrow> config_value parser"

fun consolidate_loop ::
  "fp_text \<Rightarrow> value_parser \<Rightarrow> nat \<Rightarrow> config_value list \<Rightarrow> token_with_comments option \<Rightarrow> token_with_comments
   \<Rightarrow> (config_value list \<times> token_with_comments option \<times> token_with_comments) parser" where
  "consolidate_loop fp pv 0 values first_value t = parse_lift (Inl OutOfFuel)"
| "consolidate_loop fp pv (Suc n) values first_value t =
     parse_then (parse_lift (direct_value fp (twc_token t))) (\<lambda>d.
       let continue = (\<lambda>v. parse_then (pc_next_token fp n) (consolidate_loop fp pv n (values @ [v])
             (case first_value of None \<Rightarrow> Some t | Some f \<Rightarrow> Some f)))
       in case d of
            Some v \<Rightarrow> continue v
          | None \<Rightarrow>
              if twc_token t = Token OPEN_CURLY \<or> twc_token t = Token OPEN_SQUARE
              then parse_then (pv t) continue
              else parse_return (values, first_value, t))"

definition consolidate_value_tokens :: "fp_text \<Rightarrow> value_parser \<Rightarrow> nat \<Rightarrow> unit parser" where
  "consolidate_value_tokens fp pv n =
     parse_then (parse_get pc_flavor) (\<lambda>flavor.
       if flavor = JSON then parse_return ()
       else parse_then (next_token_ignoring_newline fp n) (\<lambda>t.
            parse_then (consolidate_loop fp pv n [] None t) (\<lambda>(values, first_value, t').
            parse_then (pc_put_back t') (\<lambda>_.
              case first_value of
                None \<Rightarrow> parse_return ()
              | Some f \<Rightarrow>
                  parse_then (parse_exc (concatenate fp values)) (\<lambda>consolidated.
                    case consolidated of
                      None \<Rightarrow> parse_exc (Inl NullPointer)
                    | Some v \<Rightarrow> pc_put_back \<lparr>twc_token = ValueToken v, twc_comments = twc_comments f\<rparr>)))))"

fun array_loop ::
  "fp_text \<Rightarrow> value_parser \<Rightarrow> nat \<Rightarrow> config_origin \<Rightarrow> config_value list \<Rightarrow> config_value parser" where
  "array_loop fp pv 0 array_origin values = parse_lift (Inl OutOfFuel)"
| "array_loop fp pv (Suc n) array_origin values =
     parse_then (check_element_separator fp n) (\<lambda>separated.
       if \<not> separated
       then parse_then (next_token_ignoring_newline fp n) (\<lambda>t.
              if twc_token t = Token CLOSE_SQUARE then parse_exc (new_list array_origin values)
              else list_error fp (twc_token t) ''_list should have ended with ] or had a comma, instead had token: '' [])
       else parse_then (consolidate_value_tokens fp pv n) (\<lambda>_.
            parse_then (next_token_ignoring_newline fp n) (\<lambda>t.
            parse_then (parse_get pc_flavor) (\<lambda>flavor.
              if opens_value (twc_token t)
              then parse_then (pv t) (\<lambda>v. array_loop fp pv n array_origin (values @ [v]))
              else if flavor \<noteq> JSON \<and> twc_token t = Token CLOSE_SQUARE
              then parse_then (pc_put_back t) (\<lambda>_. array_loop fp pv n array_origin values)
              else list_error fp (twc_token t) ''_list should have had new element after a comma, instead had token: ''
                     ''the comma or ''))))"

definition parse_array :: "fp_text \<Rightarrow> value_parser \<Rightarrow> nat \<Rightarrow> config_value parser" where
  "parse_array fp pv n =
     parse_then (parse_get pc_line_origin) (\<lambda>lo.
     parse_then (parse_exc lo) (\<lambda>array_origin.
     parse_then (consolidate_value_tokens fp pv n) (\<lambda>_.
     parse_then (next_token_ignoring_newline fp n) (\<lambda>t.
       if twc_token t = Token CLOSE_SQUARE then parse_exc (new_list array_origin [])
       else if opens_value (twc_token t)
       then parse_then (pv t) (\<lambda>v. array_loop fp pv n array_origin [v])
       else list_error fp (twc_token t) ''_list should have ] or a first element after the open [, instead had token: '' []))))"

text \<open>From the token after the key to the token of the value.\<close>

definition member_value ::
  "fp_text \<Rightarrow> value_parser \<Rightarrow> nat \<Rightarrow> config_path \<Rightarrow> token_with_comments \<Rightarrow> token_with_comments parser" where
  "member_value fp pv n path after_key =
     parse_then (parse_get pc_flavor) (\<lambda>flavor.
       if flavor = CONF \<and> twc_token after_key = Token OPEN_CURLY then parse_return after_key
       else if \<not> is_key_value_separator_token flavor (twc_token after_key)
       then token_error fp (twc_token after_key) (\<lambda>text. add_quote_suggestion text
              (''_key '' @ in_single_quotes (path_render path) @ '' may not be followed by token: '' @ text))
       else parse_then (add_equals (if twc_token after_key = Token EQUALS then 1 else 0)) (\<lambda>_.
            parse_then (consolidate_value_tokens fp pv n) (\<lambda>_. next_token_ignoring_newline fp n)))"

definition parse_member ::
  "fp_text \<Rightarrow> value_parser \<Rightarrow> nat \<Rightarrow> token_with_comments \<Rightarrow> config_members
   \<Rightarrow> (config_members \<times> config_path option \<times> bool) parser" where
  "parse_member fp pv n key_token values =
     parse_then (parse_key fp n key_token) (\<lambda>path.
     parse_then (next_token_ignoring_newline fp n) (\<lambda>after_key.
     parse_then (push_path path) (\<lambda>_.
     parse_then (member_value fp pv n path after_key) (\<lambda>value_token.
     parse_then (pv (prepend_comments (twc_comments key_token) value_token)) (\<lambda>v.
     parse_then (if twc_token after_key = Token PLUS_EQUALS then append_to_previous fp v else parse_return v) (\<lambda>new_value.
     parse_then pop_path (\<lambda>last_path.
     parse_then (add_equals (if twc_token after_key = Token EQUALS then -1 else 0)) (\<lambda>_.
     parse_then (store_value path new_value values) (\<lambda>values'.
       parse_return (values', Some last_path, twc_token after_key = Token EQUALS))))))))))"

fun object_loop ::
  "full_includer \<Rightarrow> fp_text \<Rightarrow> value_parser \<Rightarrow> nat \<Rightarrow> bool \<Rightarrow> config_origin \<Rightarrow> config_members \<Rightarrow> bool
   \<Rightarrow> config_path option \<Rightarrow> bool \<Rightarrow> config_value parser" where
  "object_loop inc fp pv 0 had_open_curly object_origin values after_comma last_path last_inside_equals =
     parse_lift (Inl OutOfFuel)"
| "object_loop inc fp pv (Suc n) had_open_curly object_origin values after_comma last_path last_inside_equals =
     parse_then (next_token_ignoring_newline fp n) (\<lambda>t.
     parse_then (parse_get pc_flavor) (\<lambda>flavor.
       if twc_token t = Token CLOSE_CURLY
       then if flavor = JSON \<and> after_comma
            then token_error fp (twc_token t) (\<lambda>text. add_quote_suggestion text
                   ''expecting a field name after a comma, got a close brace } instead'')
            else if \<not> had_open_curly
            then token_error fp (twc_token t) (\<lambda>text. add_quote_suggestion text
                   (''unbalanced close brace '' @ in_single_quotes ''}'' @ '' with no open brace''))
            else parse_exc (new_object object_origin values)
       else if twc_token t = Token END \<and> \<not> had_open_curly
       then parse_then (pc_put_back t) (\<lambda>_. parse_exc (new_object object_origin values))
       else parse_then (if flavor \<noteq> JSON \<and> is_include_keyword (twc_token t)
                        then parse_then (parse_include inc fp n values) (\<lambda>values'.
                               parse_return (values', last_path, last_inside_equals))
                        else parse_member fp pv n t values) (\<lambda>(values', last_path', last_inside_equals').
            parse_then (after_element fp n had_open_curly last_path' last_inside_equals') (\<lambda>more.
              if more
              then object_loop inc fp pv n had_open_curly object_origin values' True last_path' last_inside_equals'
              else parse_exc (new_object object_origin values')))))"

definition parse_object :: "full_includer \<Rightarrow> fp_text \<Rightarrow> value_parser \<Rightarrow> nat \<Rightarrow> bool \<Rightarrow> config_value parser" where
  "parse_object inc fp pv n had_open_curly =
     parse_then (parse_get pc_line_origin) (\<lambda>lo.
     parse_then (parse_exc lo) (\<lambda>object_origin.
       object_loop inc fp pv n had_open_curly object_origin [] False None False))"

text \<open>\<open>d\<close> bounds the depth of nesting, \<open>n\<close> the rounds of every loop.\<close>

fun parse_value :: "full_includer \<Rightarrow> fp_text \<Rightarrow> nat \<Rightarrow> nat \<Rightarrow> value_parser" where
  "parse_value inc fp n 0 t = parse_lift (Inl OutOfFuel)"
| "parse_value inc fp n (Suc d) t =
     parse_then (if is_value (twc_token t) then parse_exc (get_value fp (twc_token t))
                 else if twc_token t = Token OPEN_CURLY then parse_object inc fp (parse_value inc fp n d) n True
                 else if twc_token t = Token OPEN_SQUARE then parse_array fp (parse_value inc fp n d) n
                 else token_error fp (twc_token t) (\<lambda>text.
                        add_quote_suggestion text (''_expecting a value but got wrong token: '' @ text))) (\<lambda>v.
       parse_exc (bind_exc (set_token_comments fp t (value_origin v)) (\<lambda>orig. with_origin orig v)))"

definition context_parse :: "full_includer \<Rightarrow> fp_text \<Rightarrow> nat \<Rightarrow> config_value parser" where
  "context_parse inc fp n =
     parse_then (next_token_ignoring_newline fp n) (\<lambda>t0.
       if twc_token t0 \<noteq> Token START
       then parse_then (parse_exc (token_to_string fp (twc_token t0))) (\<lambda>text.
              parse_exc (Inl (ConfigExceptionBugOrBroken (''token stream did not begin with start, had '' @ text))))
       else parse_then (next_token_ignoring_newline fp n) (\<lambda>t.
            parse_then (parse_get pc_flavor) (\<lambda>flavor.
            parse_then (if twc_token t = Token OPEN_CURLY \<or> twc_token t = Token OPEN_SQUARE then parse_value inc fp n n t
                        else if flavor = JSON
                        then if twc_token t = Token END then parse_error ''_empty document''
                             else token_error fp (twc_token t) (\<lambda>text s.
                                    ''_document must have an object or array at root, unexpected token: '' @ text)
                        else parse_then (pc_put_back t) (\<lambda>_. parse_object inc fp (parse_value inc fp n n) n False)) (\<lambda>result.
            parse_then (next_token_ignoring_newline fp n) (\<lambda>t'.
              if twc_token t' = Token END then parse_return result
              else token_error fp (twc_token t') (\<lambda>text s.
                     ''_document has trailing tokens after first object or array: '' @ text))))))"

end
