(* ===== verification/Parser_Safety.thy ===== *)
theory Parser_Safety
  imports Config_Parser
begin

section \<open>What parsing a configuration can end in\<close>

text \<open>
  Every run of the parser on tokens that end with the end token either gives a well-formed
  value or raises an exception meant for the user: no internal error, no null pointer, no
  token read past the end, and the fuel is enough.  The proofs follow the code with
  weakest preconditions, \<open>runs m s Q\<close>: from \<open>s\<close> the step \<open>m\<close> raises only reported
  exceptions, and \<open>Q\<close> holds of its result.
\<close>

subsection \<open>Weakest preconditions\<close>

text \<open>
  The exceptions a user may see; \<open>EndDereference\<close> is the defect of
  \<^verbatim>\<open>create_value_under_path\<close> on an empty key.
\<close>

fun reported :: "tok_exception \<Rightarrow> bool" where
  "reported (TokException (ConfigExceptionParse _ _)) = True"
| "reported (TokException (ConfigExceptionBadPath _ _ _)) = True"
| "reported (TokException (ConfigExceptionWrongType _ _ _ _)) = True"
| "reported (TokException ConfigExceptionNotResolved) = True"
| "reported (TokException EndDereference) = True"
| "reported _ = False"

definition runs :: "'a parser \<Rightarrow> parse_context \<Rightarrow> ('a \<Rightarrow> parse_context \<Rightarrow> bool) \<Rightarrow> bool" where
  "runs m s Q \<longleftrightarrow> (case m s of Inl e \<Rightarrow> reported e | Inr (x, s') \<Rightarrow> Q x s')"

lemma runs_then [simp]: "runs (parse_then m f) s Q \<longleftrightarrow> runs m s (\<lambda>x s'. runs (f x) s' Q)"
  by (auto simp: runs_def parse_then_def split: sum.splits prod.splits)

lemma runs_return [simp]: "runs (parse_return x) s Q \<longleftrightarrow> Q x s"
  by (simp add: runs_def parse_return_def)

lemma runs_get [simp]: "runs (parse_get f) s Q \<longleftrightarrow> Q (f s) s"
  by (simp add: runs_def parse_get_def)

lemma runs_set [simp]: "runs (parse_set f) s Q \<longleftrightarrow> Q () (f s)"
  by (simp add: runs_def parse_set_def)

lemma runs_lift [simp]:
  "runs (parse_lift m) s Q \<longleftrightarrow> (case m of Inl e \<Rightarrow> reported e | Inr x \<Rightarrow> Q x s)"
  by (simp add: runs_def parse_lift_def split: sum.splits)

lemma runs_exc [simp]:
  "runs (parse_exc m) s Q \<longleftrightarrow> (case m of Inl e \<Rightarrow> reported (TokException e) | Inr x \<Rightarrow> Q x s)"
  by (simp add: parse_exc_def lift_exc_def split: sum.splits)

lemma runs_weaken: "runs m s Q \<Longrightarrow> (\<And>x s'. Q x s' \<Longrightarrow> R x s') \<Longrightarrow> runs m s R"
  by (auto simp: runs_def split: sum.splits)

lemma runs_bind: "runs m s P \<Longrightarrow> (\<And>x s'. P x s' \<Longrightarrow> runs (f x) s' Q) \<Longrightarrow> runs (parse_then m f) s Q"
  unfolding runs_then by (rule runs_weaken)

subsection \<open>Good tokens\<close>

fun good_token :: "token \<Rightarrow> bool" where
  "good_token (Token t) = True"
| "good_token (ValueToken v) = part_ok v"
| "good_token (LineToken orig) = origin_named orig"
| "good_token (UnquotedTextToken orig _) = origin_named orig"
| "good_token (ProblemToken orig _ _ _) = origin_named orig"
| "good_token (CommentToken orig _) = origin_named orig"
| "good_token (SubstitutionToken orig _ _) = origin_named orig"

definition good_twc :: "token_with_comments \<Rightarrow> bool" where
  "good_twc t \<longleftrightarrow> good_token (twc_token t) \<and> \<not> is_comment (twc_token t) \<and> (\<forall>c \<in> set (twc_comments t). is_comment c)"

text \<open>The tokens an iterator is going to give.\<close>

inductive yields :: "fp_text \<Rightarrow> token_iterator \<Rightarrow> token list \<Rightarrow> bool" for fp where
  yields_Nil: "yields fp it []"
| yields_Cons: "iter_next fp it = (Inr t, it') \<Longrightarrow> yields fp it' ts \<Longrightarrow> yields fp it (t # ts)"

inductive_simps yields_Cons_iff: "yields fp it (t # ts)"

lemma yields_vector: "yields fp (VectorIterator l) l"
  by (induction l) (auto intro: yields.intros)

definition ends :: "token list \<Rightarrow> bool" where
  "ends ts \<longleftrightarrow> (\<exists>xs. ts = xs @ [Token END] \<and> Token END \<notin> set xs)"

lemma ends_Cons: "ends (t # ts) \<longleftrightarrow> (if t = Token END then ts = [] else ends ts)"
  by (auto simp: ends_def Cons_eq_append_conv)

lemma ends_not_Nil [simp]: "\<not> ends []"
  by (simp add: ends_def)

lemma ends_append: "Token END \<notin> set xs \<Longrightarrow> ends (xs @ ts) \<longleftrightarrow> ends ts"
  by (induction xs) (auto simp: ends_Cons)

text \<open>The context still has to deliver \<open>ts\<close>.\<close>

definition pend :: "fp_text \<Rightarrow> parse_context \<Rightarrow> token list \<Rightarrow> bool" where
  "pend fp s ts \<longleftrightarrow>
     (\<exists>us. yields fp (pc_tokens s) us \<and> ts = map twc_token (pc_buffer s) @ us \<and>
        (\<forall>t \<in> set (pc_buffer s). good_twc t) \<and> (\<forall>t \<in> set us. good_token t) \<and> origin_named (pc_origin s))"

text \<open>At most \<open>n\<close> tokens up to the end; and the same with one token in hand.\<close>

definition ready :: "fp_text \<Rightarrow> nat \<Rightarrow> parse_context \<Rightarrow> bool" where
  "ready fp n s \<longleftrightarrow> (\<exists>ts. pend fp s ts \<and> ends ts \<and> length ts \<le> n)"

definition taken :: "fp_text \<Rightarrow> nat \<Rightarrow> token_with_comments \<Rightarrow> parse_context \<Rightarrow> bool" where
  "taken fp n t s \<longleftrightarrow> good_twc t \<and> (\<exists>ts. pend fp s ts \<and> ends (twc_token t # ts) \<and> length ts \<le> n)"

definition frame :: "parse_context \<Rightarrow> parse_context \<Rightarrow> bool" where
  "frame s s' \<longleftrightarrow> pc_flavor s' = pc_flavor s \<and> pc_origin s' = pc_origin s \<and> pc_path_stack s' = pc_path_stack s"

lemma frame_refl [simp]: "frame s s"
  by (simp add: frame_def)

lemma frame_trans: "frame s s' \<Longrightarrow> frame s' s'' \<Longrightarrow> frame s s''"
  by (simp add: frame_def)

lemma pend_origin: "pend fp s ts \<Longrightarrow> origin_named (pc_origin s)"
  by (auto simp: pend_def)

lemma ready_origin: "ready fp n s \<Longrightarrow> origin_named (pc_origin s)"
  by (auto simp: ready_def dest: pend_origin)

lemma taken_origin: "taken fp n t s \<Longrightarrow> origin_named (pc_origin s)"
  by (auto simp: taken_def dest: pend_origin)

lemma ready_mono: "ready fp n s \<Longrightarrow> n \<le> m \<Longrightarrow> ready fp m s"
  by (auto simp: ready_def)

lemma taken_mono: "taken fp n t s \<Longrightarrow> n \<le> m \<Longrightarrow> taken fp m t s"
  by (auto simp: taken_def)

lemma ready_pos: "ready fp n s \<Longrightarrow> \<exists>m. n = Suc m"
  by (cases n) (auto simp: ready_def)

lemma taken_ready: "taken fp n t s \<Longrightarrow> twc_token t \<noteq> Token END \<Longrightarrow> ready fp n s"
  by (auto simp: taken_def ready_def ends_Cons)

lemma taken_put_back: "taken fp n t s \<Longrightarrow> ready fp (Suc n) (s\<lparr>pc_buffer := t # pc_buffer s\<rparr>)"
proof -
  assume "taken fp n t s"
  then obtain us where "good_twc t" "yields fp (pc_tokens s) us" "\<forall>t \<in> set (pc_buffer s). good_twc t"
    "\<forall>t \<in> set us. good_token t" "origin_named (pc_origin s)"
    "ends (twc_token t # map twc_token (pc_buffer s) @ us)" "length (map twc_token (pc_buffer s) @ us) \<le> n"
    unfolding taken_def pend_def by blast
  then show ?thesis
    unfolding ready_def pend_def by (intro exI [of _ "twc_token t # map twc_token (pc_buffer s) @ us"]) auto
qed

text \<open>Changes of the context that do not touch the tokens.\<close>

lemma ready_cong:
  "pc_tokens s' = pc_tokens s \<Longrightarrow> pc_buffer s' = pc_buffer s \<Longrightarrow> pc_origin s' = pc_origin s \<Longrightarrow>
   ready fp n s' = ready fp n s"
  by (simp add: ready_def pend_def)

lemma taken_cong:
  "pc_tokens s' = pc_tokens s \<Longrightarrow> pc_buffer s' = pc_buffer s \<Longrightarrow> pc_origin s' = pc_origin s \<Longrightarrow>
   taken fp n t s' = taken fp n t s"
  by (simp add: taken_def pend_def)

lemma ready_updates [simp]:
  "ready fp n (s\<lparr>pc_line := l\<rparr>) = ready fp n s" "taken fp n t (s\<lparr>pc_line := l\<rparr>) = taken fp n t s"
  "ready fp n (s\<lparr>pc_equals := q\<rparr>) = ready fp n s" "taken fp n t (s\<lparr>pc_equals := q\<rparr>) = taken fp n t s"
  "ready fp n (s\<lparr>pc_path_stack := ps\<rparr>) = ready fp n s" "taken fp n t (s\<lparr>pc_path_stack := ps\<rparr>) = taken fp n t s"
  by (rule ready_cong taken_cong; simp)+

subsection \<open>Errors\<close>

lemma value_type_exc: "value_type v = Inl e \<Longrightarrow> e = ConfigExceptionNotResolved"
  by (cases v) auto

lemma unwrapped_string_exc: "unwrapped_string fp v = Inl e \<Longrightarrow> e = ConfigExceptionNotResolved"
  and unwrapped_all_exc: "unwrapped_all fp vs = Inl e \<Longrightarrow> e = ConfigExceptionNotResolved"
  and unwrapped_members_exc: "unwrapped_all_members fp ms = Inl e \<Longrightarrow> e = ConfigExceptionNotResolved"
  by (induction fp v and fp vs and fp ms rule: unwrapped_string_unwrapped_all_unwrapped_all_members.induct)
     (auto simp: bind_exc_def split: sum.splits)

lemma token_to_string_exc: "token_to_string fp t = Inl e \<Longrightarrow> e = ConfigExceptionNotResolved"
  and tokens_to_string_exc: "tokens_to_string fp ts = Inl e \<Longrightarrow> e = ConfigExceptionNotResolved"
  by (induction fp t and fp ts rule: token_to_string_tokens_to_string.induct)
     (auto simp: bind_exc_def dest: unwrapped_string_exc value_type_exc split: sum.splits)

lemma line_origin_ok: "origin_named (pc_origin s) \<Longrightarrow> \<exists>lo. pc_line_origin s = Inr lo \<and> origin_named lo"
  using named_text_not_Nil
  by (auto simp: pc_line_origin_def set_line_number_def make_origin_def origin_named_def)

lemma parse_error_runs: "origin_named (pc_origin s) \<Longrightarrow> runs (parse_error message) s Q"
  using line_origin_ok [of s] by (auto simp: runs_def parse_error_def)

lemma token_error_runs: "origin_named (pc_origin s) \<Longrightarrow> runs (token_error fp t message) s Q"
  by (auto simp: token_error_def parse_error_runs dest!: token_to_string_exc split: sum.splits)

lemma list_error_runs: "origin_named (pc_origin s) \<Longrightarrow> runs (list_error fp t m w) s Q"
  by (simp add: list_error_def token_error_runs)


subsection \<open>Taking tokens\<close>

lemma pull_token_runs:
  assumes "yields fp (pc_tokens s) (t # us)"
  shows "runs (pull_token fp) s Q \<longleftrightarrow> (\<exists>it. yields fp it us \<and> iter_next fp (pc_tokens s) = (Inr t, it) \<and> Q t (s\<lparr>pc_tokens := it\<rparr>))"
  using assms by (auto simp: runs_def pull_token_def yields_Cons_iff)

lemma good_comment: "good_token t \<Longrightarrow> is_newline t \<or> is_comment t \<Longrightarrow> t \<noteq> Token END"
  by auto

lemma comment_block_runs:
  assumes "yields fp (pc_tokens s) us" "\<forall>t \<in> set (nxt # us). good_token t" "ends (nxt # us)" "length us < n"
    "\<forall>t \<in> set newlines. good_token t \<and> is_newline t" "\<forall>c \<in> set comments. is_comment c"
    "pc_buffer s = []" "origin_named (pc_origin s)"
  shows "runs (comment_block fp n newlines comments previous nxt) s (\<lambda>_ s'. frame s s' \<and> pc_buffer s' \<noteq> [] \<and>
     ready fp (length newlines + length us + 1) s')"
  using assms
proof (induction n arbitrary: s us newlines comments previous nxt)
  case (Suc n)
  have more: "runs (parse_then (pull_token fp) (comment_block fp n nl' cm' prev')) s
      (\<lambda>_ s'. frame s s' \<and> pc_buffer s' \<noteq> [] \<and> ready fp (length newlines + length us + 1) s')"
    if "is_newline nxt \<or> is_comment nxt" "\<forall>t \<in> set nl'. good_token t \<and> is_newline t" "\<forall>c \<in> set cm'. is_comment c"
      "length nl' \<le> Suc (length newlines)" for nl' cm' prev'
  proof -
    have "nxt \<noteq> Token END" using that(1) by auto
    then obtain t us' where us: "us = t # us'" "ends (t # us')" using Suc.prems(3) by (cases us) (auto simp: ends_Cons)
    obtain it where it: "iter_next fp (pc_tokens s) = (Inr t, it)" "yields fp it us'"
      using Suc.prems(1) us(1) by (auto simp: yields_Cons_iff)
    have "runs (comment_block fp n nl' cm' prev' t) (s\<lparr>pc_tokens := it\<rparr>) (\<lambda>_ s'. frame (s\<lparr>pc_tokens := it\<rparr>) s' \<and>
        pc_buffer s' \<noteq> [] \<and> ready fp (length nl' + length us' + 1) s')"
      using Suc.prems us that it(2) by (intro Suc.IH) auto
    then have "runs (comment_block fp n nl' cm' prev' t) (s\<lparr>pc_tokens := it\<rparr>) (\<lambda>_ s'. frame s s' \<and>
        pc_buffer s' \<noteq> [] \<and> ready fp (length newlines + length us + 1) s')"
      by (rule runs_weaken) (use that(4) us(1) in \<open>auto simp: frame_def intro: ready_mono\<close>)
    then show ?thesis using Suc.prems(1) it unfolding us(1) by (simp add: pull_token_runs)
  qed
  consider "is_newline nxt" | "\<not> is_newline nxt" "is_comment nxt" | "\<not> is_newline nxt" "\<not> is_comment nxt" by blast
  then show ?case
  proof cases
    case 1
    then show ?thesis
      using Suc.prems more [of "newlines @ [nxt]" "case previous of Some p \<Rightarrow> if is_newline p then [] else comments | None \<Rightarrow> comments" "Some nxt"]
      by (auto simp: Let_def split: option.splits)
  next
    case 2
    then show ?thesis using Suc.prems more [of newlines "comments @ [nxt]" "Some nxt"] by auto
  next
    case 3
    let ?s = "s\<lparr>pc_buffer := map plain_token newlines @ \<lparr>twc_token = nxt, twc_comments = comments\<rparr> # pc_buffer s\<rparr>"
    have nl: "Token END \<notin> set newlines" using Suc.prems(5) by auto
    have pt: "map twc_token (map plain_token newlines) = newlines" by (simp add: comp_def plain_token_def)
    have "pend fp ?s (newlines @ nxt # us)"
      using Suc.prems 3 unfolding pend_def
      by (auto simp: good_twc_def plain_token_def comp_def is_comment.simps elim!: is_newline.elims(2))
    then have "ready fp (length newlines + length us + 1) ?s"
      using Suc.prems(3) nl unfolding ready_def by (auto simp: ends_append)
    then show ?thesis using 3 by (simp add: frame_def)
  qed
qed simp

lemma pop_buffer_runs:
  assumes "ready fp (Suc n) s" "pc_buffer s \<noteq> []"
  shows "runs pop_buffer s (\<lambda>t s'. frame s s' \<and> taken fp n t s')"
proof -
  obtain t ts where b: "pc_buffer s = t # ts" using assms(2) by (cases "pc_buffer s") auto
  obtain us where "yields fp (pc_tokens s) us" "\<forall>t \<in> set (pc_buffer s). good_twc t"
    "\<forall>t \<in> set us. good_token t" "origin_named (pc_origin s)"
    "ends (map twc_token (pc_buffer s) @ us)" "length (map twc_token (pc_buffer s) @ us) \<le> Suc n"
    using assms(1) unfolding ready_def pend_def by blast
  then have "pend fp (s\<lparr>pc_buffer := ts\<rparr>) (map twc_token ts @ us)" "good_twc t"
    "ends (twc_token t # map twc_token ts @ us)" "length (map twc_token ts @ us) \<le> n"
    unfolding pend_def b by auto
  then have "taken fp n t (s\<lparr>pc_buffer := ts\<rparr>)" unfolding taken_def by blast
  then show ?thesis by (simp add: runs_def pop_buffer_def b frame_def)
qed

lemma pop_token_runs:
  assumes "ready fp (Suc n) s" "Suc n \<le> m"
  shows "runs (pop_token fp m) s (\<lambda>t s'. frame s s' \<and> taken fp n t s')"
proof (cases "pc_buffer s = []")
  case False
  with pop_buffer_runs [OF assms(1)] show ?thesis by (simp add: pop_token_def)
next
  case True
  obtain us where us: "yields fp (pc_tokens s) us" "\<forall>t \<in> set us. good_token t" "origin_named (pc_origin s)"
    "ends us" "length us \<le> Suc n"
    using assms(1) True unfolding ready_def pend_def by auto
  then obtain t us' where t: "us = t # us'" by (cases us) auto
  obtain it where it: "iter_next fp (pc_tokens s) = (Inr t, it)" "yields fp it us'"
    using us(1) t by (auto simp: yields_Cons_iff)
  let ?s = "s\<lparr>pc_tokens := it\<rparr>"
  show ?thesis
  proof (cases "is_comment t")
    case True
    have block: "runs (comment_block fp m [] [] None t) ?s (\<lambda>_ s'. frame ?s s' \<and> pc_buffer s' \<noteq> [] \<and>
        ready fp (length ([]::token list) + length us' + 1) s')"
      using us t it \<open>pc_buffer s = []\<close> assms(2) by (intro comment_block_runs) auto
    have "runs (comment_block fp m [] [] None t) ?s (\<lambda>_ s'. runs pop_buffer s' (\<lambda>t s'. frame s s' \<and> taken fp n t s'))"
    proof (rule runs_weaken [OF block])
      fix s' assume a: "frame ?s s' \<and> pc_buffer s' \<noteq> [] \<and> ready fp (length ([]::token list) + length us' + 1) s'"
      then have "runs pop_buffer s' (\<lambda>t s''. frame s' s'' \<and> taken fp n t s'')"
        using us(5) t by (intro pop_buffer_runs) (auto intro: ready_mono)
      then show "runs pop_buffer s' (\<lambda>t s'. frame s s' \<and> taken fp n t s')"
        by (rule runs_weaken) (use a in \<open>auto simp: frame_def\<close>)
    qed
    then show ?thesis
      using \<open>pc_buffer s = []\<close> us(1) it True unfolding t
      by (simp add: pop_token_def pull_token_runs consolidate_comment_block_def)
  next
    case False
    have "taken fp n (plain_token t) ?s"
      using us t it False \<open>pc_buffer s = []\<close> unfolding taken_def pend_def
      by (auto simp: good_twc_def plain_token_def)
    then show ?thesis
      using \<open>pc_buffer s = []\<close> us(1) it False unfolding t
      by (simp add: pop_token_def pull_token_runs frame_def)
  qed
qed

lemma pc_next_token_runs:
  assumes "ready fp (Suc n) s" "Suc n \<le> m"
  shows "runs (pc_next_token fp m) s (\<lambda>t s'. frame s s' \<and> taken fp n t s' \<and> \<not> is_problem (twc_token t))"
  unfolding pc_next_token_def
proof (rule runs_bind [OF pop_token_runs [OF assms]], goal_cases)
  case (1 t s')
  then have "origin_named (pc_origin s')" by (auto dest: taken_origin)
  with 1 show ?case
    by (cases "twc_token t")
       (auto simp: Let_def get_problem_message_def get_problem_suggest_quotes_def parse_error_runs split: sum.splits
         dest!: token_to_string_exc)
qed


text \<open>The same from \<open>n\<close> tokens on.\<close>

lemma next_token_runs:
  assumes "ready fp k s" "k \<le> m"
  shows "runs (pc_next_token fp m) s (\<lambda>t s'. frame s s' \<and> taken fp (k - 1) t s' \<and> \<not> is_problem (twc_token t))"
  using pc_next_token_runs [of fp "k - 1" s m] assms ready_pos [OF assms(1)] by auto

lemma newline_not_end: "is_newline (twc_token t) \<Longrightarrow> twc_token t \<noteq> Token END"
  by auto

lemma next_token_ignoring_newline_runs:
  assumes "ready fp k s" "k < m"
  shows "runs (next_token_ignoring_newline fp m) s (\<lambda>t s'. frame s s' \<and> taken fp (k - 1) t s')"
  using assms
proof (induction m arbitrary: k s)
  case (Suc m)
  show ?case
    unfolding next_token_ignoring_newline.simps
  proof (rule runs_bind [OF next_token_runs [OF Suc.prems(1)]], goal_cases)
    case (2 t s')
    show ?case
    proof (cases "is_newline (twc_token t)")
      case True
      then have r: "ready fp (k - 1) s'" using 2 taken_ready newline_not_end by blast
      let ?s = "s'\<lparr>pc_line := token_line_number (twc_token t) + 1\<rparr>"
      have "runs (next_token_ignoring_newline fp m) ?s (\<lambda>t s''. frame ?s s'' \<and> taken fp (k - 1 - 1) t s'')"
        using r Suc.prems(2) ready_pos [OF r] by (intro Suc.IH) auto
      then have "runs (next_token_ignoring_newline fp m) ?s (\<lambda>t s''. frame s s'' \<and> taken fp (k - 1) t s'')"
        by (rule runs_weaken) (use 2 in \<open>auto simp: frame_def intro: taken_mono\<close>)
      with True show ?thesis by (simp add: note_newline_def)
    qed (use 2 in simp)
  qed (use Suc.prems in simp)
qed simp

text \<open>After a separator a token is gone, without one none need be.\<close>

definition separated :: "fp_text \<Rightarrow> nat \<Rightarrow> parse_context \<Rightarrow> bool \<Rightarrow> parse_context \<Rightarrow> bool" where
  "separated fp k s sep s' \<longleftrightarrow> frame s s' \<and> ready fp (if sep then k else Suc k) s'"

lemma separator_loop_runs:
  assumes "taken fp j t s" "j \<le> k" "saw \<Longrightarrow> j < k" "j < m"
  shows "runs (separator_loop fp m saw t) s (separated fp k s)"
  using assms
proof (induction m arbitrary: j saw t s)
  case (Suc m)
  consider "is_newline (twc_token t)" | "twc_token t = Token COMMA"
    | "\<not> is_newline (twc_token t)" "twc_token t \<noteq> Token COMMA" by blast
  then show ?case
  proof cases
    case 1
    then have r: "ready fp j s" using Suc.prems(1) taken_ready newline_not_end by blast
    obtain i where i: "j = Suc i" using ready_pos [OF r] by blast
    let ?s = "s\<lparr>pc_line := token_line_number (twc_token t) + 1\<rparr>"
    have "ready fp j ?s" "j \<le> m" using r Suc.prems(4) by simp_all
    then have "runs (parse_then (pc_next_token fp m) (separator_loop fp m True)) ?s (separated fp k s)"
    proof (rule runs_bind [OF next_token_runs], goal_cases)
      case (1 u s')
      then have "runs (separator_loop fp m True u) s' (separated fp k s')"
        using i Suc.prems(2,4) by (intro Suc.IH [of i]) auto
      then show ?case by (rule runs_weaken) (use 1 in \<open>auto simp: separated_def frame_def\<close>)
    qed
    with 1 show ?thesis by (simp add: note_newline_def)
  next
    case 2
    then show ?thesis
      using taken_ready [OF Suc.prems(1)] Suc.prems(2) by (auto simp: separated_def intro: ready_mono)
  next
    case 3
    with taken_put_back [OF Suc.prems(1)] Suc.prems(2,3) show ?thesis
      by (auto simp: pc_put_back_def separated_def frame_def intro: ready_mono)
  qed
qed simp

lemma check_element_separator_runs:
  assumes "ready fp (Suc k) s" "Suc k < m"
  shows "runs (check_element_separator fp m) s (separated fp k s)"
proof (cases "pc_flavor s = JSON")
  case True
  have "runs (parse_then (next_token_ignoring_newline fp m) (\<lambda>t.
      if twc_token t = Token COMMA then parse_return True else parse_then (pc_put_back t) (\<lambda>_. parse_return False)))
    s (separated fp k s)"
    using assms
  proof (rule runs_bind [OF next_token_ignoring_newline_runs], goal_cases)
    case (1 t s')
    then have "taken fp k t s'" by simp
    with taken_put_back [OF this] taken_ready [OF this] 1 show ?case
      by (auto simp: pc_put_back_def separated_def frame_def)
  qed
  with True show ?thesis by (simp add: check_element_separator_def)
next
  case False
  have "runs (parse_then (pc_next_token fp m) (separator_loop fp m False)) s (separated fp k s)"
  proof (rule runs_bind [OF next_token_runs [OF assms(1)]], goal_cases)
    case (2 t s')
    then have "runs (separator_loop fp m False t) s' (separated fp k s')"
      using assms(2) by (intro separator_loop_runs [of fp k]) auto
    then show ?case by (rule runs_weaken) (use 2 in \<open>auto simp: separated_def frame_def\<close>)
  qed (use assms in simp)
  with False show ?thesis by (simp add: check_element_separator_def)
qed

end
