(* ===== verification/Render_Json.thy ===== *)
theory Render_Json
  imports Config_Render String_Util Token_Text Parser_Safety
begin

section \<open>Rendering, and the tokens of the text\<close>

text \<open>
  The concise rendering of a value without doubles and without anything unresolved is JSON, and
  reading it with the tokenizer and the parser gives the value back.  What a value says, without
  origins and original texts, is a JSON document; the text and the tokens of a document
  are given by recursion, the renderer is proved to write that text, the tokenizer
  to cut it into those tokens and the parser to build the document again.
\<close>

subsection \<open>Documents\<close>

datatype json = JNull | JBool bool | JNum int | JStr string | JArr "json list" | JObj "(string \<times> json) list"

fun json_of :: "config_value \<Rightarrow> json option"
  and json_each :: "config_value list \<Rightarrow> json list option"
  and json_members :: "(string \<times> config_value) list \<Rightarrow> (string \<times> json) list option" where
  "json_of (ConfigNull _) = Some JNull"
| "json_of (ConfigBoolean _ b) = Some (JBool b)"
| "json_of (ConfigInt _ i _) = Some (JNum i)"
| "json_of (ConfigInt64 _ i _) = Some (JNum i)"
| "json_of (ConfigString _ s) = Some (JStr s)"
| "json_of (SimpleConfigList _ vs _) = map_option JArr (json_each vs)"
| "json_of (SimpleConfigObject _ ms _ _) = map_option JObj (json_members ms)"
| "json_of _ = None"
| "json_each [] = Some []"
| "json_each (v # vs) =
     (case json_of v of None \<Rightarrow> None | Some j \<Rightarrow> map_option (Cons j) (json_each vs))"
| "json_members [] = Some []"
| "json_members ((k, v) # ms) =
     (case json_of v of None \<Rightarrow> None | Some j \<Rightarrow> map_option (Cons (k, j)) (json_members ms))"

fun json_text :: "json \<Rightarrow> string" where
  "json_text JNull = ''null''"
| "json_text (JBool b) = (if b then ''true'' else ''false'')"
| "json_text (JNum i) = show_int i"
| "json_text (JStr s) = render_json_string s"
| "json_text (JArr js) = ''['' @ intercalate CHR '','' (map json_text js) @ '']''"
| "json_text (JObj ms) = ''{'' @ intercalate CHR '','' (map (\<lambda>(k, j). render_json_string k @ '':'' @ json_text j) ms) @ ''}''"

text \<open>Documents that can be written: 64-bit numbers, no byte 255, no key twice.\<close>

fun json_ok :: "json \<Rightarrow> bool" where
  "json_ok (JNum i) \<longleftrightarrow> int64_min \<le> i \<and> i \<le> int64_max"
| "json_ok (JStr s) \<longleftrightarrow> CHR 0xFF \<notin> set s"
| "json_ok (JArr js) \<longleftrightarrow> list_all json_ok js"
| "json_ok (JObj ms) \<longleftrightarrow> distinct (map fst ms) \<and> list_all (\<lambda>(k, j). CHR 0xFF \<notin> set k \<and> json_ok j) ms"
| "json_ok _ \<longleftrightarrow> True"

subsection \<open>Rendering\<close>

lemma chop_join: "ss \<noteq> [] \<Longrightarrow> chop 1 (concat (map (\<lambda>s. s @ '','') ss)) = intercalate CHR '','' ss"
proof -
  have "ss \<noteq> [] \<Longrightarrow> concat (map (\<lambda>s. s @ '','') ss) = intercalate CHR '','' ss @ '',''"
    by (induction ss rule: intercalate.induct) auto
  then show "ss \<noteq> [] \<Longrightarrow> ?thesis" by (simp add: chop_def)
qed

lemma concise_options [simp]:
  "get_json render_concise" "\<not> get_formatted render_concise" "\<not> get_comments render_concise" "\<not> get_origin_comments render_concise"
  by (simp_all add: render_concise_def make_render_options_def)

lemma concise_pieces [simp]: "indent n render_concise = []" "member_comments n render_concise v = []"
  by (simp_all add: indent_def member_comments_def)

lemma concise_key: "key_prefix render_concise m b = (case mode_key m of None \<Rightarrow> [] | Some k \<Rightarrow> render_json_string k @ '':'')"
  by (simp add: key_prefix_def render_key_text_def split: option.split)

lemma concise_texts:
  "length vs = length ss \<Longrightarrow> ss \<noteq> [] \<Longrightarrow> list_text render_concise n (zip vs ss) = ''['' @ intercalate CHR '','' ss @ '']''"
  "length vs = length ss \<Longrightarrow> ss \<noteq> [] \<Longrightarrow> object_text render_concise n (zip vs ss) = ''{'' @ intercalate CHR '','' ss @ ''}''"
proof -
  have "map (\<lambda>(v, s). s @ '','') (zip vs ss) = map (\<lambda>s. s @ '','') ss" if "length vs = length ss"
    using that by (induction vs ss rule: list_induct2) auto
  then show "length vs = length ss \<Longrightarrow> ss \<noteq> [] \<Longrightarrow> list_text render_concise n (zip vs ss) = ''['' @ intercalate CHR '','' ss @ '']''"
    "length vs = length ss \<Longrightarrow> ss \<noteq> [] \<Longrightarrow> object_text render_concise n (zip vs ss) = ''{'' @ intercalate CHR '','' ss @ ''}''"
    using chop_join [of ss] by (simp_all add: list_text_def object_text_def)
qed

lemma render_json:
  "json_of v = Some j \<Longrightarrow> render_value fp render_concise m n v =
     Inr ((case mode_key m of None \<Rightarrow> [] | Some k \<Rightarrow> render_json_string k @ '':'') @ json_text j)"
  and render_json_each: "json_each vs = Some js \<Longrightarrow> render_each fp render_concise n vs = Inr (map json_text js) \<and> length js = length vs"
  and render_json_members: "json_members ms = Some ks \<Longrightarrow>
     render_members fp render_concise n ms = Inr (map (\<lambda>(k, j). render_json_string k @ '':'' @ json_text j) ks) \<and> length ks = length ms"
proof (induction v and vs and ms arbitrary: j m n and js n and ks n rule: json_of_json_each_json_members.induct)
  case (6 uu vs uv)
  then obtain js where js: "json_each vs = Some js" "j = JArr js" by auto
  with 6 have "render_each fp render_concise (n + 1) vs = Inr (map json_text js)" "length js = length vs" by blast+
  with js show ?case by (cases "js = []") (auto simp: concise_key concise_texts)
next
  case (7 uw ms ux uy)
  then obtain ks where ks: "json_members ms = Some ks" "j = JObj ks" by auto
  with 7 have "render_members fp render_concise (n + 1) ms = Inr (map (\<lambda>(k, j). render_json_string k @ '':'' @ json_text j) ks)"
    "length ks = length ms" by blast+
  with ks show ?case by (cases "ks = []") (auto simp: concise_key concise_texts)
qed (auto simp: concise_key string_text_def split: option.splits)

subsection \<open>Numbers and punctuation in the tokenizer\<close>

definition numbers :: "string \<Rightarrow> token_stream \<Rightarrow> (string \<times> bool \<times> int) \<times> token_stream" where
  "numbers sb ts = (let (c, ts') = next_char_raw ts in number_loop sb False c ts')"

definition number_char :: "char \<Rightarrow> bool" where
  "number_char c \<longleftrightarrow> c = CHR ''-'' \<or> is_digit c"

lemma digit_mem: "is_digit c \<Longrightarrow> c \<in> set ''0123456789''"
proof -
  assume "is_digit c"
  then have "code c \<in> code ` set ''0123456789''" unfolding is_digit_def by simp presburger
  then show ?thesis by (metis imageE of_char_eq_iff)
qed

lemma number_char_codes: "number_char c \<Longrightarrow> 45 \<le> code c \<and> code c \<le> 57 \<and> code c \<noteq> 46 \<and> code c \<noteq> 47"
  by (auto simp: number_char_def is_digit_def)

lemma number_char_facts:
  assumes "number_char c"
  shows "c \<in> set number_chars" "c \<in> set first_number_chars"
    "c \<noteq> CHR ''.''" "c \<noteq> CHR ''e''" "ord_of c \<noteq> multichar_e" "c \<noteq> CHR 0xFF" "ord_of c \<noteq> -1"
    "\<not> is_whitespace_not_newline (ord_of c)" "ord_of c \<noteq> 10" "c \<noteq> CHR 0x23" "c \<noteq> CHR ''/''" "c \<noteq> CHR 0x22"
    "c \<noteq> CHR ''$''" "c \<noteq> CHR ''+''" "punctuation (ord_of c) = None"
proof -
  note n = number_char_codes [OF assms]
  have "c \<in> set ''-0123456789''"
    using assms digit_mem [of c] unfolding number_char_def list.set(2) [of "CHR ''-''"] by blast
  moreover have "set ''-0123456789'' \<subseteq> set number_chars" "set ''-0123456789'' \<subseteq> set first_number_chars"
    by (simp_all add: number_chars_def first_number_chars_def)
  ultimately show "c \<in> set number_chars" "c \<in> set first_number_chars" by blast+
  have o: "ord_of c = int (code c)" using n by (simp add: char_to_int_def)
  show "c \<noteq> CHR ''.''" "c \<noteq> CHR ''e''" "c \<noteq> CHR 0xFF" "c \<noteq> CHR 0x23" "c \<noteq> CHR ''/''" "c \<noteq> CHR 0x22"
    "c \<noteq> CHR ''$''" "c \<noteq> CHR ''+''" using n by auto
  have r: "45 \<le> ord_of c" "ord_of c \<le> 57" unfolding o using n by simp_all
  then show "ord_of c \<noteq> multichar_e" "ord_of c \<noteq> -1" "ord_of c \<noteq> 10" by (simp_all add: multichar_e_def)
  show "\<not> is_whitespace_not_newline (ord_of c)"
    using r unfolding is_whitespace_not_newline_def is_whitespace_def by linarith
  have "c \<noteq> CHR '':''" "c \<noteq> CHR '',''" "c \<noteq> CHR ''=''" "c \<noteq> CHR ''{''" "c \<noteq> CHR ''}''" "c \<noteq> CHR ''[''" "c \<noteq> CHR '']''"
    using n by auto
  then show "punctuation (ord_of c) = None" by (simp add: punctuation_def)
qed

lemma numbers_run:
  "at_text b ts (d @ s) \<Longrightarrow> list_all number_char d \<Longrightarrow>
   \<exists>ts'. at_text b ts' s \<and> same_line ts ts' \<and> numbers sb ts = numbers (sb @ d) ts'"
proof (induction d arbitrary: ts sb)
  case (Cons c d)
  then have c: "number_char c" by auto
  obtain ts1 where n: "next_char_raw ts = (ord_of c, ts1)" "at_text (b - 1) ts1 (d @ s)" "same_line ts ts1"
    using next_text [of b ts c "d @ s"] Cons.prems(1) by auto
  have "numbers sb ts = numbers (sb @ [c]) ts1"
    using number_char_facts [OF c] n(1) by (subst numbers_def) (simp add: number_loop.simps [of sb] numbers_def)
  with Cons.IH [OF at_text_weaken [OF n(2), of b], of "sb @ [c]"] n(3) Cons.prems(2) show ?case
    by (auto intro: same_line_trans)
qed auto

definition ends_number :: "string \<Rightarrow> bool" where
  "ends_number s \<longleftrightarrow> s = [] \<or> hd s \<noteq> CHR 0xFF \<and> hd s \<notin> set number_chars"

lemma numbers_stop:
  assumes "at_text 2 ts s" "ends_number s"
  shows "\<exists>c ts1 ts2. numbers sb ts = ((sb, False, c), ts1) \<and> put_back c ts1 = (Inr (), ts2) \<and> at_text 2 ts2 s \<and> same_line ts ts2"
proof (cases s)
  case Nil
  obtain ts1 where n: "next_char_raw ts = (-1, ts1)" "at_text 1 ts1 []" "same_line ts ts1"
    using next_text_end [of 2 ts] assms(1) Nil by auto
  obtain ts2 where "put_back (-1) ts1 = (Inr (), ts2)" "at_text 2 ts2 []" "same_line ts1 ts2"
    using put_back_end [OF n(2)] by (auto simp: numeral_2_eq_2)
  with n Nil show ?thesis by (auto simp: numbers_def number_loop.simps intro: same_line_trans)
next
  case (Cons c s')
  obtain ts1 where n: "next_char_raw ts = (ord_of c, ts1)" "at_text 1 ts1 s'" "same_line ts ts1"
    using next_text [of 2 ts c s'] assms(1) Cons by auto
  obtain ts2 where "put_back (ord_of c) ts1 = (Inr (), ts2)" "at_text 2 ts2 s" "same_line ts1 ts2"
    using put_back_text [OF n(2), of c] Cons by (auto simp: numeral_2_eq_2)
  moreover have "int_to_char (ord_of c) \<notin> set number_chars" using assms(2) Cons by (simp add: ends_number_def)
  ultimately show ?thesis using n by (auto simp: numbers_def number_loop.simps intro: same_line_trans)
qed

lemma int_text_chars: "list_all number_char (show_int i)" "show_int i \<noteq> []"
  by (auto simp: show_int_def list_all_iff number_char_def dest: show_nat_digits)

lemma pull_next_int:
  assumes "at_text 2 ts (show_int i @ s)" "int64_min \<le> i" "i \<le> int64_max" "ends_number s"
  shows "\<exists>ts'. pull_next_token fp (Suc n) sv ts = (sv, Inr (new_int64 (line_origin ts) i (show_int i)), ts') \<and>
           at_text 2 ts' s \<and> same_line ts ts'"
proof -
  obtain c d where cd: "show_int i = c # d" using int_text_chars(2) by (cases "show_int i") auto
  then have c: "number_char c" and d: "list_all number_char d" using int_text_chars(1) [of i] by auto
  note f = number_char_facts [OF c]
  obtain ts1 where n: "next_char_after_whitespace sv ts = (ord_of c, sv, ts1)" "at_text 1 ts1 (d @ s)" "same_line ts ts1"
    using skip_nothing [of 2 ts c "d @ s" sv] assms(1) cd f by auto
  obtain ts2 where r: "at_text 2 ts2 s" "same_line ts1 ts2" "numbers [c] ts1 = numbers (c # d) ts2"
    using numbers_run [OF at_text_weaken [OF n(2), of 2] d, of "[c]"] by auto
  obtain c' ts3 ts4 where e: "numbers (c # d) ts2 = ((c # d, False, c'), ts3)" "put_back c' ts3 = (Inr (), ts4)" "at_text 2 ts4 s"
      "same_line ts2 ts4" using numbers_stop [OF r(1) assms(4)] by blast
  have "same_line ts ts4" using n(3) r(2) e(4) by (blast intro: same_line_trans)
  moreover have "pull_number fp (ord_of c) ts1 = (Inr (new_int64 (line_origin ts4) i (show_int i)), ts4)"
    using r(3) e(1,2) lexical_int64_show_int [OF assms(2,3)]
    by (simp add: pull_number_def numbers_def then_pull_def cd split: prod.splits)
  ultimately show ?thesis
    using n(1) e(3) f unfolding pull_next_token.simps
    by (auto simp: no_comment then_pull_def pull_other_def same_line_def)
qed

lemma pull_next_punctuation:
  assumes "at_text 2 ts (c # s)" "punctuation (ord_of c) = Some t"
  shows "\<exists>ts'. pull_next_token fp (Suc n) sv ts = (sv, Inr t, ts') \<and> at_text 2 ts' s \<and> same_line ts ts'"
proof -
  have c: "c \<in> set '':,={}[]''" using assms(2) by (auto simp: punctuation_def split: if_splits)
  then have f: "c \<noteq> CHR 0xFF" "\<not> is_whitespace_not_newline (ord_of c)" "ord_of c \<noteq> -1" "ord_of c \<noteq> 10" "c \<noteq> CHR 0x23"
    "c \<noteq> CHR ''/''" "ord_of c \<noteq> ord_of CHR 0x22" "ord_of c \<noteq> ord_of CHR ''$''"
    by (auto simp: char_to_int_def is_whitespace_not_newline_def is_whitespace_def)
  obtain ts1 where n: "next_char_after_whitespace sv ts = (ord_of c, sv, ts1)" "at_text 1 ts1 s" "same_line ts ts1"
    using skip_nothing [OF assms(1) f(1,2), of sv] by auto
  then show ?thesis
    using f assms(2) at_text_weaken [OF n(2), of 2] unfolding pull_next_token.simps
    by (auto simp: no_comment then_pull_def)
qed

subsection \<open>Tokens\<close>

text \<open>The tokens of a text of punctuation, strings, literals and whole numbers without white space.\<close>

inductive scans :: "config_origin \<Rightarrow> string \<Rightarrow> token list \<Rightarrow> bool" for lo where
  scans_end: "scans lo [] [Token END]"
| scans_punctuation: "punctuation (ord_of c) = Some t \<Longrightarrow> scans lo s l \<Longrightarrow> scans lo (c # s) (t # l)"
| scans_string: "CHR 0xFF \<notin> set x \<Longrightarrow> s = [] \<or> hd s \<noteq> CHR 0x22 \<Longrightarrow> scans lo s l \<Longrightarrow>
    scans lo (render_json_string x @ s) (new_string lo x # l)"
| scans_literal: "w \<in> literals \<Longrightarrow> scans lo s l \<Longrightarrow> scans lo (w @ s) (literal_token lo w # l)"
| scans_int: "int64_min \<le> i \<Longrightarrow> i \<le> int64_max \<Longrightarrow> ends_number s \<Longrightarrow> scans lo s l \<Longrightarrow>
    scans lo (show_int i @ s) (new_int64 lo i (show_int i) # l)"

lemma punctuation_not_end: "punctuation c = Some t \<Longrightarrow> t \<noteq> Token END"
  by (auto simp: punctuation_def split: if_splits)

lemma scans_pull:
  assumes "scans lo s l" "at_text 2 ts s" "line_origin ts = lo"
  shows "\<exists>s' sv' ts'. pull_next_token fp (Suc n) sv ts = (sv', Inr (hd l), ts') \<and> at_text 2 ts' s' \<and> same_line ts ts' \<and>
    (l = [Token END] \<or> hd l \<noteq> Token END \<and> sv' = sv \<and> scans lo s' (tl l))"
  using assms(1)
proof cases
  case scans_end
  then obtain sv' ts' where "next_char_after_whitespace sv ts = (-1, sv', ts')" "at_text 2 ts' []" "same_line ts ts'"
    using skip_to_end [of 2 ts "[]" sv] assms(2) by auto
  with scans_end show ?thesis unfolding pull_next_token.simps by (auto intro: exI [of _ "[]"])
next
  case (scans_punctuation c t s' l')
  from scans_punctuation pull_next_punctuation [of ts c s' t fp n sv] assms(2) punctuation_not_end show ?thesis by fastforce
next
  case (scans_string x s' l')
  from scans_string pull_next_quoted [of ts x s' fp n sv] assms(2,3) show ?thesis by (fastforce simp: new_string_def)
next
  case (scans_literal w s' l')
  from scans_literal pull_next_literal [of ts w s' fp n sv] assms(2,3) show ?thesis
    by (fastforce simp: literal_token_def new_boolean_def new_null_def)
next
  case (scans_int i s' l')
  from scans_int pull_next_int [of ts i s' fp n sv] assms(2,3) show ?thesis by (fastforce simp: new_int64_def)
qed

lemma saver_none: "whitespace s = [] \<Longrightarrow> \<exists>s'. saver_check t orig n s = (Inr None, s') \<and> whitespace s' = []"
  using saver_clean [of t s orig n]
  by (cases "is_simple_value t") (auto simp: saver_check_def next_is_not_a_simple_value_def)

lemma scans_yields:
  "scans lo s l \<Longrightarrow> at_text 2 ts s \<Longrightarrow> line_origin ts = lo \<Longrightarrow> tokens ts = [t] \<Longrightarrow> t \<noteq> Token END \<Longrightarrow>
   whitespace (whitespace_saver ts) = [] \<Longrightarrow> yields fp (StreamIterator ts) (t # l)"
proof (induction l arbitrary: s ts t)
  case Nil
  then show ?case by (auto elim: scans.cases)
next
  case (Cons a l)
  let ?ts = "ts\<lparr>tokens := []\<rparr>"
  have at: "at_text 2 ?ts s" "line_origin ?ts = lo" using Cons.prems(2,3) by (simp_all add: at_text_def pending_def)
  obtain s' sv' ts1 where p: "pull_next_token fp (token_fuel ?ts) (whitespace_saver ?ts) ?ts = (sv', Inr a, ts1)"
    "at_text 2 ts1 s'" "same_line ?ts ts1" "a # l = [Token END] \<or> a \<noteq> Token END \<and> sv' = whitespace_saver ts \<and> scans lo s' l"
    using scans_pull [OF Cons.prems(1) at, of fp "2 * stream_size ?ts" "whitespace_saver ?ts"] by (auto simp: token_fuel_def)
  have f: "tokens ts1 = []" "line_origin ts1 = lo" using p(3) Cons.prems(3) by (auto simp: same_line_def same_frame_def)
  show ?case
  proof (cases "a # l = [Token END]")
    case True
    then have n: "next_token fp ts = (Inr t, ts1\<lparr>whitespace_saver := next_is_not_a_simple_value sv', tokens := [Token END]\<rparr>)"
      using p(1) f Cons.prems(4,5)
      by (auto simp: next_token_def queue_next_token_def saver_check_def is_simple_value_def)
    have "yields fp (StreamIterator (ts1\<lparr>whitespace_saver := next_is_not_a_simple_value sv', tokens := [Token END]\<rparr>)) [Token END]"
      by (rule yields_Cons [OF _ yields_Nil]) (simp add: next_token_def)
    with True n show ?thesis by (auto intro: yields_Cons [of fp "StreamIterator ts" t, rotated])
  next
    case False
    with p(4) have sv: "sv' = whitespace_saver ts" and r: "scans lo s' l" and a: "a \<noteq> Token END" by auto
    obtain sv2 where c: "saver_check a (ts_origin ts1) (line_number ts1) sv' = (Inr None, sv2)" "whitespace sv2 = []"
      using saver_none Cons.prems(6) sv by blast
    let ?ts2 = "ts1\<lparr>whitespace_saver := sv2, tokens := [a]\<rparr>"
    have n: "next_token fp ts = (Inr t, ?ts2)"
      using p(1) c(1) f Cons.prems(4,5) by (auto simp: next_token_def queue_next_token_def)
    have "yields fp (StreamIterator ?ts2) (a # l)"
      by (rule Cons.IH [OF r]) (use p(2) f c(2) a in \<open>auto simp: at_text_def pending_def\<close>)
    with n show ?thesis by (auto intro: yields_Cons [of fp "StreamIterator ts" t, rotated])
  qed
qed

subsection \<open>The tokens of a document\<close>

fun json_tokens :: "config_origin \<Rightarrow> json \<Rightarrow> token list" where
  "json_tokens lo JNull = [new_null lo]"
| "json_tokens lo (JBool b) = [new_boolean lo b]"
| "json_tokens lo (JNum i) = [new_int64 lo i (show_int i)]"
| "json_tokens lo (JStr s) = [new_string lo s]"
| "json_tokens lo (JArr []) = [Token OPEN_SQUARE, Token CLOSE_SQUARE]"
| "json_tokens lo (JArr (j # js)) =
     Token OPEN_SQUARE # json_tokens lo j @ concat (map (\<lambda>j. Token COMMA # json_tokens lo j) js) @ [Token CLOSE_SQUARE]"
| "json_tokens lo (JObj []) = [Token OPEN_CURLY, Token CLOSE_CURLY]"
| "json_tokens lo (JObj ((k, j) # ms)) =
     Token OPEN_CURLY # new_string lo k # Token COLON # json_tokens lo j @
     concat (map (\<lambda>(k, j). Token COMMA # new_string lo k # Token COLON # json_tokens lo j) ms) @ [Token CLOSE_CURLY]"

text \<open>What may follow a value: the end, a comma or a closing bracket.\<close>

definition follows :: "string \<Rightarrow> bool" where
  "follows s \<longleftrightarrow> s = [] \<or> hd s \<in> {CHR '','', CHR '']'', CHR ''}''}"

lemma follows_facts: "follows s \<Longrightarrow> ends_number s \<and> (s = [] \<or> hd s \<noteq> CHR 0x22)"
  by (auto simp: follows_def ends_number_def number_chars_def)

lemma punctuations [simp]:
  "punctuation (ord_of CHR '','') = Some (Token COMMA)" "punctuation (ord_of CHR '':'') = Some (Token COLON)"
  "punctuation (ord_of CHR ''['') = Some (Token OPEN_SQUARE)" "punctuation (ord_of CHR '']'') = Some (Token CLOSE_SQUARE)"
  "punctuation (ord_of CHR ''{'') = Some (Token OPEN_CURLY)" "punctuation (ord_of CHR ''}'') = Some (Token CLOSE_CURLY)"
  by (simp_all add: punctuation_def)

lemma scans_items:
  assumes "\<And>x s l. x \<in> set xs \<Longrightarrow> scans lo s l \<Longrightarrow> follows s \<Longrightarrow> scans lo (f x @ s) (g x @ l)"
    and "scans lo (c # s) l" "c = CHR '']'' \<or> c = CHR ''}''"
  shows "scans lo (concat (map (\<lambda>x. CHR '','' # f x) xs) @ c # s) (concat (map (\<lambda>x. Token COMMA # g x) xs) @ l)"
  using assms
proof (induction xs)
  case (Cons x xs)
  let ?s = "concat (map (\<lambda>x. CHR '','' # f x) xs) @ c # s"
  have "follows ?s" using Cons.prems(3) by (cases xs) (auto simp: follows_def)
  then have "scans lo (f x @ ?s) (g x @ concat (map (\<lambda>x. Token COMMA # g x) xs) @ l)"
    using Cons by auto
  from scans_punctuation [of "CHR '',''", OF _ this] show ?case by simp
qed simp

lemma intercalate_commas: "intercalate CHR '','' (x # xs) = x @ concat (map (\<lambda>y. CHR '','' # y) xs)"
  by (induction xs arbitrary: x) auto

lemma scans_json: "json_ok j \<Longrightarrow> scans lo s l \<Longrightarrow> follows s \<Longrightarrow> scans lo (json_text j @ s) (json_tokens lo j @ l)"
proof (induction lo j arbitrary: s l rule: json_tokens.induct)
  case (1 lo)
  then show ?case using scans_literal [of "''null''" lo s l] by (simp add: literals_def literal_token_def)
next
  case (2 lo b)
  then show ?case
    using scans_literal [of "''true''" lo s l] scans_literal [of "''false''" lo s l]
    by (cases b) (simp_all add: literals_def literal_token_def)
next
  case (3 lo i)
  then show ?case using scans_int [of i s lo l] follows_facts by simp
next
  case (4 lo x)
  then show ?case using scans_string [of x s lo l] follows_facts by simp
next
  case (5 lo)
  then show ?case by (simp add: scans_punctuation)
next
  case (6 lo j js)
  have "scans lo (concat (map (\<lambda>x. CHR '','' # json_text x) js) @ CHR '']'' # s)
      (concat (map (\<lambda>x. Token COMMA # json_tokens lo x) js) @ Token CLOSE_SQUARE # l)" (is "scans lo ?t ?l")
    using 6 by (intro scans_items) (auto simp: list_all_iff scans_punctuation)
  moreover have "follows ?t" by (cases js) (auto simp: follows_def)
  ultimately have "scans lo (json_text j @ ?t) (json_tokens lo j @ ?l)" using 6 by auto
  from scans_punctuation [of "CHR ''[''", OF _ this] show ?case by (simp add: intercalate_commas comp_def)
next
  case (7 lo)
  then show ?case by (simp add: scans_punctuation)
next
  case (8 lo k j ms)
  let ?f = "\<lambda>(k, j). render_json_string k @ '':'' @ json_text j"
  let ?g = "\<lambda>(k, j). new_string lo k # Token COLON # json_tokens lo j"
  have member: "scans lo (?f (k, j) @ s) (?g (k, j) @ l)"
    if "CHR 0xFF \<notin> set k" "scans lo (json_text j @ s) (json_tokens lo j @ l)" for k j s l
    using scans_string [OF that(1), of "'':'' @ json_text j @ s"] scans_punctuation [of "CHR '':''", OF _ that(2)] by simp
  have "scans lo (?f x @ s) (?g x @ l)" if "x \<in> set ms" "scans lo s l" "follows s" for x s l
  proof -
    obtain k' j' where x: "x = (k', j')" by (cases x)
    then have "CHR 0xFF \<notin> set k'" "json_ok j'" using that(1) "8.prems"(1) by (auto simp: list_all_iff)
    with "8.IH"(2) [OF that(1) x [symmetric]] that(2,3) show ?thesis unfolding x by (intro member) auto
  qed
  then have "scans lo (concat (map (\<lambda>x. CHR '','' # ?f x) ms) @ CHR ''}'' # s)
      (concat (map (\<lambda>x. Token COMMA # ?g x) ms) @ Token CLOSE_CURLY # l)" (is "scans lo ?t ?l")
    using 8 by (intro scans_items) (auto simp: scans_punctuation)
  moreover have "follows ?t" by (cases ms) (auto simp: follows_def)
  ultimately have "scans lo (?f (k, j) @ ?t) (?g (k, j) @ ?l)" using 8 by (intro member) auto
  moreover have "(\<lambda>(k, j). Token COMMA # new_string lo k # Token COLON # json_tokens lo j) = (\<lambda>x. Token COMMA # ?g x)"
    by (auto simp: fun_eq_iff)
  ultimately show ?case
    using scans_punctuation [of "CHR ''{''" "Token OPEN_CURLY" lo "?f (k, j) @ ?t" "?g (k, j) @ ?l"]
    by (simp add: intercalate_commas comp_def)
qed

end
