(* ===== verification/Parser_Values.thy ===== *)
theory Parser_Values
  imports Parser_Safety
begin

section \<open>The parser on values, members and keys\<close>

text \<open>
  The rest of the proof that parsing ends in a well-formed value or a reported exception:
  values and members stay well formed, keys and includes, and the loops over elements.
\<close>

subsection \<open>Values\<close>

lemma merge_ok: "well_formed v \<Longrightarrow> well_formed w \<Longrightarrow> \<exists>u. merge v w = Inr u \<and> well_formed u"
  using with_fallback_ok [of v w]
  by (auto simp: merge_def merges_to_def bind_exc_def split: sum.splits option.splits)

lemma set_comments_ok: "origin_named orig \<Longrightarrow> \<exists>orig'. set_comments orig cs = Inr orig' \<and> origin_named orig'"
  using named_text_not_Nil by (auto simp: set_comments_def make_origin_def origin_named_def)

lemma comment_texts_ok: "\<forall>c \<in> set cs. is_comment c \<Longrightarrow> \<exists>ss. comment_texts fp cs = Inr ss"
proof (induction cs)
  case (Cons c cs)
  then show ?case by (cases c) (auto simp: get_comment_text_def)
qed simp

lemma set_token_comments_ok:
  assumes "good_twc t" "origin_named orig"
  shows "\<exists>orig'. set_token_comments fp t orig = Inr orig' \<and> origin_named orig'"
proof -
  obtain ss where "comment_texts fp (twc_comments t) = Inr ss"
    using comment_texts_ok assms(1) unfolding good_twc_def by blast
  with set_comments_ok [OF assms(2), of ss] assms(2) show ?thesis by (auto simp: set_token_comments_def)
qed

lemma with_origin_ok: "part_ok v \<Longrightarrow> origin_named orig \<Longrightarrow> \<exists>w. with_origin orig v = Inr w \<and> part_ok w"
  by (cases v)
     (auto simp: with_origin_def part_ok_def new_list_def make_list_def make_object_def make_concatenation_def
       make_delayed_merge_def make_delayed_merge_object_def)

definition members_ok :: "config_members \<Rightarrow> bool" where
  "members_ok ms \<longleftrightarrow> (\<forall>e \<in> set ms. well_formed (snd e)) \<and> distinct (map fst ms)"

lemma members_ok_Nil [simp]: "members_ok []"
  by (simp add: members_ok_def)

lemma members_ok_update: "members_ok ms \<Longrightarrow> well_formed v \<Longrightarrow> members_ok (AList.update k v ms)"
  unfolding members_ok_def by (induction ms) (auto simp: dom_update)

lemma members_ok_lookup: "members_ok ms \<Longrightarrow> map_of ms k = Some v \<Longrightarrow> well_formed v"
  by (auto simp: members_ok_def dest!: map_of_SomeD)

lemma new_object_ok: "origin_named orig \<Longrightarrow> members_ok ms \<Longrightarrow> \<exists>v. new_object orig ms = Inr v \<and> part_ok v"
  by (auto simp: new_object_def make_object_def part_ok_def members_ok_def)

lemma new_list_ok: "origin_named orig \<Longrightarrow> \<forall>v \<in> set vs. well_formed v \<Longrightarrow> \<exists>v. new_list orig vs = Inr v \<and> part_ok v"
  by (auto simp: new_list_def make_list_def part_ok_def)

lemma wrap_keys_ok: "origin_named orig \<Longrightarrow> well_formed v \<Longrightarrow> \<exists>w. wrap_keys orig ks v = Inr w \<and> well_formed w"
proof (induction ks arbitrary: v)
  case (Cons k ks)
  then show ?case by (auto simp: new_object_def make_object_def)
qed simp

lemma create_value_under_path_ok:
  assumes "well_formed v"
  shows "create_value_under_path p v = Inl EndDereference \<or> (\<exists>w. create_value_under_path p v = Inr w \<and> well_formed w)"
proof (cases "keys_until_empty p = []")
  case False
  obtain orig where orig: "set_comments (value_origin v) [] = Inr orig" "origin_named orig"
    using set_comments_ok [OF well_formed_origin [OF assms]] by blast
  with False wrap_keys_ok [OF orig(2) assms, of "rev (keys_until_empty p)"] show ?thesis
    by (auto simp: create_value_under_path_def)
qed (simp add: create_value_under_path_def)

lemma merge_existing_ok:
  assumes "well_formed v" "members_ok ms"
  shows "\<exists>w. (case map_of ms k of None \<Rightarrow> Inr v | Some old \<Rightarrow> merge v old) = Inr w \<and> well_formed w"
  using assms merge_ok members_ok_lookup by (cases "map_of ms k") fastforce+

lemma store_value_runs:
  assumes "origin_named (pc_origin s)" "well_formed v" "members_ok ms" "pc_flavor s = JSON \<Longrightarrow> remainder p = None"
  shows "runs (store_value p v ms) s (\<lambda>ms' s'. s' = s \<and> members_ok ms')"
proof (cases "remainder p")
  case None
  show ?thesis
  proof (cases "map_of ms (first p)")
    case None
    with \<open>remainder p = None\<close> assms show ?thesis by (simp add: store_value_def members_ok_update)
  next
    case (Some old)
    obtain w where "merge v old = Inr w" "well_formed w"
      using merge_ok members_ok_lookup [OF assms(3) Some] assms(2) by blast
    with Some None assms show ?thesis by (simp add: store_value_def Let_def members_ok_update parse_error_runs)
  qed
next
  case (Some r)
  with assms(4) have "pc_flavor s \<noteq> JSON" by auto
  moreover have "runs (parse_then (parse_exc (create_value_under_path r v)) (\<lambda>obj.
      parse_then (parse_exc (case map_of ms (first p) of None \<Rightarrow> Inr obj | Some old \<Rightarrow> merge obj old)) (\<lambda>v.
        parse_return (AList.update (first p) v ms)))) s (\<lambda>ms' s'. s' = s \<and> members_ok ms')"
  proof (cases "create_value_under_path r v = Inl EndDereference")
    case False
    then obtain obj where obj: "create_value_under_path r v = Inr obj" "well_formed obj"
      using create_value_under_path_ok [OF assms(2)] by blast
    obtain w where "(case map_of ms (first p) of None \<Rightarrow> Inr obj | Some old \<Rightarrow> merge obj old) = Inr w" "well_formed w"
      using merge_existing_ok [OF obj(2) assms(3)] by blast
    with obj assms(3) show ?thesis by (simp add: members_ok_update)
  qed simp
  ultimately show ?thesis using Some by (simp add: store_value_def Let_def)
qed

lemma merge_included_ok:
  "\<forall>e \<in> set ms. well_formed (snd e) \<Longrightarrow> members_ok values \<Longrightarrow>
   \<exists>values'. merge_included ms values = Inr values' \<and> members_ok values'"
proof (induction ms arbitrary: "values")
  case (Cons e ms)
  obtain k v where e: "e = (k, v)" by (cases e)
  obtain w where "(case map_of values k of None \<Rightarrow> Inr v | Some old \<Rightarrow> merge v old) = Inr w" "well_formed w"
    using merge_existing_ok [of v "values" k] Cons.prems e by auto
  with Cons e show ?case by (simp add: members_ok_update)
qed simp

subsection \<open>Prefixes\<close>

text \<open>\<^verbatim>\<open>relativized\<close> keeps the class and the status of every value.\<close>

definition same_kind :: "config_value \<Rightarrow> config_value \<Rightarrow> bool" where
  "same_kind v w \<longleftrightarrow> is_object w = is_object v \<and> is_simple_object w = is_simple_object v \<and> is_concatenation w = is_concatenation v \<and>
     is_delayed_merge w = is_delayed_merge v \<and> is_unmergeable w = is_unmergeable v \<and> value_status w = value_status v"

lemma same_kind_refl [simp]: "same_kind v v"
  by (simp add: same_kind_def)

lemma same_kind_list:
  assumes "list_all2 same_kind vs ws"
  shows "from_values ws = from_values vs" "list_ex is_concatenation ws = list_ex is_concatenation vs"
    "list_ex is_delayed_merge ws = list_ex is_delayed_merge vs" "list_ex is_unmergeable ws = list_ex is_unmergeable vs"
    "length ws = length vs" "vs \<noteq> [] \<Longrightarrow> is_object (hd ws) = is_object (hd vs)"
  using assms by (induction rule: list_all2_induct) (simp_all add: same_kind_def)

definition relative_ok :: "config_value \<Rightarrow> config_exception + config_value \<Rightarrow> bool" where
  "relative_ok v r \<longleftrightarrow> (\<exists>w. r = Inr w \<and> well_formed w \<and> same_kind v w)"

lemma relativized_ok: "well_formed v \<Longrightarrow> relative_ok v (relativized p v)"
  and relativized_list_ok: "\<forall>v \<in> set vs. well_formed v \<Longrightarrow>
    \<exists>ws. relativized_list p vs = Inr ws \<and> (\<forall>w \<in> set ws. well_formed w) \<and> list_all2 same_kind vs ws"
  and relativized_members_ok: "\<forall>e \<in> set ms. well_formed (snd e) \<Longrightarrow>
    \<exists>ns. relativized_members p ms = Inr ns \<and> (\<forall>e \<in> set ns. well_formed (snd e)) \<and> map fst ns = map fst ms \<and>
      list_all2 same_kind (map snd ms) (map snd ns)"
proof (induction p v and p vs and p ms rule: relativized_relativized_list_relativized_members.induct)
  case (1 p orig expr n)
  obtain q where "prepend (expr_path expr) p = Inr (Some q)" using prepend_keys by blast
  with 1 show ?case by (auto simp: relativized_ref_def relative_ok_def same_kind_def)
next
  case (2 p orig vs st)
  then obtain ws where "relativized_list p vs = Inr ws" "\<forall>w \<in> set ws. well_formed w" "from_values ws = from_values vs"
    using same_kind_list(1) by auto
  with 2(2) show ?case by (simp add: relative_ok_def make_list_def same_kind_def)
next
  case (3 p orig ms st ig)
  then obtain ns where "relativized_members p ms = Inr ns" "\<forall>e \<in> set ns. well_formed (snd e)" "map fst ns = map fst ms"
    "from_values (map snd ns) = from_values (map snd ms)"
    using same_kind_list(1) by auto
  with 3(2) show ?case by (simp add: relative_ok_def make_object_def same_kind_def)
next
  case (4 p orig ps)
  then obtain ws where ws: "relativized_list p ps = Inr ws" "\<forall>w \<in> set ws. well_formed w" "list_all2 same_kind ps ws"
    by auto
  with 4(2) show ?case
    by (simp add: relative_ok_def make_concatenation_def same_kind_def same_kind_list [OF ws(3)])
next
  case (5 p orig stack)
  then obtain ws where ws: "relativized_list p stack = Inr ws" "\<forall>w \<in> set ws. well_formed w" "list_all2 same_kind stack ws"
    by auto
  moreover have "ws \<noteq> []" using ws(3) 5(2) by auto
  ultimately show ?case
    using 5(2) by (simp add: relative_ok_def make_delayed_merge_def same_kind_def same_kind_list [OF ws(3)])
next
  case (6 p orig stack)
  then obtain ws where ws: "relativized_list p stack = Inr ws" "\<forall>w \<in> set ws. well_formed w" "list_all2 same_kind stack ws"
    by auto
  moreover have "ws \<noteq> []" using ws(3) 6(2) by auto
  ultimately show ?case
    using 6(2) by (simp add: relative_ok_def make_delayed_merge_object_def same_kind_def same_kind_list [OF ws(3)])
next
  case (9 p v vs)
  then show ?case by (auto simp: relative_ok_def)
next
  case (11 p k v ms)
  then show ?case by (auto simp: relative_ok_def)
qed (simp_all add: relative_ok_def)

subsection \<open>Keys\<close>

definition path_ok :: "tok_exception + config_path option \<Rightarrow> bool" where
  "path_ok r \<longleftrightarrow> (\<exists>e. r = Inl e \<and> reported e) \<or> (\<exists>p. r = Inr (Some p))"

lemma path_token_ok:
  "case path_token fp orig orig_text t buf of Inl e \<Rightarrow> reported e | Inr buf' \<Rightarrow> t \<noteq> Token END \<longrightarrow> buf' \<noteq> []"
  by (cases t) (auto simp: path_token_def lift_exc_def bind_exc_def bad_path_def dest!: value_type_exc token_to_string_exc tokens_to_string_exc
      split: sum.splits if_splits)

lemma path_tokens_ok:
  "buf \<noteq> [] \<Longrightarrow> case path_tokens fp orig orig_text l buf of Inl e \<Rightarrow> reported e | Inr buf' \<Rightarrow> buf' \<noteq> []"
proof (induction l arbitrary: buf)
  case (Cons t l)
  show ?case
  proof (cases "t = Token END")
    case True
    with Cons show ?thesis by simp
  next
    case False
    with path_token_ok [of t fp orig orig_text buf] Cons.IH show ?thesis
      by (cases "path_token fp orig orig_text t buf") auto
  qed
qed simp

lemma append_elements_reported:
  "pb_open pb \<Longrightarrow> es \<noteq> [] \<or> keys pb \<noteq> [] \<Longrightarrow>
   case append_elements orig orig_text es pb of Inl e \<Rightarrow> reported e | Inr pb' \<Rightarrow> pb_open pb' \<and> keys pb' \<noteq> []"
proof (induction es arbitrary: pb)
  case (Cons e es)
  obtain pb' where pb': "append_key pb (element_text e) = Inr pb'" "pb_open pb'" "rev (keys pb') = rev (keys pb) @ [element_text e]"
    using append_key_ok [OF Cons.prems(1)] by blast
  then have "keys pb' \<noteq> []" by auto
  with Cons.IH [OF pb'(2)] pb'(1) show ?case by (simp add: lift_exc_def bad_path_def)
qed simp

lemma parse_path_expression_vector:
  "l \<noteq> [] \<Longrightarrow> parse_path_expression fp (VectorIterator l) orig orig_text =
     bind_exc (path_tokens fp orig orig_text l [empty_element])
       (\<lambda>buf. bind_exc (append_elements orig orig_text buf new_builder) (\<lambda>pb. Inr (fst (result pb))))"
  by (simp add: parse_path_expression_def path_loop_vector del: path_loop.simps)

lemma parse_path_expression_ok: "path_ok (parse_path_expression fp (VectorIterator l) orig orig_text)"
proof (cases "l = []")
  case False
  show ?thesis
  proof (cases "path_tokens fp orig orig_text l [empty_element]")
    case (Inl e)
    with False path_tokens_ok [of "[empty_element]" fp orig orig_text l] show ?thesis
      by (simp add: path_ok_def parse_path_expression_vector)
  next
    case (Inr buf)
    with path_tokens_ok [of "[empty_element]" fp orig orig_text l] have "buf \<noteq> []" by simp
    with append_elements_reported [of new_builder buf orig orig_text] have
      el: "case append_elements orig orig_text buf new_builder of Inl e \<Rightarrow> reported e | Inr pb \<Rightarrow> pb_open pb \<and> keys pb \<noteq> []"
      by simp
    have "fst (result pb) \<noteq> None" if "pb_open pb" "keys pb \<noteq> []" for pb
      using result_keys [OF that(1)] that(2) by (cases "fst (result pb)") auto
    with el False Inr show ?thesis
      by (auto simp: path_ok_def parse_path_expression_vector bind_exc_def split: sum.splits)
  qed
qed (simp add: path_ok_def parse_path_expression_def bad_path_def)

lemma key_tokens_more:
  assumes "taken fp k t s" "k < n"
  shows "runs (key_tokens fp n expression t) s (\<lambda>(l, t') s'. frame s s' \<and> taken fp k t' s' \<and> (expression \<noteq> [] \<longrightarrow> l \<noteq> []))"
  using assms
proof (induction n arbitrary: k t s expression)
  case (Suc n)
  show ?case
  proof (cases "is_value (twc_token t) \<or> is_unquoted_text (twc_token t)")
    case True
    then have r: "ready fp k s" using Suc.prems(1) taken_ready by fastforce
    have "runs (parse_then (pc_next_token fp n) (key_tokens fp n (expression @ [twc_token t]))) s
      (\<lambda>(l, t') s'. frame s s' \<and> taken fp k t' s' \<and> (expression \<noteq> [] \<longrightarrow> l \<noteq> []))"
    proof (rule runs_bind [OF next_token_runs [OF r]], goal_cases)
      case (2 u s')
      then have "runs (key_tokens fp n (expression @ [twc_token t]) u) s' (\<lambda>(l, t') s''. frame s' s'' \<and>
          taken fp (k - 1) t' s'' \<and> (expression @ [twc_token t] \<noteq> [] \<longrightarrow> l \<noteq> []))"
        using Suc.prems(2) ready_pos [OF r] by (intro Suc.IH) auto
      then show ?case by (rule runs_weaken) (use 2 in \<open>auto intro: taken_mono frame_trans\<close>)
    qed (use Suc.prems in simp)
    with True show ?thesis by simp
  next
    case False
    with Suc.prems show ?thesis by auto
  qed
qed simp

lemma key_tokens_runs:
  assumes "taken fp k t s" "k < n"
  shows "runs (key_tokens fp n [] t) s (\<lambda>(l, t') s'. frame s s' \<and> (l \<noteq> [] \<longrightarrow> (\<exists>j. k = Suc j \<and> taken fp j t' s')))"
proof (cases "is_value (twc_token t) \<or> is_unquoted_text (twc_token t)")
  case True
  then have r: "ready fp k s" using assms(1) taken_ready by fastforce
  obtain j where j: "k = Suc j" using ready_pos [OF r] by blast
  obtain m where m: "n = Suc m" using assms(2) by (cases n) auto
  have "runs (parse_then (pc_next_token fp m) (key_tokens fp m [twc_token t])) s
      (\<lambda>(l, t') s'. frame s s' \<and> (l \<noteq> [] \<longrightarrow> (\<exists>j. k = Suc j \<and> taken fp j t' s')))"
  proof (rule runs_bind [OF next_token_runs [OF r]], goal_cases)
    case (2 u s')
    then have "taken fp j u s'" "j < m" using j m assms(2) by auto
    then show ?case by (rule runs_weaken [OF key_tokens_more]) (use 2 j in \<open>auto intro: frame_trans\<close>)
  qed (use assms m in simp)
  with True m show ?thesis by simp
next
  case False
  with assms show ?thesis by (cases n) auto
qed

lemma parse_key_runs:
  assumes "taken fp k t s" "k < n"
  shows "runs (parse_key fp n t) s (\<lambda>p s'. frame s s' \<and> ready fp k s' \<and> (pc_flavor s = JSON \<longrightarrow> remainder p = None))"
proof (cases "pc_flavor s = JSON")
  case True
  have o: "origin_named (pc_origin s)" using assms(1) by (rule taken_origin)
  show ?thesis
  proof (cases "is_value (twc_token t)")
    case True
    then obtain v where v: "twc_token t = ValueToken v" by (cases "twc_token t") auto
    then have "ready fp k s" using assms(1) taken_ready by fastforce
    with \<open>pc_flavor s = JSON\<close> o v show ?thesis
      by (auto simp: parse_key_def bind_exc_def new_key_def token_error_runs dest!: value_type_exc split: sum.splits)
  qed (use \<open>pc_flavor s = JSON\<close> o in \<open>simp add: parse_key_def token_error_runs\<close>)
next
  case False
  have "runs (parse_key fp n t) s (\<lambda>p s'. frame s s' \<and> ready fp k s')"
    unfolding parse_key_def runs_then runs_get if_not_P [OF False]
  proof (rule runs_weaken [OF key_tokens_runs [OF assms]], goal_cases)
    case (1 lt s')
    obtain l t' where lt: "lt = (l, t')" by (cases lt)
    have o: "origin_named (pc_origin s')" using 1 taken_origin [OF assms(1)] by (auto simp: lt frame_def)
    show ?case
    proof (cases "l = []")
      case False
      then have "ready fp k (s'\<lparr>pc_buffer := t' # pc_buffer s'\<rparr>)" "frame s (s'\<lparr>pc_buffer := t' # pc_buffer s'\<rparr>)"
        using 1 taken_put_back by (auto simp: lt frame_def)
      moreover obtain lo where "pc_line_origin (s'\<lparr>pc_buffer := t' # pc_buffer s'\<rparr>) = Inr lo"
        using line_origin_ok [of "s'\<lparr>pc_buffer := t' # pc_buffer s'\<rparr>"] o by auto
      ultimately show ?thesis
        using False parse_path_expression_ok [of fp l lo "[]"] by (auto simp: lt pc_put_back_def path_ok_def)
    qed (use o in \<open>simp add: lt token_error_runs\<close>)
  qed
  with False show ?thesis by simp
qed


subsection \<open>Includes\<close>

lemma next_token_ignoring_space_runs:
  assumes "ready fp k s" "Suc k < n"
  shows "runs (next_token_ignoring_space fp n) s (\<lambda>t s'. frame s s' \<and> taken fp (k - 1) t s')"
  using assms
proof (induction n arbitrary: k s)
  case (Suc n)
  show ?case
    unfolding next_token_ignoring_space.simps
  proof (rule runs_bind [OF next_token_ignoring_newline_runs [OF Suc.prems(1)]], goal_cases)
    case (2 t s')
    show ?case
    proof (cases "is_unquoted_whitespace (twc_token t)")
      case True
      then have r: "ready fp (k - 1) s'" using 2 taken_ready by (fastforce simp: is_unquoted_whitespace_def)
      then have "runs (next_token_ignoring_space fp n) s' (\<lambda>t s''. frame s' s'' \<and> taken fp (k - 1 - 1) t s'')"
        using Suc.prems(2) ready_pos [OF r] by (intro Suc.IH) auto
      then have "runs (next_token_ignoring_space fp n) s' (\<lambda>t s''. frame s s'' \<and> taken fp (k - 1) t s'')"
        by (rule runs_weaken) (use 2 in \<open>auto intro: taken_mono frame_trans\<close>)
      with True show ?thesis by simp
    qed (use 2 in simp)
  qed (use Suc.prems in simp)
qed simp

text \<open>The contract of an includer: an object, or an exception for the user.\<close>

definition include_ok :: "tok_exception + config_value \<Rightarrow> bool" where
  "include_ok r \<longleftrightarrow> (\<exists>e. r = Inl e \<and> reported e) \<or> (\<exists>v. r = Inr v \<and> well_formed v \<and> is_object v)"

definition good_includer :: "full_includer \<Rightarrow> bool" where
  "good_includer inc \<longleftrightarrow> (\<forall>name. include_ok (include_any inc name) \<and> include_ok (include_file inc name))"

lemma quoted_name_runs:
  assumes "taken fp k t s"
  shows "runs (quoted_name fp (twc_token t) message) s (\<lambda>name s'. s' = s \<and> ready fp k s)"
proof (cases "is_value (twc_token t)")
  case True
  then obtain v where v: "twc_token t = ValueToken v" by (cases "twc_token t") auto
  then have "ready fp k s" using assms taken_ready by fastforce
  with v taken_origin [OF assms] show ?thesis
    by (auto simp: quoted_name_def bind_exc_def token_error_runs dest!: value_type_exc split: sum.splits)
qed (simp add: quoted_name_def token_error_runs taken_origin [OF assms])

lemma include_lift_runs:
  "include_ok r \<Longrightarrow> ready fp k s \<Longrightarrow> frame s0 s \<Longrightarrow>
   runs (parse_lift r) s (\<lambda>v s'. frame s0 s' \<and> ready fp k s' \<and> well_formed v \<and> is_object v)"
  by (auto simp: include_ok_def)

text \<open>The part of an include after \<^verbatim>\<open>file(\<close>.\<close>

lemma included_file_runs:
  assumes "\<And>name. include_ok (include_file inc name)" "ready fp k s" "Suc k < n"
  shows "runs (parse_then (next_token_ignoring_space fp n) (\<lambda>t1.
      parse_then (quoted_name fp (twc_token t1) message) (\<lambda>name.
      parse_then (next_token_ignoring_space fp n) (\<lambda>t2.
        if (case twc_token t2 of UnquotedTextToken _ s \<Rightarrow> s = '')'' | _ \<Rightarrow> False)
        then parse_lift (include_file inc name)
        else token_error fp (twc_token t2) message')))) s
    (\<lambda>v s'. frame s s' \<and> ready fp k s' \<and> well_formed v \<and> is_object v)" (is "runs _ _ ?Q")
proof (rule runs_bind [OF next_token_ignoring_space_runs [OF assms(2,3)]], goal_cases)
  case (1 t1 s1)
  then have t1: "taken fp (k - 1) t1 s1" and fr: "frame s s1" by auto
  show ?case
  proof (rule runs_bind [OF quoted_name_runs [OF t1]], goal_cases)
    case (1 name s2)
    then have "ready fp (k - 1) s2" "Suc (k - 1) < n" "s2 = s1" using assms(3) by auto
    from this(1,2) show ?case
    proof (rule runs_bind [OF next_token_ignoring_space_runs], goal_cases)
      case (1 t2 s3)
      then have t2: "taken fp (k - 1 - 1) t2 s3" "frame s s3" using fr frame_trans \<open>s2 = s1\<close> by auto
      show ?case
      proof (cases "twc_token t2 = Token END")
        case False
        then have "ready fp k s3" using taken_ready [OF t2(1)] by (auto intro: ready_mono)
        then show ?thesis
          using t2 assms(1) by (auto simp: token_error_runs taken_origin simp del: runs_lift intro!: include_lift_runs)
      qed (use t2 in \<open>simp add: token_error_runs taken_origin\<close>)
    qed
  qed
qed

lemma included_object_runs:
  assumes "good_includer inc" "ready fp k s" "Suc k < n"
  shows "runs (included_object inc fp n) s (\<lambda>v s'. frame s s' \<and> ready fp (k - 1) s' \<and> well_formed v \<and> is_object v)"
  unfolding included_object_def
proof (rule runs_bind [OF next_token_ignoring_space_runs [OF assms(2)]], goal_cases)
  case (2 t s1)
  then have tk: "taken fp (k - 1) t s1" and fr: "frame s s1" by auto
  have inc: "include_ok (include_any inc name)" "include_ok (include_file inc name)" for name
    using assms(1) by (auto simp: good_includer_def)
  show ?case
  proof (cases "is_unquoted_text (twc_token t)")
    case True
    then have "ready fp (k - 1) s1" using tk taken_ready by fastforce
    then have "runs (parse_then (next_token_ignoring_space fp n) (\<lambda>t1.
      parse_then (quoted_name fp (twc_token t1) m) (\<lambda>name.
      parse_then (next_token_ignoring_space fp n) (\<lambda>t2.
        if (case twc_token t2 of UnquotedTextToken _ s \<Rightarrow> s = '')'' | _ \<Rightarrow> False)
        then parse_lift (include_file inc name)
        else token_error fp (twc_token t2) m')))) s1
      (\<lambda>v s'. frame s s' \<and> ready fp (k - 1) s' \<and> well_formed v \<and> is_object v)" for m m'
      by (intro runs_weaken [OF included_file_runs [OF inc(2), of fp "k - 1"]]) (use assms(3) fr frame_trans in auto)
    with True show ?thesis
      by (cases "twc_token t") (simp_all add: token_error_runs taken_origin [OF tk])
  next
    case False
    have "runs (parse_then (quoted_name fp (twc_token t) ''include keyword is not followed by a quoted string, but by: '')
        (\<lambda>name. parse_lift (include_any inc name))) s1 (\<lambda>v s'. frame s s' \<and> ready fp (k - 1) s' \<and> well_formed v \<and> is_object v)"
      by (rule runs_bind [OF quoted_name_runs [OF tk]]) (use fr inc in \<open>auto simp del: runs_lift intro: include_lift_runs\<close>)
    with False show ?thesis by simp
  qed
qed (use assms in auto)


lemma object_entries_ok:
  assumes "well_formed v" "is_object v"
  shows "object_entries v = Inl ConfigExceptionNotResolved \<or> (\<exists>ms. object_entries v = Inr ms \<and> (\<forall>e \<in> set ms. well_formed (snd e)))"
  using assms by (cases v) auto

lemma parse_include_runs:
  assumes "good_includer inc" "ready fp k s" "Suc k < n" "members_ok values"
  shows "runs (parse_include inc fp n values) s (\<lambda>values' s'. frame s s' \<and> ready fp (k - 1) s' \<and> members_ok values')"
  unfolding parse_include_def
proof (rule runs_bind [OF included_object_runs [OF assms(1-3)]], goal_cases)
  case (1 obj s')
  then have obj: "well_formed obj" "is_object obj" by auto
  obtain obj' where obj': "(if pc_path_stack s' = [] then Inr obj
      else bind_exc (path_concat (pc_path_stack s')) (\<lambda>prefix. relativized prefix obj)) = Inr obj'"
      "well_formed obj'" "is_object obj'"
  proof (cases "pc_path_stack s' = []")
    case False
    then obtain p where "path_concat (pc_path_stack s') = Inr p" using path_concat_keys by blast
    moreover have "relative_ok obj (relativized p obj)" using relativized_ok [OF obj(1)] .
    ultimately show ?thesis using that False obj(2) by (auto simp: relative_ok_def same_kind_def)
  qed (use that obj in auto)
  have "case bind_exc (object_entries obj') (\<lambda>ms. merge_included ms values) of
      Inl e \<Rightarrow> reported (TokException e) | Inr values' \<Rightarrow> members_ok values'"
    using object_entries_ok [OF obj'(2,3)] merge_included_ok assms(4) by fastforce
  with 1 obj'(1) show ?case by (auto split: sum.splits)
qed

subsection \<open>Appending\<close>

lemma full_path_loop_ok: "\<exists>p. full_path_loop (Some f) ps = Inr (Some p)"
proof (induction ps arbitrary: f)
  case (Cons p ps)
  obtain q where "prepend f p = Inr (Some q)" using prepend_keys by blast
  with Cons show ?case by simp
qed simp

lemma concatenate_runs:
  assumes "ps \<noteq> []" "\<forall>v \<in> set ps. part_ok v" "\<And>v. part_ok v \<Longrightarrow> Q (Some v) s"
  shows "runs (parse_exc (concatenate fp ps)) s Q"
  using concatenate_part_ok [OF assms(1,2), of fp] assms(3) by (auto simp: cannot_concatenate_def)

lemma append_to_previous_runs:
  assumes "part_ok v" "pc_path_stack s \<noteq> []"
  shows "runs (append_to_previous fp v) s (\<lambda>w s'. s' = s \<and> well_formed w)"
proof -
  obtain p where p: "full_current_path s = Inr (Some p)"
    using full_path_loop_ok assms(2) by (cases "pc_path_stack s") (auto simp: full_current_path_def)
  have o: "origin_named (value_origin v)" using assms(1) well_formed_origin by (auto simp: part_ok_def)
  obtain l where l: "new_list (value_origin v) [v] = Inr l" "part_ok l"
    using new_list_ok [OF o, of "[v]"] assms(1) by (auto simp: part_ok_def)
  have "runs (parse_exc (concatenate fp [ConfigReference (value_origin v) \<lparr>expr_path = p, expr_optional = True\<rparr> 0, l])) s
      (\<lambda>v s'. runs (case v of None \<Rightarrow> parse_exc (Inl NullPointer) | Some v \<Rightarrow> parse_return v) s' (\<lambda>w s'. s' = s \<and> well_formed w))"
    using o l(2) by (intro concatenate_runs) (auto simp: part_ok_def)
  with p l(1) show ?thesis by (simp add: append_to_previous_def del: runs_exc) (simp add: l(1))
qed

end
