(* ===== verification/Token_Origins.thy ===== *)
theory Token_Origins
  imports Tokenizer
begin

section \<open>Where tokens come from\<close>

text \<open>
  Every token and every lexical problem carries the description of the origin the tokenizer
  was started with, and a value token holds a scalar.  The parser's proofs rest on this.
\<close>

fun scalar :: "config_value \<Rightarrow> bool" where
  "scalar (SimpleConfigList _ _ _) = False"
| "scalar (SimpleConfigObject _ _ _ _) = False"
| "scalar (ConfigReference _ _ _) = False"
| "scalar (ConfigConcatenation _ _) = False"
| "scalar (ConfigDelayedMerge _ _) = False"
| "scalar (ConfigDelayedMergeObject _ _) = False"
| "scalar _ = True"

fun named_token :: "string \<Rightarrow> token \<Rightarrow> bool" where
  "named_token d (Token _) = True"
| "named_token d (ValueToken v) = (desc (value_origin v) = d \<and> scalar v)"
| "named_token d (LineToken orig) = (desc orig = d)"
| "named_token d (UnquotedTextToken orig _) = (desc orig = d)"
| "named_token d (ProblemToken orig _ _ _) = (desc orig = d)"
| "named_token d (CommentToken orig _) = (desc orig = d)"
| "named_token d (SubstitutionToken orig _ _) = (desc orig = d)"

definition stream_named :: "string \<Rightarrow> token_stream \<Rightarrow> bool" where
  "stream_named d ts \<longleftrightarrow> desc (line_origin ts) = d \<and> desc (ts_origin ts) = d"

declare stream_named_def [simp]

definition named :: "string \<Rightarrow> ('a \<Rightarrow> bool) \<Rightarrow> 'a pull \<Rightarrow> bool" where
  "named d P m \<longleftrightarrow> stream_named d (snd m) \<and>
     (case fst m of Inl (TokenizerProblem p) \<Rightarrow> named_token d p | Inl _ \<Rightarrow> True | Inr x \<Rightarrow> P x)"

abbreviation any_result :: "'a \<Rightarrow> bool" where "any_result \<equiv> \<lambda>_. True"

lemma named_simps [simp]:
  "named d P (Inr x, ts) \<longleftrightarrow> stream_named d ts \<and> P x"
  "named d P (Inl (TokException e), ts) \<longleftrightarrow> stream_named d ts"
  "named d P (Inl OutOfFuel, ts) \<longleftrightarrow> stream_named d ts"
  "named d P (Inl (problem ts' w m q), ts) \<longleftrightarrow> stream_named d ts \<and> desc (line_origin ts') = d"
  "named d P (Inl (problem_at orig w m q), ts) \<longleftrightarrow> stream_named d ts \<and> desc orig = d"
  by (auto simp: named_def problem_def problem_at_def)

lemma named_then:
  "named d P m \<Longrightarrow> (\<And>x ts. P x \<Longrightarrow> stream_named d ts \<Longrightarrow> named d Q (f x ts)) \<Longrightarrow> named d Q (then_pull m f)"
  by (cases m; cases "fst m") (auto simp: named_def then_pull_def split: tok_exception.splits)

lemma next_char_named:
  "next_char_raw ts = (c, ts') \<Longrightarrow> desc (line_origin ts') = desc (line_origin ts) \<and> desc (ts_origin ts') = desc (ts_origin ts)"
  using next_char_raw_frame by (fastforce simp: same_frame_def)

lemma put_back_named: "stream_named d ts \<Longrightarrow> named d any_result (put_back c ts)"
  by (simp add: put_back_def)

lemma put_back_then_named:
  "stream_named d ts \<Longrightarrow> (\<And>ts'. stream_named d ts' \<Longrightarrow> named d Q (f ts')) \<Longrightarrow>
   named d Q (then_pull (put_back c ts) (\<lambda>_. f))"
  by (rule named_then [OF put_back_named])

lemma start_of_comment_named: "stream_named d ts \<Longrightarrow> named d any_result (start_of_comment c ts)"
  by (cases "next_char_raw ts") (auto simp: start_of_comment_def next_char_named intro: put_back_then_named)

lemma comment_loop_named: "stream_named d ts \<Longrightarrow> named d (named_token d) (comment_loop s ts)"
proof (induction s ts rule: comment_loop.induct)
  case (1 s ts)
  obtain c ts' where c: "next_char_raw ts = (c, ts')" by fastforce
  with 1 next_char_named [OF c] show ?case
    by (subst comment_loop.simps) (auto intro: put_back_then_named)
qed

lemma pull_comment_named: "stream_named d ts \<Longrightarrow> named d (named_token d) (pull_comment c ts)"
  by (cases "next_char_raw ts") (auto simp: pull_comment_def next_char_named intro: comment_loop_named)

lemma end_unquoted_named:
  "stream_named d ts \<Longrightarrow> desc orig = d \<Longrightarrow> named d (named_token d) (end_unquoted orig sb c ts)"
  by (auto simp: end_unquoted_def intro: put_back_then_named)

lemma unquoted_loop_named:
  "stream_named d ts \<Longrightarrow> desc orig = d \<Longrightarrow> named d (named_token d) (unquoted_loop orig sb c ts)"
proof (induction orig sb c ts rule: unquoted_loop.induct)
  case (1 orig sb c ts)
  obtain r ts1 where r: "start_of_comment c ts = (r, ts1)" by fastforce
  obtain c' ts2 where c': "next_char_raw ts1 = (c', ts2)" by fastforce
  have "named d any_result (r, ts1)" using start_of_comment_named [OF 1(2), of c] by (simp add: r)
  then have "stream_named d ts1" "\<And>e. r = Inl e \<Longrightarrow> named d (named_token d) (Inl e :: tok_exception + token, ts1)"
    by (auto simp: named_def)
  with 1 r c' next_char_named [OF c'] show ?case
    by (subst unquoted_loop.simps)
       (auto simp: end_unquoted_named new_boolean_def new_null_def Let_def split: sum.splits)
qed

lemma number_loop_named:
  "number_loop s q c ts = (r, ts') \<Longrightarrow> desc (line_origin ts') = desc (line_origin ts) \<and> desc (ts_origin ts') = desc (ts_origin ts)"
proof (induction s q c ts rule: number_loop.induct)
  case (1 s q c ts)
  obtain c' ts1 where c': "next_char_raw ts = (c', ts1)" by fastforce
  with 1 next_char_named [OF c'] show ?case
    by (subst (asm) (2) number_loop.simps) (auto split: if_splits)
qed

lemma pull_number_named: "stream_named d ts \<Longrightarrow> named d (named_token d) (pull_number fp c ts)"
proof -
  assume d: "stream_named d ts"
  obtain c1 ts1 where c1: "next_char_raw ts = (c1, ts1)" by fastforce
  obtain s q c2 ts2 where n: "number_loop [int_to_char c] False c1 ts1 = ((s, q, c2), ts2)" by (metis prod.exhaust)
  have "stream_named d ts2" using d next_char_named [OF c1] number_loop_named [OF n] by simp
  then show ?thesis
    by (auto simp: pull_number_def Let_def c1 n new_double_def new_number_double_def new_int64_def new_number_int64_def
        split: option.splits intro!: put_back_then_named)
qed

subsection \<open>Strings and the rest\<close>

lemma pull_hex_digits_named: "stream_named d ts \<Longrightarrow> named d any_result (pull_hex_digits n s ts)"
proof (induction n s ts rule: pull_hex_digits.induct)
  case (2 n s ts)
  obtain c ts' where c: "next_char_raw ts = (c, ts')" by fastforce
  with 2 next_char_named [OF c] show ?case by (auto simp: Let_def)
qed simp

lemma pull_escape_sequence_named: "stream_named d ts \<Longrightarrow> named d any_result (pull_escape_sequence s ts)"
  by (cases "next_char_raw ts")
     (auto simp: pull_escape_sequence_def next_char_named split: option.splits
       intro!: named_then [OF pull_hex_digits_named])

lemma triple_loop_named: "stream_named d ts \<Longrightarrow> named d any_result (triple_loop q s ts)"
proof (induction q s ts rule: triple_loop.induct)
  case (1 q s ts)
  obtain c ts' where c: "next_char_raw ts = (c, ts')" by fastforce
  have d: "stream_named d ts'" using 1(3) next_char_named [OF c] by simp
  show ?case
    using 1(1,2) [OF c [symmetric] refl] d put_back_then_named [of d ts' any_result "\<lambda>ts. (Inr (take (length s - 3) s), ts)" c]
    by (subst triple_loop.simps) (simp add: c)
qed

lemma quoted_loop_named: "stream_named d ts \<Longrightarrow> named d any_result (quoted_loop s ts)"
proof (induction s ts rule: quoted_loop.induct)
  case (1 s ts)
  obtain c ts' where c: "next_char_raw ts = (c, ts')" by fastforce
  obtain r ts'' where r: "pull_escape_sequence s ts' = (r, ts'')" by fastforce
  have d: "stream_named d ts'" using 1(3) next_char_named [OF c] by simp
  have "named d any_result (r, ts'')" using pull_escape_sequence_named [OF d, of s] by (simp add: r)
  then have "stream_named d ts''" "\<And>e. r = Inl e \<Longrightarrow> named d any_result (Inl e :: tok_exception + string, ts'')"
    by (auto simp: named_def)
  with 1 c r d show ?case
    by (subst quoted_loop.simps) (auto split: sum.splits)
qed

lemma pull_quoted_string_named: "stream_named d ts \<Longrightarrow> named d (named_token d) (pull_quoted_string ts)"
  unfolding pull_quoted_string_def
proof (rule named_then [OF quoted_loop_named], assumption)
  fix s :: string and ts1 :: token_stream assume d: "stream_named d ts1"
  obtain c ts2 where c: "next_char_raw ts1 = (c, ts2)" by fastforce
  have d2: "stream_named d ts2" using d next_char_named [OF c] by simp
  have "named d any_result (if s = []
             then let (third, ts2) = next_char_raw ts1
                  in if third = ord_of CHR 0x22 then append_triple_quoted_string s ts2
                     else then_pull (put_back third ts2) (\<lambda>_ ts3. (Inr s, ts3))
             else (Inr s, ts1))"
    using d d2 by (auto simp: c append_triple_quoted_string_def triple_loop_named intro: put_back_then_named)
  then show "named d (named_token d) (then_pull (if s = []
             then let (third, ts2) = next_char_raw ts1
                  in if third = ord_of CHR 0x22 then append_triple_quoted_string s ts2
                     else then_pull (put_back third ts2) (\<lambda>_ ts3. (Inr s, ts3))
             else (Inr s, ts1)) (\<lambda>s' ts4. (Inr (new_string (line_origin ts4) s'), ts4)))"
    by (rule named_then) (simp add: new_string_def)
qed

lemma pull_plus_equals_named: "stream_named d ts \<Longrightarrow> named d (named_token d) (pull_plus_equals ts)"
  by (cases "next_char_raw ts") (auto simp: pull_plus_equals_def next_char_named)

lemma substitution_head_named: "stream_named d ts \<Longrightarrow> named d any_result (substitution_head ts)"
proof -
  assume d: "stream_named d ts"
  obtain c ts1 where c: "next_char_raw ts = (c, ts1)" by fastforce
  obtain e ts2 where e: "next_char_raw ts1 = (e, ts2)" by fastforce
  show ?thesis
    using d next_char_named [OF c] next_char_named [OF e]
    by (auto simp: substitution_head_def c e intro: put_back_then_named)
qed

lemma end_of_line_named:
  "stream_named d ts \<Longrightarrow> named d (named_token d) (end_of_line ts)"
  by (auto simp: end_of_line_def set_line_number_def make_origin_def Let_def)

lemma pull_other_named: "stream_named d ts \<Longrightarrow> named d (named_token d) (pull_other fp c ts)"
proof -
  assume d: "stream_named d ts"
  have "named d (named_token d) (pull_unquoted_text ts')" if "stream_named d ts'" for ts'
    using that by (cases "next_char_raw ts'") (auto simp: pull_unquoted_text_def next_char_named unquoted_loop_named)
  then show ?thesis
    using d by (auto simp: pull_other_def pull_number_named intro!: put_back_then_named)
qed

lemma punctuation_named: "punctuation c = Some t \<Longrightarrow> named_token d t"
  by (auto simp: punctuation_def split: if_splits)


subsection \<open>The stream\<close>

lemma next_char_after_whitespace_named:
  "next_char_after_whitespace saver ts = (c, saver', ts') \<Longrightarrow> stream_named d ts \<Longrightarrow> stream_named d ts'"
proof (induction saver ts rule: next_char_after_whitespace.induct)
  case (1 saver ts)
  obtain e ts1 where e: "next_char_raw ts = (e, ts1)" by fastforce
  show ?case
    using 1(1) [OF e [symmetric] refl] 1(2,3) next_char_named [OF e]
    by (subst (asm) (2) next_char_after_whitespace.simps) (auto simp: e split: if_splits)
qed

lemma saver_check_named:
  "saver_check t orig n saver = (Inr (Some w), saver') \<Longrightarrow> named_token (desc orig) w"
  by (auto simp: saver_check_def next_is_a_simple_value_def set_line_number_def make_origin_def
      split: if_splits sum.splits)

lemma pull_next_token_named_step:
  assumes ts: "stream_named d ts"
    and loop: "\<And>orig opt ts'. stream_named d ts' \<Longrightarrow> desc orig = d \<Longrightarrow>
                 named d (named_token d) (substitution_loop fp n orig opt [] new_saver ts')"
  shows "named d (named_token d) (snd (pull_next_token fp (Suc n) saver ts))"
proof -
  obtain c saver' ts1 where c: "next_char_after_whitespace saver ts = (c, saver', ts1)" by (metis prod_cases3)
  have ts1: "stream_named d ts1" using next_char_after_whitespace_named [OF c ts] .
  have "named d (named_token d) (then_pull (start_of_comment c ts1) (\<lambda>comment ts2.
      if comment then pull_comment c ts2
      else if c = ord_of CHR 0x22 then pull_quoted_string ts2
      else if c = ord_of CHR ''$''
      then then_pull (substitution_head ts2) (\<lambda>opt ts3. substitution_loop fp n (line_origin ts2) opt [] new_saver ts3)
      else case punctuation c of Some t \<Rightarrow> (Inr t, ts2)
           | None \<Rightarrow> if c = ord_of CHR ''+'' then pull_plus_equals ts2 else pull_other fp c ts2))"
  proof (rule named_then [OF start_of_comment_named [OF ts1]])
    fix comment and ts2 :: token_stream assume ts2: "stream_named d ts2"
    have "named d (named_token d) (then_pull (substitution_head ts2)
        (\<lambda>opt ts3. substitution_loop fp n (line_origin ts2) opt [] new_saver ts3))"
      by (rule named_then [OF substitution_head_named [OF ts2]], rule loop) (use ts2 in simp_all)
    then show "named d (named_token d) (if comment then pull_comment c ts2
      else if c = ord_of CHR 0x22 then pull_quoted_string ts2
      else if c = ord_of CHR ''$''
      then then_pull (substitution_head ts2) (\<lambda>opt ts3. substitution_loop fp n (line_origin ts2) opt [] new_saver ts3)
      else case punctuation c of Some t \<Rightarrow> (Inr t, ts2)
           | None \<Rightarrow> if c = ord_of CHR ''+'' then pull_plus_equals ts2 else pull_other fp c ts2)"
      using pull_comment_named [OF ts2] pull_quoted_string_named [OF ts2] pull_plus_equals_named [OF ts2]
        pull_other_named [OF ts2] punctuation_named ts2 by (simp split: option.split)
  qed
  then show ?thesis
    using ts1 end_of_line_named [OF ts1] by (simp add: pull_next_token.simps(2) c)
qed

lemma substitution_loop_named_step:
  assumes "stream_named d ts" "desc orig = d"
    and pull: "named d (named_token d) (snd (pull_next_token fp n saver ts))"
    and loop: "\<And>ex saver ts'. stream_named d ts' \<Longrightarrow>
                 named d (named_token d) (substitution_loop fp n orig opt ex saver ts')"
  shows "named d (named_token d) (substitution_loop fp (Suc n) orig opt ex saver ts)"
proof -
  obtain saver' m where m: "pull_next_token fp n saver ts = (saver', m)" by (rule prod.exhaust)
  show ?thesis
    unfolding substitution_loop.simps(2) m Let_def case_prod_conv
    by (rule named_then [OF pull [unfolded m snd_conv]])
       (use assms(2) loop in \<open>auto split: sum.splits prod.splits option.splits\<close>)
qed

lemma pull_named:
  "(stream_named d ts \<longrightarrow> named d (named_token d) (snd (pull_next_token fp n saver ts))) \<and>
   (stream_named d ts \<and> desc orig = d \<longrightarrow> named d (named_token d) (substitution_loop fp n orig opt ex saver ts))"
proof (induction n arbitrary: ts saver orig opt ex)
  case (Suc n)
  show ?case
    by (intro conjI impI pull_next_token_named_step substitution_loop_named_step) (use Suc in auto)
qed simp

text \<open>The invariant of the iterator, and that \<^verbatim>\<open>next\<close> keeps it.\<close>

definition tokens_named :: "string \<Rightarrow> token_stream \<Rightarrow> bool" where
  "tokens_named d ts \<longleftrightarrow> stream_named d ts \<and> (\<forall>t \<in> set (tokens ts). named_token d t)"

lemma queue_next_token_named:
  assumes "stream_inv (ts\<lparr>tokens := u\<rparr>)" "tokens_named d ts" "tokens ts = []"
  shows "\<exists>r ts'. queue_next_token fp ts = (r, ts') \<and> tokens_named d ts' \<and> (\<forall>p. r = Inl (TokenizerProblem p) \<longrightarrow> named_token d p)"
proof -
  obtain saver r ts1 where m: "pull_next_token fp (token_fuel ts) (whitespace_saver ts) ts = (saver, r, ts1)"
    by (rule prod_cases3)
  have "named d (named_token d) (r, ts1)"
    using pull_named [of d ts fp "token_fuel ts" "whitespace_saver ts"] assms(2) m by (simp add: tokens_named_def)
  moreover have "token_pulled ts (r, ts1)"
    using pull_enough_fuel [of ts "token_fuel ts" fp "whitespace_saver ts"] assms(1) m
    by (simp add: token_fuel_def stream_inv_def stream_ok_def)
  then have "tokens ts1 = []" using assms(3) by (simp add: token_pulled_def pulled_def same_frame_def)
  ultimately show ?thesis
    using saver_check_named [of _ "ts_origin ts1" "line_number ts1" saver]
    by (cases r) (auto simp: queue_next_token_def m tokens_named_def named_def split: prod.splits sum.splits option.splits)
qed

lemma next_token_named:
  assumes "stream_inv ts" "tokens_named d ts" "next_token fp ts = (Inr t, ts')"
  shows "named_token d t \<and> tokens_named d ts'"
proof (cases "tokens ts")
  case (Cons u rest)
  obtain r ts2 where q: "queue_next_token fp (ts\<lparr>tokens := []\<rparr>) = (r, ts2)" "tokens_named d ts2"
    "\<forall>p. r = Inl (TokenizerProblem p) \<longrightarrow> named_token d p"
    using queue_next_token_named [where ts = "ts\<lparr>tokens := []\<rparr>" and u = "tokens ts" and d = d and fp = fp] assms(1,2) by (auto simp: tokens_named_def)
  with Cons assms(2,3) show ?thesis
    by (auto simp: next_token_def tokens_named_def Let_def split: if_splits sum.splits tok_exception.splits)
qed (use assms(3) in \<open>simp add: next_token_def\<close>)

end
