(* ===== verification/Parser_Outcome.thy ===== *)
theory Parser_Outcome
  imports Parser_Values Token_Origins
begin

section \<open>Parsing ends in a well-formed value or a reported exception\<close>

text \<open>
  The methods of the parser that need \<^verbatim>\<open>parse_value\<close> rely on its contract, the locale
  \<open>value_parsing\<close>; \<^verbatim>\<open>parse_value\<close> itself meets the contract by induction on the depth.
\<close>

lemma token_to_substitution_expression_ok:
  "is_substitution t \<Longrightarrow> case token_to_substitution_expression fp t of Inl e \<Rightarrow> reported e | Inr _ \<Rightarrow> True"
proof (cases t)
  case (SubstitutionToken orig q l)
  with parse_path_expression_ok [of fp l orig "[]"] show ?thesis
    by (auto simp: token_to_substitution_expression_def get_substitution_path_expression_def
        get_substitution_optional_def lift_exc_def path_ok_def)
qed simp_all

lemma direct_value_ok:
  assumes "good_token t"
  shows "case direct_value fp t of Inl e \<Rightarrow> reported e | Inr None \<Rightarrow> True | Inr (Some v) \<Rightarrow> part_ok v \<and> t \<noteq> Token END"
  using assms token_to_substitution_expression_ok [of t fp]
  by (cases t) (auto simp: direct_value_def lift_exc_def part_ok_def bind_exc_def split: sum.splits)

text \<open>Either no value was read, or at least one token is gone.\<close>

definition joined ::
  "fp_text \<Rightarrow> nat \<Rightarrow> config_value list \<Rightarrow> token_with_comments option \<Rightarrow> parse_context \<Rightarrow>
   config_value list \<times> token_with_comments option \<times> token_with_comments \<Rightarrow> parse_context \<Rightarrow> bool" where
  "joined fp j vs start s r s' \<longleftrightarrow> (case r of (ws, f, t) \<Rightarrow> frame s s' \<and> taken fp j t s' \<and> (\<forall>v \<in> set ws. part_ok v) \<and>
     (\<forall>x. f = Some x \<longrightarrow> good_twc x) \<and> (f = start \<and> ws = vs \<or> f \<noteq> None \<and> ws \<noteq> [] \<and> j > 0 \<and> taken fp (j - 1) t s'))"

lemma runs_put_back [simp]: "runs (pc_put_back t) s Q \<longleftrightarrow> Q () (s\<lparr>pc_buffer := t # pc_buffer s\<rparr>)"
  by (simp add: pc_put_back_def)

lemma ready_put_back:
  "ready fp n s \<Longrightarrow> good_twc t \<Longrightarrow> twc_token t \<noteq> Token END \<Longrightarrow> ready fp (Suc n) (s\<lparr>pc_buffer := t # pc_buffer s\<rparr>)"
  by (rule taken_put_back) (auto simp: ready_def taken_def ends_Cons)

lemma taken_good: "taken fp k t s \<Longrightarrow> good_twc t"
  by (simp add: taken_def)

lemma taken_prepend:
  "taken fp k u s \<Longrightarrow> good_twc t \<Longrightarrow> taken fp k (prepend_comments (twc_comments t) u) s"
  by (auto simp: taken_def good_twc_def prepend_comments_def)

lemma pop_path_runs: "pc_path_stack s = p # ps \<Longrightarrow> runs pop_path s Q \<longleftrightarrow> Q p (s\<lparr>pc_path_stack := ps\<rparr>)"
  by (simp add: runs_def pop_path_def)

locale value_parsing =
  fixes inc :: full_includer and fp :: fp_text and pv :: value_parser and depth :: nat and rounds :: nat
  assumes pv_runs:
    "good_includer inc \<Longrightarrow> taken fp k t s \<Longrightarrow> k < depth \<Longrightarrow> k + 2 < rounds \<Longrightarrow> runs (pv t) s (\<lambda>v s'. frame s s' \<and> part_ok v \<and> ready fp k s')"
begin

lemma consolidate_loop_runs:
  assumes "taken fp j t s" "j < n" "j < depth" "j + 2 < rounds" "\<forall>v \<in> set vs. part_ok v" "\<forall>x. start = Some x \<longrightarrow> good_twc x"
    and inc: "good_includer inc"
  shows "runs (consolidate_loop fp pv n vs start t) s (joined fp j vs start s)"
  using assms(1-6)
proof (induction n arbitrary: j t s vs start)
  case (Suc n)
  let ?start = "case start of None \<Rightarrow> Some t | Some f \<Rightarrow> Some f"
  have good: "good_token (twc_token t)" "good_twc t" using Suc.prems(1) by (auto simp: taken_def good_twc_def)
  have more: "runs (parse_then (pc_next_token fp n) (consolidate_loop fp pv n (vs @ [v]) ?start)) s' (joined fp j vs start s)"
    if r: "ready fp j s'" and fr: "frame s s'" and v: "part_ok v" for v s'
  proof (rule runs_bind [OF next_token_runs [OF r]], goal_cases)
    case (2 u s'')
    obtain i where i: "j = Suc i" using ready_pos [OF r] by blast
    have "runs (consolidate_loop fp pv n (vs @ [v]) ?start u) s'' (joined fp i (vs @ [v]) ?start s'')"
      using 2 i Suc.prems v good by (intro Suc.IH) (auto split: option.splits)
    then show ?case
      by (rule runs_weaken)
         (use 2 fr i in \<open>auto simp: joined_def split: option.splits intro: taken_mono frame_trans\<close>)
  qed (use Suc.prems in simp)
  show ?case
  proof (cases "direct_value fp (twc_token t)")
    case (Inl e)
    with direct_value_ok [OF good(1), of fp] show ?thesis by simp
  next
    case (Inr d)
    show ?thesis
    proof (cases d)
      case (Some v)
      then have "part_ok v" "ready fp j s"
        using Inr direct_value_ok [OF good(1), of fp] taken_ready [OF Suc.prems(1)] by auto
      with more [of s v] Some Inr show ?thesis by simp
    next
      case None
      show ?thesis
      proof (cases "twc_token t = Token OPEN_CURLY \<or> twc_token t = Token OPEN_SQUARE")
        case True
        have "runs (parse_then (pv t) (\<lambda>v. parse_then (pc_next_token fp n) (consolidate_loop fp pv n (vs @ [v]) ?start))) s
            (joined fp j vs start s)"
          by (rule runs_bind [OF pv_runs [OF inc Suc.prems(1,3,4)]]) (auto intro: more simp del: runs_then)
        with True None Inr show ?thesis by simp
      next
        case False
        with None Inr Suc.prems show ?thesis by (auto simp: joined_def)
      qed
    qed
  qed
qed simp

lemma consolidate_value_tokens_runs:
  assumes "ready fp k s" "k < n" "k \<le> depth" "k + 1 < rounds" and inc: "good_includer inc"
  shows "runs (consolidate_value_tokens fp pv n) s (\<lambda>_ s'. frame s s' \<and> ready fp k s')"
proof (cases "pc_flavor s = JSON")
  case True
  with assms(1) show ?thesis by (simp add: consolidate_value_tokens_def)
next
  case False
  obtain j where j: "k = Suc j" using ready_pos [OF assms(1)] by blast
  have "runs (parse_then (next_token_ignoring_newline fp n) (\<lambda>t.
            parse_then (consolidate_loop fp pv n [] None t) (\<lambda>(values, first_value, t').
            parse_then (pc_put_back t') (\<lambda>_.
              case first_value of
                None \<Rightarrow> parse_return ()
              | Some f \<Rightarrow>
                  parse_then (parse_exc (concatenate fp values)) (\<lambda>consolidated.
                    case consolidated of
                      None \<Rightarrow> parse_exc (Inl NullPointer)
                    | Some v \<Rightarrow> pc_put_back \<lparr>twc_token = ValueToken v, twc_comments = twc_comments f\<rparr>))))) s
      (\<lambda>_ s'. frame s s' \<and> ready fp k s')"
  proof (rule runs_bind [OF next_token_ignoring_newline_runs [OF assms(1,2)]], goal_cases)
    case (1 t s1)
    then have "runs (consolidate_loop fp pv n [] None t) s1 (joined fp j [] None s1)"
      using assms j by (intro consolidate_loop_runs) auto
    then show ?case
    proof (rule runs_bind, goal_cases)
      case (1 r s2)
      obtain ws f u where r: "r = (ws, f, u)" by (cases r)
      let ?s = "s2\<lparr>pc_buffer := u # pc_buffer s2\<rparr>"
      have jn: "taken fp j u s2" "\<forall>v \<in> set ws. part_ok v" "\<forall>x. f = Some x \<longrightarrow> good_twc x" and fr: "frame s ?s"
        using 1 \<open>frame s s1 \<and> taken fp (k - 1) t s1\<close> by (auto simp: r joined_def frame_def)
      show ?case
      proof (cases f)
        case None
        with taken_put_back [OF jn(1)] fr j show ?thesis by (simp add: r)
      next
        case (Some x)
        then have ws: "ws \<noteq> []" "0 < j" "taken fp (j - 1) u s2" and x: "good_twc x" using 1 by (auto simp: r joined_def)
        have "ready fp j ?s" using taken_put_back [OF ws(3)] ws(2) by simp
        then have "ready fp k (?s\<lparr>pc_buffer := \<lparr>twc_token = ValueToken v, twc_comments = twc_comments x\<rparr> # pc_buffer ?s\<rparr>)"
          if "part_ok v" for v using x that unfolding j by (intro ready_put_back) (auto simp: good_twc_def)
        then have "runs (parse_exc (concatenate fp ws)) ?s (\<lambda>c s'. runs (case c of None \<Rightarrow> parse_exc (Inl NullPointer)
            | Some v \<Rightarrow> pc_put_back \<lparr>twc_token = ValueToken v, twc_comments = twc_comments x\<rparr>) s'
              (\<lambda>_ s'. frame s s' \<and> ready fp k s'))"
          using ws(1) jn(2) fr by (intro concatenate_runs) (auto simp: frame_def)
        with Some show ?thesis by (simp add: r del: runs_exc)
      qed
    qed
  qed
  with False show ?thesis by (simp add: consolidate_value_tokens_def)
qed

text \<open>An element and what the caller does with its value.\<close>

lemma element_runs:
  assumes "ready fp k s" "k < n" "k \<le> depth" "k + 1 < rounds" and inc: "good_includer inc"
    and step: "\<And>t s'. frame s s' \<Longrightarrow> taken fp (k - 1) t s' \<Longrightarrow> runs (f t) s' Q"
  shows "runs (parse_then (consolidate_value_tokens fp pv n) (\<lambda>_. parse_then (next_token_ignoring_newline fp n) f)) s Q"
proof (rule runs_bind [OF consolidate_value_tokens_runs [OF assms(1-4) inc]], goal_cases)
  case (1 u s1)
  then show ?case
    by (intro runs_bind [OF next_token_ignoring_newline_runs [of fp k]]) (use assms(2) step frame_trans in blast)+
qed

lemma array_loop_runs:
  assumes "ready fp k s" "k + 2 < n" "k \<le> depth" "k + 2 < rounds" "origin_named orig" "\<forall>v \<in> set vs. well_formed v" and inc: "good_includer inc"
  shows "runs (array_loop fp pv n orig vs) s (\<lambda>v s'. frame s s' \<and> part_ok v \<and> ready fp k s')"
  using assms(1-4,6)
proof (induction n arbitrary: k s vs)
  case (Suc n)
  obtain j where j: "k = Suc j" using ready_pos [OF Suc.prems(1)] by blast
  have again: "runs (array_loop fp pv n orig ws) s' (\<lambda>v s'. frame s s' \<and> part_ok v \<and> ready fp k s')"
    if "ready fp j s'" "frame s s'" "\<forall>v \<in> set ws. well_formed v" for ws s'
    by (rule runs_weaken [OF Suc.IH [of j s' ws]])
       (use that Suc.prems j in \<open>auto intro: ready_mono frame_trans\<close>)
  have closed: "runs (parse_exc (new_list orig vs)) s' (\<lambda>v s'. frame s s' \<and> part_ok v \<and> ready fp k s')"
    if "ready fp k s'" "frame s s'" for s'
    using new_list_ok [OF assms(5) Suc.prems(5)] that by auto
  have fuel: "Suc j < n" using j Suc.prems(2) by simp
  show ?case
    unfolding array_loop.simps
  proof (rule runs_bind [OF check_element_separator_runs [OF Suc.prems(1) [unfolded j] fuel]], goal_cases)
    case (1 sep s1)
    then have s1: "frame s s1" "ready fp (if sep then j else Suc j) s1" by (auto simp: separated_def)
    show ?case
    proof (cases sep)
      case False
      have "runs (parse_then (next_token_ignoring_newline fp n) (\<lambda>t.
          if twc_token t = Token CLOSE_SQUARE then parse_exc (new_list orig vs)
          else list_error fp (twc_token t) m w)) s1 (\<lambda>v s'. frame s s' \<and> part_ok v \<and> ready fp k s')" for m w
      proof (rule runs_bind [OF next_token_ignoring_newline_runs [of fp k]], goal_cases)
        case (3 t s2)
        then show ?case
          using taken_ready [of fp "k - 1" t s2] s1(1)
          by (auto simp del: runs_exc intro!: closed list_error_runs intro: frame_trans ready_mono dest: taken_origin)
      qed (use s1 False j fuel in auto)
      with False show ?thesis by simp
    next
      case True
      have "runs (parse_then (consolidate_value_tokens fp pv n) (\<lambda>_. parse_then (next_token_ignoring_newline fp n) (\<lambda>t.
          parse_then (parse_get pc_flavor) (\<lambda>flavor.
              if opens_value (twc_token t)
              then parse_then (pv t) (\<lambda>v. array_loop fp pv n orig (vs @ [v]))
              else if flavor \<noteq> JSON \<and> twc_token t = Token CLOSE_SQUARE
              then parse_then (pc_put_back t) (\<lambda>_. array_loop fp pv n orig vs)
              else list_error fp (twc_token t) m w)))) s1 (\<lambda>v s'. frame s s' \<and> part_ok v \<and> ready fp k s')" for m w
      proof (rule element_runs [of j], goal_cases)
        case (6 t s2)
        obtain i where i: "j = Suc i" using ready_pos [of fp j s1] s1(2) True by auto
        have fr: "frame s s2" and t: "taken fp i t s2" using 6 s1(1) i frame_trans by auto
        have "runs (parse_then (pv t) (\<lambda>v. array_loop fp pv n orig (vs @ [v]))) s2 (\<lambda>v s'. frame s s' \<and> part_ok v \<and> ready fp k s')"
        proof (rule runs_bind [OF pv_runs [OF inc t]], goal_cases)
          case (3 v s3)
          then show ?case
            using fr i Suc.prems(5) by (intro again) (auto intro: ready_mono frame_trans simp: part_ok_def)
        qed (use Suc.prems i j in auto)
        moreover have "runs (array_loop fp pv n orig vs) (s2\<lparr>pc_buffer := t # pc_buffer s2\<rparr>) (\<lambda>v s'. frame s s' \<and> part_ok v \<and> ready fp k s')"
          using taken_put_back [OF t] fr i Suc.prems(5) by (intro again) (auto simp: frame_def)
        ultimately show ?case using taken_origin [OF t] by (simp add: list_error_runs)
      qed (use s1 True j fuel Suc.prems inc in auto)
      with True show ?thesis by simp
    qed
  qed
qed simp

lemma parse_array_runs:
  assumes "ready fp k s" "k + 2 < rounds" "k \<le> depth" and inc: "good_includer inc"
  shows "runs (parse_array fp pv rounds) s (\<lambda>v s'. frame s s' \<and> part_ok v \<and> ready fp k s')"
proof -
  obtain orig where orig: "pc_line_origin s = Inr orig" "origin_named orig"
    using line_origin_ok ready_origin [OF assms(1)] by blast
  have "runs (parse_then (consolidate_value_tokens fp pv rounds) (\<lambda>_. parse_then (next_token_ignoring_newline fp rounds) (\<lambda>t.
       if twc_token t = Token CLOSE_SQUARE then parse_exc (new_list orig [])
       else if opens_value (twc_token t) then parse_then (pv t) (\<lambda>v. array_loop fp pv rounds orig [v])
       else list_error fp (twc_token t) m w))) s (\<lambda>v s'. frame s s' \<and> part_ok v \<and> ready fp k s')" for m w
  proof (rule element_runs [OF assms(1)], goal_cases)
    case (5 t s1)
    have close: "twc_token t = Token CLOSE_SQUARE \<Longrightarrow> ready fp k s1"
      using taken_ready [OF 5(2)] by (auto intro: ready_mono)
    have "runs (parse_then (pv t) (\<lambda>v. array_loop fp pv rounds orig [v])) s1 (\<lambda>v s'. frame s s' \<and> part_ok v \<and> ready fp k s')"
    proof (rule runs_bind [OF pv_runs [OF inc 5(2)]], goal_cases)
      case (3 v s2)
      then have "ready fp k s2" "well_formed v" "frame s s2"
        using 5(1) by (auto intro: ready_mono frame_trans simp: part_ok_def)
      then show ?case
        by (intro runs_weaken [OF array_loop_runs [of k]]) (use assms orig(2) in \<open>auto intro: frame_trans\<close>)
    qed (use assms ready_pos [OF assms(1)] in auto)
    with close new_list_ok [OF orig(2), of "[]"] 5(1) show ?case
      using taken_origin [OF 5(2)] by (auto simp: list_error_runs)
  qed (use assms in auto)
  with orig(1) show ?thesis by (simp add: parse_array_def)
qed

lemma member_value_runs:
  assumes "taken fp k t s" "k < n" "k \<le> depth" "k + 1 < rounds" and inc: "good_includer inc"
  shows "runs (member_value fp pv n p t) s (\<lambda>u s'. frame s s' \<and> taken fp k u s')"
proof (cases "pc_flavor s = CONF \<and> twc_token t = Token OPEN_CURLY")
  case True
  with assms(1) show ?thesis by (simp add: member_value_def)
next
  case False
  show ?thesis
  proof (cases "is_key_value_separator_token (pc_flavor s) (twc_token t)")
    case True
    then have r: "ready fp k s"
      using taken_ready [OF assms(1)] by (auto simp: is_key_value_separator_token_def)
    let ?s = "s\<lparr>pc_equals := pc_equals s + (if twc_token t = Token EQUALS then 1 else 0)\<rparr>"
    have "runs (parse_then (consolidate_value_tokens fp pv n) (\<lambda>_. parse_then (next_token_ignoring_newline fp n) parse_return)) ?s
        (\<lambda>u s'. frame s s' \<and> taken fp k u s')"
      by (rule element_runs [of k]) (use r assms in \<open>auto simp: frame_def intro: taken_mono\<close>)
    with True False show ?thesis by (auto simp: member_value_def add_equals_def)
  next
    case sep: False
    with False taken_origin [OF assms(1)] show ?thesis by (auto simp: member_value_def token_error_runs)
  qed
qed

text \<open>From the value of a member to the members: the path leaves the stack again.\<close>

lemma finish_member_runs:
  assumes s: "pc_path_stack s = p # ps" "ready fp k s" and v: "part_ok v" "members_ok values"
    and json: "pc_flavor s = JSON \<Longrightarrow> remainder p = None"
  shows "runs (parse_then (if appends then append_to_previous fp v else parse_return v) (\<lambda>new_value.
     parse_then pop_path (\<lambda>last_path.
     parse_then (add_equals d) (\<lambda>_.
     parse_then (store_value p new_value values) (\<lambda>values'. parse_return (values', Some last_path, q)))))) s
    (\<lambda>(values', _, _) s'. frame (s\<lparr>pc_path_stack := ps\<rparr>) s' \<and> ready fp k s' \<and> members_ok values')" (is "runs _ _ ?Q")
proof -
  have "runs (if appends then append_to_previous fp v else parse_return v) s (\<lambda>w s'. s' = s \<and> well_formed w)"
    using append_to_previous_runs [OF v(1)] s(1) v(1) by (auto simp: part_ok_def)
  then show ?thesis
  proof (rule runs_bind, goal_cases)
    case (1 w s')
    let ?s = "s\<lparr>pc_path_stack := ps, pc_equals := pc_equals s + d\<rparr>"
    have "runs (store_value p w values) ?s (\<lambda>ms' s'. s' = ?s \<and> members_ok ms')"
      using 1 v(2) json ready_origin [OF s(2)] by (intro store_value_runs) auto
    then have "runs (store_value p w values) ?s (\<lambda>ms s'. ?Q (ms, Some p, q) s')"
      by (rule runs_weaken) (use s(2) in \<open>auto simp: frame_def\<close>)
    with 1 s(1) show ?case by (simp add: pop_path_runs [OF s(1)] add_equals_def)
  qed
qed

lemma parse_member_runs:
  assumes "taken fp k t s" "k < n" "k \<le> depth" "k + 1 < rounds" "members_ok values" and inc: "good_includer inc"
  shows "runs (parse_member fp pv n t values) s (\<lambda>(values', _, _) s'. frame s s' \<and> ready fp k s' \<and> members_ok values')"
  unfolding parse_member_def
proof (rule runs_bind [OF parse_key_runs [OF assms(1,2)]], goal_cases)
  case (1 p s1)
  then have r1: "ready fp k s1" by simp
  obtain j where j: "k = Suc j" using ready_pos [OF r1] by blast
  show ?case
  proof (rule runs_bind [OF next_token_ignoring_newline_runs [OF r1 assms(2)]], goal_cases)
    case (1 after s2)
    let ?s = "s2\<lparr>pc_path_stack := p # pc_path_stack s2\<rparr>"
    have fr2: "frame s s2" and json: "pc_flavor s = JSON \<longrightarrow> remainder p = None" and tk2: "taken fp j after ?s"
      using 1 j \<open>frame s s1 \<and> _\<close> frame_trans by auto
    have "runs (parse_then (member_value fp pv n p after) (\<lambda>value_token.
        parse_then (pv (prepend_comments (twc_comments t) value_token)) (\<lambda>v.
        parse_then (if appends then append_to_previous fp v else parse_return v) (\<lambda>new_value.
        parse_then pop_path (\<lambda>last_path.
        parse_then (add_equals d) (\<lambda>_.
        parse_then (store_value p new_value values) (\<lambda>values'. parse_return (values', Some last_path, q)))))))) ?s
      (\<lambda>(values', _, _) s'. frame s s' \<and> ready fp k s' \<and> members_ok values')" for appends d q
    proof (rule runs_bind [OF member_value_runs [OF tk2]], goal_cases)
      case (5 u s3)
      then have u: "taken fp j (prepend_comments (twc_comments t) u) s3" and fr3: "frame ?s s3"
        using taken_prepend taken_good [OF assms(1)] by auto
      show ?case
      proof (rule runs_bind [OF pv_runs [OF inc u]], goal_cases)
        case (3 v s4)
        then have fr4: "frame ?s s4" using fr3 frame_trans by blast
        show ?case
          by (rule runs_weaken [OF finish_member_runs [of s4 p "pc_path_stack s2" j]])
             (use 3 fr2 fr4 json assms(5) j in \<open>auto simp: frame_def intro: ready_mono\<close>)
      qed (use assms j in auto)
    qed (use assms j in auto)
    then show ?case by (simp add: push_path_def)
  qed
qed

lemma after_element_runs:
  assumes "ready fp (Suc k) s" "Suc k < n"
  shows "runs (after_element fp n had_open last_path inside) s
    (\<lambda>more s'. frame s s' \<and> ready fp (if more then k else Suc k) s')"
  unfolding after_element_def
proof (rule runs_bind [OF check_element_separator_runs [OF assms]], goal_cases)
  case (1 sep s1)
  show ?case
  proof (cases sep)
    case True
    with 1 show ?thesis by (simp add: separated_def)
  next
    case False
    with 1 have s1: "frame s s1" "ready fp (Suc k) s1" by (auto simp: separated_def)
    from False show ?thesis
    proof (simp del: runs_then, intro runs_bind [OF next_token_ignoring_newline_runs [OF s1(2) assms(2)]], goal_cases)
      case (1 t s2)
      then have "taken fp k t s2" and fr: "frame s s2" using s1(1) frame_trans by auto
      with taken_put_back [OF this(1)] taken_ready [OF this(1)] taken_origin [OF this(1)] show ?case
        by (auto simp: token_error_runs frame_def intro: ready_mono)
    qed
  qed
qed

lemma object_loop_runs:
  assumes inc: "good_includer inc" and orig: "origin_named orig"
    and "ready fp k s" "k + 2 < n" "k \<le> depth" "k + 2 < rounds" "members_ok values"
  shows "runs (object_loop inc fp pv n had_open orig values after_comma last_path inside) s
    (\<lambda>v s'. frame s s' \<and> part_ok v \<and> ready fp k s')" (is "runs _ _ ?Q")
  using assms(3-7)
proof (induction n arbitrary: k s "values" after_comma last_path inside)
  case (Suc n)
  let ?Q = "\<lambda>v s'. frame s s' \<and> part_ok v \<and> ready fp k s'"
  obtain j where j: "k = Suc j" using ready_pos [OF Suc.prems(1)] by blast
  have finish: "runs (parse_exc (new_object orig ms)) s' ?Q" if "members_ok ms" "ready fp k s'" "frame s s'" for ms s'
    using new_object_ok [OF orig that(1)] that by auto
  have element: "runs (parse_then m (\<lambda>(values', last_path', inside').
      parse_then (after_element fp n had_open last_path' inside') (\<lambda>more.
        if more then object_loop inc fp pv n had_open orig values' True last_path' inside'
        else parse_exc (new_object orig values')))) s' ?Q"
    if m: "runs m s' (\<lambda>(values', _, _) s''. frame s' s'' \<and> ready fp j s'' \<and> members_ok values')" and fr: "frame s s'"
    for m :: "(config_members \<times> config_path option \<times> bool) parser" and s'
  proof (rule runs_bind [OF m], goal_cases)
    case (1 r s2)
    obtain ms lp q where r: "r = (ms, lp, q)" by (cases r)
    have s2: "ready fp j s2" "frame s s2" "members_ok ms" using 1 fr frame_trans by (auto simp: r)
    obtain i where i: "j = Suc i" using ready_pos [OF s2(1)] by blast
    have fuel: "Suc i < n" using Suc.prems(2) i j by simp
    have "runs (parse_then (after_element fp n had_open lp q) (\<lambda>more.
        if more then object_loop inc fp pv n had_open orig ms True lp q else parse_exc (new_object orig ms))) s2 ?Q"
    proof (rule runs_bind [OF after_element_runs [OF s2(1) [unfolded i] fuel]], goal_cases)
      case (1 more s3)
      then have s3: "ready fp (if more then i else Suc i) s3" "frame s s3" using s2(2) frame_trans by auto
      show ?case
      proof (cases more)
        case True
        have "runs (object_loop inc fp pv n had_open orig ms True lp q) s3 ?Q"
          by (rule runs_weaken [OF Suc.IH [of i s3 ms True lp q]])
             (use True s3 s2(3) i j Suc.prems in \<open>auto intro: ready_mono frame_trans\<close>)
        with True show ?thesis by simp
      next
        case False
        then have "ready fp k s3" using s3(1) i j by (auto intro: ready_mono)
        with False finish [OF s2(3) this s3(2)] show ?thesis by simp
      qed
    qed
    then show ?case by (simp add: r)
  qed
  show ?case
    unfolding object_loop.simps
  proof (rule runs_bind [OF next_token_ignoring_newline_runs [OF Suc.prems(1)]], goal_cases)
    case (2 t s1)
    then have t: "taken fp j t s1" and fr: "frame s s1" using j by auto
    have "runs (parse_then (if pc_flavor s1 \<noteq> JSON \<and> is_include_keyword (twc_token t)
                        then parse_then (parse_include inc fp n values) (\<lambda>values'.
                               parse_return (values', last_path, inside))
                        else parse_member fp pv n t values) (\<lambda>(values', last_path', inside').
            parse_then (after_element fp n had_open last_path' inside') (\<lambda>more.
              if more
              then object_loop inc fp pv n had_open orig values' True last_path' inside'
              else parse_exc (new_object orig values')))) s1 ?Q"
    proof (rule element [OF _ fr])
      have "runs (parse_member fp pv n t values) s1 (\<lambda>(values', _, _) s''. frame s1 s'' \<and> ready fp j s'' \<and> members_ok values')"
        using j Suc.prems inc by (intro parse_member_runs [OF t]) auto
      moreover have "runs (parse_include inc fp n values) s1 (\<lambda>values' s''. frame s1 s'' \<and> ready fp j s'' \<and> members_ok values')"
        if "is_include_keyword (twc_token t)"
      proof -
        have "ready fp j s1" using that taken_ready [OF t] by (auto simp: is_include_keyword_def split: token.splits)
        then show ?thesis
          by (rule runs_weaken [OF parse_include_runs [OF inc]]) (use j Suc.prems in \<open>auto intro: ready_mono\<close>)
      qed
      ultimately show "runs (if pc_flavor s1 \<noteq> JSON \<and> is_include_keyword (twc_token t)
          then parse_then (parse_include inc fp n values) (\<lambda>values'. parse_return (values', last_path, inside))
          else parse_member fp pv n t values) s1 (\<lambda>(values', _, _) s''. frame s1 s'' \<and> ready fp j s'' \<and> members_ok values')"
        by simp
    qed
    moreover have "twc_token t = Token CLOSE_CURLY \<Longrightarrow> ready fp k s1"
      using taken_ready [OF t] j by (auto intro: ready_mono)
    moreover have "ready fp k (s1\<lparr>pc_buffer := t # pc_buffer s1\<rparr>)" "frame s (s1\<lparr>pc_buffer := t # pc_buffer s1\<rparr>)"
      using taken_put_back [OF t] fr j by (auto simp: frame_def)
    ultimately show ?case
      using finish [OF Suc.prems(5)] fr taken_origin [OF t]
      by (simp add: token_error_runs del: runs_exc)
  qed (use Suc.prems in simp)
qed simp

lemma parse_object_runs:
  assumes "good_includer inc" "ready fp k s" "k + 2 < rounds" "k \<le> depth"
  shows "runs (parse_object inc fp pv rounds had_open) s (\<lambda>v s'. frame s s' \<and> part_ok v \<and> ready fp k s')"
proof -
  obtain orig where orig: "pc_line_origin s = Inr orig" "origin_named orig"
    using line_origin_ok ready_origin [OF assms(2)] by blast
  with object_loop_runs [OF assms(1) orig(2) assms(2,3,4,3) members_ok_Nil] show ?thesis
    by (simp add: parse_object_def)
qed

end

subsection \<open>\<open>parse_value\<close> meets the contract\<close>

lemma finish_value_runs:
  assumes "good_twc t" "part_ok v" "frame s0 s" "ready fp k s"
  shows "runs (parse_exc (bind_exc (set_token_comments fp t (value_origin v)) (\<lambda>orig. with_origin orig v))) s
    (\<lambda>v s'. frame s0 s' \<and> part_ok v \<and> ready fp k s')"
proof -
  have "origin_named (value_origin v)" using assms(2) well_formed_origin by (simp add: part_ok_def)
  then obtain orig where orig: "set_token_comments fp t (value_origin v) = Inr orig" "origin_named orig"
    using set_token_comments_ok [OF assms(1)] by blast
  with with_origin_ok [OF assms(2) orig(2)] assms(3,4) show ?thesis by auto
qed

lemma parse_value_step:
  assumes "value_parsing inc fp (parse_value inc fp n d) d n"
  shows "value_parsing inc fp (parse_value inc fp n (Suc d)) (Suc d) n"
proof
  fix k t s
  assume inc: "good_includer inc" and a: "taken fp k t s" "k < Suc d" "k + 2 < n"
  let ?Q = "\<lambda>v s'. frame s s' \<and> part_ok v \<and> ready fp k s'"
  have r: "ready fp k s" if "twc_token t \<noteq> Token END" using taken_ready [OF a(1) that] .
  have "runs (if is_value (twc_token t) then parse_exc (get_value fp (twc_token t))
               else if twc_token t = Token OPEN_CURLY then parse_object inc fp (parse_value inc fp n d) n True
               else if twc_token t = Token OPEN_SQUARE then parse_array fp (parse_value inc fp n d) n
               else token_error fp (twc_token t) message) s ?Q" for message
  proof (cases "is_value (twc_token t)")
    case True
    then obtain v where v: "twc_token t = ValueToken v" by (cases "twc_token t") auto
    with r taken_good [OF a(1)] show ?thesis by (simp add: good_twc_def)
  next
    case False
    with r value_parsing.parse_object_runs [OF assms inc, of k s] value_parsing.parse_array_runs [OF assms, of k s] inc a(2,3)
      taken_origin [OF a(1)]
    show ?thesis by (auto simp: token_error_runs)
  qed
  then show "runs (parse_value inc fp n (Suc d) t) s ?Q"
    unfolding parse_value.simps
    by (rule runs_bind) (use finish_value_runs [OF taken_good [OF a(1)]] in blast)
qed

interpretation parsing: value_parsing inc fp "parse_value inc fp n d" d n for inc fp n d
proof (induction d)
  case 0
  show ?case by unfold_locales simp
next
  case (Suc d)
  then show ?case by (rule parse_value_step)
qed


subsection \<open>The whole document\<close>

lemma next_token_start:
  assumes "iter_next fp (pc_tokens s) = (Inr (Token START), it)" "pc_buffer s = []"
  shows "runs (next_token_ignoring_newline fp (Suc n)) s Q \<longleftrightarrow> Q (plain_token (Token START)) (s\<lparr>pc_tokens := it\<rparr>)"
  using assms
  by (simp add: runs_def pc_next_token_def pop_token_def pull_token_def parse_then_def parse_get_def parse_return_def
      plain_token_def Let_def)

lemma root_value_runs:
  assumes inc: "good_includer inc" and t: "taken fp k t s" and k: "k + 3 < n"
  shows "runs (if twc_token t = Token OPEN_CURLY \<or> twc_token t = Token OPEN_SQUARE then parse_value inc fp n n t
               else if pc_flavor s = JSON
               then if twc_token t = Token END then parse_error m1 else token_error fp (twc_token t) m2
               else parse_then (pc_put_back t) (\<lambda>_. parse_object inc fp (parse_value inc fp n n) n False)) s
           (\<lambda>v s'. well_formed v \<and> ready fp (Suc k) s')"
proof -
  have "runs (parse_value inc fp n n t) s (\<lambda>v s'. well_formed v \<and> ready fp (Suc k) s')"
    by (rule runs_weaken [OF parsing.pv_runs [OF inc t]]) (use k in \<open>auto simp: part_ok_def intro: ready_mono\<close>)
  moreover have "runs (parse_object inc fp (parse_value inc fp n n) n False) (s\<lparr>pc_buffer := t # pc_buffer s\<rparr>)
      (\<lambda>v s'. well_formed v \<and> ready fp (Suc k) s')"
    by (rule runs_weaken [OF parsing.parse_object_runs [OF inc taken_put_back [OF t]]]) (use k in \<open>auto simp: part_ok_def\<close>)
  ultimately show ?thesis
    using taken_origin [OF t] by (simp add: parse_error_runs token_error_runs)
qed

lemma context_parse_runs:
  assumes inc: "good_includer inc" and first: "iter_next fp (pc_tokens s) = (Inr (Token START), it)" "pc_buffer s = []"
    and r: "ready fp k (s\<lparr>pc_tokens := it\<rparr>)" and k: "k + 2 < n"
  shows "runs (context_parse inc fp n) s (\<lambda>v _. well_formed v)"
proof -
  obtain m where m: "n = Suc m" using k by (cases n) auto
  let ?rest = "\<lambda>t. parse_then (parse_get pc_flavor) (\<lambda>flavor.
      parse_then (if twc_token t = Token OPEN_CURLY \<or> twc_token t = Token OPEN_SQUARE then parse_value inc fp n n t
                  else if flavor = JSON
                  then if twc_token t = Token END then parse_error ''_empty document''
                       else token_error fp (twc_token t) (\<lambda>text s.
                              ''_document must have an object or array at root, unexpected token: '' @ text)
                  else parse_then (pc_put_back t) (\<lambda>_. parse_object inc fp (parse_value inc fp n n) n False)) (\<lambda>result.
      parse_then (next_token_ignoring_newline fp n) (\<lambda>t'.
        if twc_token t' = Token END then parse_return result
        else token_error fp (twc_token t') (\<lambda>text s.
               ''_document has trailing tokens after first object or array: '' @ text))))"
  have "k < n" using k by simp
  have "runs (parse_then (next_token_ignoring_newline fp n) ?rest) (s\<lparr>pc_tokens := it\<rparr>) (\<lambda>v _. well_formed v)"
  proof (rule runs_bind [OF next_token_ignoring_newline_runs [OF r \<open>k < n\<close>]], goal_cases)
    case (1 t s1)
    obtain j where j: "k = Suc j" using ready_pos [OF r] by blast
    have t: "taken fp j t s1" "j + 3 < n" using 1 j k by auto
    show ?case
      unfolding runs_then runs_get
    proof (rule runs_weaken [OF root_value_runs [OF inc t]], goal_cases)
      case (1 v s2)
      show ?case
        by (rule runs_weaken [OF next_token_ignoring_newline_runs [of fp "Suc j"]])
           (use 1 t(2) in \<open>auto simp: token_error_runs taken_origin\<close>)
    qed
  qed
  then show ?thesis
    by (simp only: context_parse_def runs_then m next_token_start [OF first])
       (simp add: plain_token_def)
qed

subsection \<open>From characters to values\<close>

lemma named_token_good: "named_token (desc orig) t \<Longrightarrow> origin_named orig \<Longrightarrow> good_token t"
proof (cases t)
  case (ValueToken v)
  assume "named_token (desc orig) t" "origin_named orig"
  with ValueToken show ?thesis by (cases v) (auto simp: origin_named_def part_ok_def)
qed (auto simp: origin_named_def)

lemma stream_yields:
  "stream_inv ts \<Longrightarrow> tokens_named d ts \<Longrightarrow> all_tokens fp n ts = Inr l \<Longrightarrow>
   yields fp (StreamIterator ts) l \<and> (\<forall>t \<in> set l. named_token d t)"
proof (induction n arbitrary: ts l)
  case (Suc n)
  show ?case
  proof (cases "tokens ts")
    case Nil
    with Suc.prems show ?thesis by (auto simp: has_next_def intro: yields_Nil)
  next
    case (Cons t rest)
    obtain ts' where ts': "next_token fp ts = (Inr t, ts')" "stream_inv ts'"
      using next_token_ok [OF Suc.prems(1) Cons] by blast
    then obtain l' where l': "all_tokens fp n ts' = Inr l'" "l = t # l'"
      using Suc.prems(3) Cons by (auto simp: has_next_def split: sum.splits)
    from next_token_named [OF Suc.prems(1,2) ts'(1)] Suc.IH [OF ts'(2) _ l'(1)] ts' l' show ?thesis
      by (auto intro: yields_Cons)
  qed
qed simp

text \<open>The tokens of a document as its parser sees them.\<close>

lemma tokenize_yields:
  assumes orig: "origin_named orig" and ts: "tokenize orig rd flavor = Inr ts"
  shows "\<exists>it l. next_token fp ts = (Inr (Token START), it) \<and> yields fp (StreamIterator it) l \<and> ends l \<and>
     length l \<le> 2 * reader_size rd + 2 \<and> (\<forall>t \<in> set l. good_token t)"
proof -
  have "origin_ok orig" using orig named_text_not_Nil by (auto simp: origin_named_def origin_ok_def)
  note inv = tokenize_inv [OF this ts]
  have rank: "token_rank ts = 2 * reader_size rd + 3" using inv by (simp add: token_rank_def)
  obtain l where l: "all_tokens fp (2 * reader_size rd + 4) ts = Inr (l @ [Token END])" "Token END \<notin> set l"
    "hd (l @ [Token END]) = Token START"
    using all_tokens_ok [of ts "2 * reader_size rd + 4" fp] inv rank by auto
  then obtain l' where l': "l = Token START # l'" by (cases l) auto
  have "tokens_named (desc orig) ts"
    using ts by (auto simp: tokenize_def new_token_stream_def tokens_named_def set_line_number_def make_origin_def
        bind_exc_def split: sum.splits if_splits)
  with stream_yields [OF _ this l(1)] inv have y: "yields fp (StreamIterator ts) (Token START # l' @ [Token END])"
    "\<forall>t \<in> set (l' @ [Token END]). named_token (desc orig) t" by (auto simp: l')
  then obtain it where "next_token fp ts = (Inr (Token START), it)" "yields fp (StreamIterator it) (l' @ [Token END])"
    by (auto simp: yields_Cons_iff split: prod.splits)
  moreover have "length (l' @ [Token END]) \<le> 2 * reader_size rd + 2"
    using all_tokens_length [of ts fp _ "l @ [Token END]"] l(1) inv rank by (simp add: l')
  moreover have "ends (l' @ [Token END])" using l(2) l' by (auto simp: ends_def)
  ultimately show ?thesis using y(2) named_token_good [OF _ orig] by blast
qed

lemma parse_ends:
  assumes "good_includer inc" and "origin_named orig" and "2 * reader_size rd + 4 < n"
  shows "\<exists>ts. tokenize orig rd flavor = Inr ts \<and>
     (case context_parse inc fp n (new_context flavor orig (StreamIterator ts)) of
        Inl e \<Rightarrow> reported e
      | Inr (v, s) \<Rightarrow> well_formed v)"
proof -
  have "origin_ok orig" using assms(2) named_text_not_Nil by (auto simp: origin_named_def origin_ok_def)
  then obtain ts where ts: "tokenize orig rd flavor = Inr ts" using tokenize_ok by blast
  obtain it l where it: "next_token fp ts = (Inr (Token START), it)" "yields fp (StreamIterator it) l" "ends l"
    "length l \<le> 2 * reader_size rd + 2" "\<forall>t \<in> set l. good_token t"
    using tokenize_yields [OF assms(2) ts] by blast
  let ?s = "new_context flavor orig (StreamIterator ts)"
  have "ready fp (2 * reader_size rd + 2) (?s\<lparr>pc_tokens := StreamIterator it\<rparr>)"
    using it assms(2) by (auto simp: ready_def pend_def new_context_def)
  then have "runs (context_parse inc fp n) ?s (\<lambda>v _. well_formed v)"
    using it(1) assms(3) by (intro context_parse_runs [OF assms(1)]) (auto simp: new_context_def)
  with ts show ?thesis by (simp add: runs_def)
qed


definition empty_includer :: full_includer where
  "empty_includer = \<lparr>include_any = \<lambda>name. Inr (sample_object []), include_file = \<lambda>name. Inr (sample_object [])\<rparr>"


end
