(* ===== verification/Render_Parse.thy ===== *)
theory Render_Parse
  imports Render_Json Parser_Outcome
begin

section \<open>Parsing what was rendered\<close>

text \<open>
  The parser on the tokens of a document: every token of a document is plain, the loops of arrays and
  objects run through commas, and the value that is built says the document.  With the
  tokenizer on the text of a document this gives the round trip of rendering and parsing.
\<close>

subsection \<open>Parsing the tokens of a document\<close>

text \<open>The step \<open>m\<close> succeeds from \<open>s\<close>, and \<open>Q\<close> holds of its result.\<close>

definition gives :: "'a parser \<Rightarrow> parse_context \<Rightarrow> ('a \<Rightarrow> parse_context \<Rightarrow> bool) \<Rightarrow> bool" where
  "gives m s Q \<longleftrightarrow> (\<exists>x s'. m s = Inr (x, s') \<and> Q x s')"

lemma gives_then [simp]: "gives (parse_then m f) s Q \<longleftrightarrow> gives m s (\<lambda>x s'. gives (f x) s' Q)"
  by (auto simp: gives_def parse_then_def split: sum.splits prod.splits)

lemma gives_return [simp]: "gives (parse_return x) s Q \<longleftrightarrow> Q x s"
  by (simp add: gives_def parse_return_def)

lemma gives_get [simp]: "gives (parse_get g) s Q \<longleftrightarrow> Q (g s) s"
  by (simp add: gives_def parse_get_def)

lemma gives_set [simp]: "gives (parse_set h) s Q \<longleftrightarrow> Q () (h s)"
  by (simp add: gives_def parse_set_def)

lemma gives_lift [simp]: "gives (parse_lift (Inr x)) s Q \<longleftrightarrow> Q x s"
  by (simp add: gives_def parse_lift_def)

lemma gives_exc [simp]: "gives (parse_exc (Inr x)) s Q \<longleftrightarrow> Q x s"
  by (simp add: gives_def parse_exc_def parse_lift_def lift_exc_def)

lemma gives_weaken: "gives m s P \<Longrightarrow> (\<And>x s'. P x s' \<Longrightarrow> Q x s') \<Longrightarrow> gives m s Q"
  by (auto simp: gives_def)

lemma gives_bind: "gives m s P \<Longrightarrow> (\<And>x s'. P x s' \<Longrightarrow> gives (f x) s' Q) \<Longrightarrow> gives (parse_then m f) s Q"
  by (simp add: gives_weaken)

text \<open>The tokens \<open>l\<close> are ahead, in JSON.\<close>

definition ahead :: "fp_text \<Rightarrow> parse_context \<Rightarrow> token list \<Rightarrow> bool" where
  "ahead fp s l \<longleftrightarrow> pc_flavor s = JSON \<and> origin_named (pc_origin s) \<and>
     (\<exists>bs us. pc_buffer s = map plain_token bs \<and> yields fp (pc_tokens s) us \<and> l = bs @ us)"

lemma ahead_updates [simp]:
  "ahead fp (s\<lparr>pc_equals := q\<rparr>) l = ahead fp s l" "ahead fp (s\<lparr>pc_path_stack := ps\<rparr>) l = ahead fp s l"
  by (simp_all add: ahead_def)

fun plain :: "token \<Rightarrow> bool" where
  "plain (Token _) = True" | "plain (ValueToken _) = True" | "plain _ = False"

definition kept :: "parse_context \<Rightarrow> parse_context \<Rightarrow> bool" where
  "kept s s' \<longleftrightarrow> pc_path_stack s' = pc_path_stack s"

lemma kept_simps [simp]: "kept s s" "kept s (s'\<lparr>pc_equals := q\<rparr>) = kept s s'"
  by (simp_all add: kept_def)

lemma next_plain:
  assumes "ahead fp s (t # l)" "plain t" "0 < k"
  shows "gives (next_token_ignoring_newline fp k) s (\<lambda>x s'. x = plain_token t \<and> ahead fp s' l \<and> kept s s')"
proof -
  obtain n where k: "k = Suc n" using assms(3) by (cases k) auto
  obtain bs us where b: "pc_buffer s = map plain_token bs" "yields fp (pc_tokens s) us" "t # l = bs @ us"
    and j: "pc_flavor s = JSON" "origin_named (pc_origin s)" using assms(1) by (auto simp: ahead_def)
  have "gives (pop_token fp n) s (\<lambda>x s'. x = plain_token t \<and> ahead fp s' l \<and> kept s s')"
  proof (cases bs)
    case Nil
    then obtain it where "iter_next fp (pc_tokens s) = (Inr t, it)" "yields fp it l"
      using b(2,3) by (auto simp: yields_Cons_iff)
    then show ?thesis
      using Nil b(1) j assms(2)
      by (cases t) (auto simp: pop_token_def gives_def parse_then_def parse_get_def pull_token_def parse_return_def ahead_def kept_def)
  next
    case (Cons c cs)
    then show ?thesis
      using b j by (auto simp: pop_token_def gives_def parse_then_def parse_get_def pop_buffer_def ahead_def kept_def)
  qed
  then have "gives (pc_next_token fp n) s (\<lambda>x s'. x = plain_token t \<and> ahead fp s' l \<and> kept s s')"
    unfolding pc_next_token_def
    by (rule gives_bind) (use assms(2) in \<open>cases t; auto simp: Let_def plain_token_def\<close>)
  then show ?thesis
    unfolding k next_token_ignoring_newline.simps
    by (rule gives_bind) (use assms(2) in \<open>cases t; auto simp: plain_token_def\<close>)
qed

lemma plain_token_simps [simp]: "twc_token (plain_token t) = t" "twc_comments (plain_token t) = []"
  by (simp_all add: plain_token_def)

lemma put_back_ahead: "ahead fp s l \<Longrightarrow> ahead fp (s\<lparr>pc_buffer := plain_token t # pc_buffer s\<rparr>) (t # l)"
proof -
  assume "ahead fp s l"
  then obtain bs us where "pc_flavor s = JSON" "origin_named (pc_origin s)" "pc_buffer s = map plain_token bs"
    "yields fp (pc_tokens s) us" "l = bs @ us" by (auto simp: ahead_def)
  then show ?thesis unfolding ahead_def by (intro conjI exI [of _ "t # bs"] exI [of _ us]) auto
qed

text \<open>A comma is taken; a closing bracket is put back.\<close>

lemma separator_comma:
  assumes "ahead fp s (Token COMMA # l)" "0 < n"
  shows "gives (check_element_separator fp n) s (\<lambda>b s'. b \<and> ahead fp s' l \<and> kept s s')"
proof -
  have "pc_flavor s = JSON" using assms(1) by (simp add: ahead_def)
  then show ?thesis
    using next_plain [OF assms(1) _ assms(2)] by (auto simp: check_element_separator_def elim!: gives_weaken)
qed

lemma separator_close:
  assumes "ahead fp s (t # l)" "t = Token CLOSE_SQUARE \<or> t = Token CLOSE_CURLY" "0 < n"
  shows "gives (check_element_separator fp n) s (\<lambda>b s'. \<not> b \<and> ahead fp s' (t # l) \<and> kept s s')"
proof -
  have "gives (next_token_ignoring_newline fp n) s (\<lambda>x s'. x = plain_token t \<and> ahead fp s' l \<and> kept s s')"
    using assms by (intro next_plain) auto
  moreover have "pc_flavor s = JSON" using assms(1) by (simp add: ahead_def)
  ultimately show ?thesis
    unfolding check_element_separator_def using assms(2)
    by (auto simp: pc_put_back_def kept_def intro: put_back_ahead elim!: gives_weaken)
qed

subsubsection \<open>Arrays\<close>

text \<open>\<open>pv\<close> reads \<open>j\<close>: the first token in hand, the others ahead.\<close>

definition reads_value :: "fp_text \<Rightarrow> config_origin \<Rightarrow> value_parser \<Rightarrow> json \<Rightarrow> bool" where
  "reads_value fp lo pv j \<longleftrightarrow> (\<forall>s l. ahead fp s (tl (json_tokens lo j) @ l) \<longrightarrow>
     gives (pv (plain_token (hd (json_tokens lo j)))) s (\<lambda>v s'. json_of v = Some j \<and> ahead fp s' l \<and> kept s s'))"

lemma json_tokens_opens:
  "json_tokens lo j = hd (json_tokens lo j) # tl (json_tokens lo j)" "opens_value (hd (json_tokens lo j))"
  "plain (hd (json_tokens lo j))"
  by (induction lo j rule: json_tokens.induct)
     (simp_all add: opens_value_def new_null_def new_boolean_def new_int64_def new_string_def)

lemma json_each_snoc: "json_each (vs @ [v]) = (case json_each vs of None \<Rightarrow> None | Some js \<Rightarrow> map_option (\<lambda>j. js @ [j]) (json_of v))"
  by (cases "json_of v"; induction vs) (auto split: option.splits)

lemma new_list_gives: "new_list orig vs = Inr (SimpleConfigList orig vs (from_values vs))"
  by (simp add: new_list_def make_list_def)

lemma json_flavor: "ahead fp s l \<Longrightarrow> pc_flavor s = JSON"
  by (simp add: ahead_def)

lemma kept_trans: "kept s s' \<Longrightarrow> kept s' s'' \<Longrightarrow> kept s s''"
  by (simp add: kept_def)

lemma no_consolidation: "ahead fp s l \<Longrightarrow> gives (consolidate_value_tokens fp pv n) s Q \<longleftrightarrow> Q () s"
  by (simp add: consolidate_value_tokens_def json_flavor)

lemma array_loop_gives:
  assumes "ahead fp s (concat (map (\<lambda>j. Token COMMA # json_tokens lo j) js) @ Token CLOSE_SQUARE # l)"
    "\<forall>j \<in> set js. reads_value fp lo pv j" "length js + 2 \<le> n" "json_each vs = Some ks"
  shows "gives (array_loop fp pv n orig vs) s (\<lambda>v s'. json_of v = Some (JArr (ks @ js)) \<and> ahead fp s' l \<and> kept s s')"
  using assms
proof (induction js arbitrary: s n vs ks)
  case Nil
  obtain m where n: "n = Suc m" "0 < m" using Nil.prems(3) by (cases n) auto
  have "gives (check_element_separator fp m) s (\<lambda>b s'. \<not> b \<and> ahead fp s' (Token CLOSE_SQUARE # l) \<and> kept s s')"
    using Nil.prems(1) n(2) by (intro separator_close) auto
  then show ?case
    unfolding n(1) array_loop.simps
  proof (rule gives_bind, goal_cases)
    case (1 b s')
    then have "gives (next_token_ignoring_newline fp m) s' (\<lambda>x s''. x = plain_token (Token CLOSE_SQUARE) \<and> ahead fp s'' l \<and> kept s' s'')"
      using n(2) by (intro next_plain) auto
    then show ?case
      using 1 Nil.prems(4)
      by (auto simp: new_list_gives elim!: gives_weaken intro: kept_trans)
  qed
next
  case (Cons j js)
  let ?rest = "concat (map (\<lambda>j. Token COMMA # json_tokens lo j) js) @ Token CLOSE_SQUARE # l"
  obtain m where n: "n = Suc m" "0 < m" "length js + 2 \<le> m" using Cons.prems(3) by (cases n) auto
  have "gives (check_element_separator fp m) s (\<lambda>b s'. b \<and> ahead fp s' (json_tokens lo j @ ?rest) \<and> kept s s')"
    using Cons.prems(1) n(2) by (intro separator_comma) simp_all
  then show ?case
    unfolding n(1) array_loop.simps
  proof (rule gives_bind, goal_cases)
    case (1 b s1)
    then have a1: "ahead fp s1 (hd (json_tokens lo j) # tl (json_tokens lo j) @ ?rest)"
      by (metis append_Cons json_tokens_opens(1))
    have "gives (next_token_ignoring_newline fp m) s1
        (\<lambda>x s2. x = plain_token (hd (json_tokens lo j)) \<and> ahead fp s2 (tl (json_tokens lo j) @ ?rest) \<and> kept s1 s2)"
      using a1 json_tokens_opens(3) n(2) by (intro next_plain)
    moreover have "gives (if opens_value (twc_token x) then parse_then (pv x) (\<lambda>v. array_loop fp pv m orig (vs @ [v])) else q) s2
        (\<lambda>v s'. json_of v = Some (JArr (ks @ j # js)) \<and> ahead fp s' l \<and> kept s s')"
      if "x = plain_token (hd (json_tokens lo j)) \<and> ahead fp s2 (tl (json_tokens lo j) @ ?rest) \<and> kept s1 s2" for x s2 q
    proof -
      have "gives (pv x) s2 (\<lambda>v s3. json_of v = Some j \<and> ahead fp s3 ?rest \<and> kept s2 s3)"
        using that Cons.prems(2) by (auto simp: reads_value_def)
      then have "gives (parse_then (pv x) (\<lambda>v. array_loop fp pv m orig (vs @ [v]))) s2
          (\<lambda>v s'. json_of v = Some (JArr ((ks @ [j]) @ js)) \<and> ahead fp s' l \<and> kept s s')"
      proof (rule gives_bind, goal_cases)
        case (1 v s3)
        then have "gives (array_loop fp pv m orig (vs @ [v])) s3
            (\<lambda>v s'. json_of v = Some (JArr ((ks @ [j]) @ js)) \<and> ahead fp s' l \<and> kept s3 s')"
          using Cons.prems(2,4) n(3) by (intro Cons.IH) (auto simp: json_each_snoc)
        then show ?case
          by (rule gives_weaken) (use 1 that \<open>b \<and> _ \<and> kept s s1\<close> in \<open>auto intro: kept_trans\<close>)
      qed
      then show ?thesis using that json_tokens_opens(2) by simp
    qed
    ultimately show ?case
      using 1 a1 json_tokens_opens(2) [of lo j] by (auto simp: no_consolidation elim!: gives_weaken)
  qed
qed

subsubsection \<open>Objects\<close>

lemma json_members_snoc:
  "json_members (ms @ [(k, v)]) = (case json_members ms of None \<Rightarrow> None | Some ks \<Rightarrow> map_option (\<lambda>j. ks @ [(k, j)]) (json_of v))"
  by (cases "json_of v"; induction ms) (auto split: option.splits)

lemma json_members_keys: "json_members ms = Some ks \<Longrightarrow> map fst ks = map fst ms"
  by (induction ms arbitrary: ks) (auto split: option.splits)

lemma new_object_gives: "new_object orig ms = Inr (SimpleConfigObject orig ms (from_values (map snd ms)) False)"
  by (simp add: new_object_def make_object_def)

lemma update_new_key: "k \<notin> fst ` set ms \<Longrightarrow> AList.update k v ms = ms @ [(k, v)]"
  by (induction ms) auto

lemma key_gives:
  assumes "ahead fp s l"
  shows "gives (parse_key fp n (plain_token (new_string lo k))) s Q \<longleftrightarrow> Q (new_key k) s"
  using assms by (simp add: parse_key_def json_flavor new_string_def is_value_with_type_def get_value_def)

lemma store_gives:
  assumes "ahead fp s l" "k \<notin> fst ` set ms"
  shows "gives (store_value (new_key k) v ms) s Q \<longleftrightarrow> Q (ms @ [(k, v)]) s"
  using assms map_of_eq_None_iff [of ms k] by (simp add: store_value_def new_key_def update_new_key)

lemma pop_gives: "pc_path_stack s = p # ps \<Longrightarrow> gives pop_path s Q \<longleftrightarrow> Q p (s\<lparr>pc_path_stack := ps\<rparr>)"
  by (simp add: gives_def pop_path_def)

lemma no_comments_prepended [simp]: "prepend_comments (twc_comments (plain_token t)) y = y"
  by (simp add: prepend_comments_def plain_token_def)

lemma member_value_gives:
  assumes "ahead fp s (json_tokens lo j @ l)" "0 < n"
  shows "gives (member_value fp pv n p (plain_token (Token COLON))) s
     (\<lambda>y s'. y = plain_token (hd (json_tokens lo j)) \<and> ahead fp s' (tl (json_tokens lo j) @ l) \<and> kept s s')"
proof -
  let ?s = "s\<lparr>pc_equals := pc_equals s\<rparr>"
  have "ahead fp ?s (hd (json_tokens lo j) # tl (json_tokens lo j) @ l)"
    using assms(1) by (metis ahead_updates(1) append_Cons json_tokens_opens(1))
  then have "gives (next_token_ignoring_newline fp n) ?s
      (\<lambda>y s2. y = plain_token (hd (json_tokens lo j)) \<and> ahead fp s2 (tl (json_tokens lo j) @ l) \<and> kept ?s s2)"
    using json_tokens_opens(3) assms(2) by (intro next_plain)
  then show ?thesis
    using json_flavor [OF assms(1)] no_consolidation [OF assms(1)]
    by (simp add: member_value_def is_key_value_separator_token_def add_equals_def kept_def)
qed

lemma member_gives:
  assumes "ahead fp s (Token COLON # json_tokens lo j @ l)" "reads_value fp lo pv j" "0 < n" "k \<notin> fst ` set ms"
  shows "gives (parse_member fp pv n (plain_token (new_string lo k)) ms) s
     (\<lambda>(ms', _) s'. (\<exists>v. ms' = ms @ [(k, v)] \<and> json_of v = Some j) \<and> ahead fp s' l \<and> kept s s')"
    (is "gives _ s ?Q")
proof -
  have colon: "gives (next_token_ignoring_newline fp n) s (\<lambda>x s'. x = plain_token (Token COLON) \<and> ahead fp s' (json_tokens lo j @ l) \<and> kept s s')"
    using assms by (intro next_plain) auto
  show ?thesis
    unfolding parse_member_def gives_then key_gives [OF assms(1)] push_path_def gives_set
  proof (rule gives_weaken [OF colon], goal_cases)
    case (1 x s1)
    then have x: "x = plain_token (Token COLON)" "ahead fp s1 (json_tokens lo j @ l)" "kept s s1" by auto
    let ?s = "s1\<lparr>pc_path_stack := new_key k # pc_path_stack s1\<rparr>"
    have "gives (member_value fp pv n (new_key k) x) ?s
        (\<lambda>y s2. y = plain_token (hd (json_tokens lo j)) \<and> ahead fp s2 (tl (json_tokens lo j) @ l) \<and> kept ?s s2)"
      unfolding x(1) using x(2) assms(3) by (intro member_value_gives) simp_all
    then show ?case
    proof (rule gives_weaken, goal_cases)
      case (1 y s2)
      then have "gives (pv y) s2 (\<lambda>v s3. json_of v = Some j \<and> ahead fp s3 l \<and> kept s2 s3)"
        using assms(2) by (auto simp: reads_value_def)
      then show ?case
        unfolding no_comments_prepended
      proof (rule gives_weaken, goal_cases)
        case (1 v s3)
        then have st: "pc_path_stack s3 = new_key k # pc_path_stack s1"
          using \<open>y = _ \<and> _ \<and> kept ?s s2\<close> by (simp add: kept_def)
        let ?s4 = "s3\<lparr>pc_path_stack := pc_path_stack s1\<rparr>"
        have a: "ahead fp ?s4 l" using 1 by simp
        have "kept s ?s4" using x(3) by (simp add: kept_def)
        with 1 a show ?case
          by (simp add: x(1) pop_gives [OF st] add_equals_def store_gives [OF a assms(4)])
      qed
    qed
  qed
qed

lemma close_object_gives:
  assumes "ahead fp s (Token CLOSE_CURLY # l)" "0 < n"
  shows "gives (after_element fp n True p e) s (\<lambda>b s'. \<not> b \<and> ahead fp s' l \<and> kept s s')"
proof -
  have "gives (check_element_separator fp n) s (\<lambda>b s'. \<not> b \<and> ahead fp s' (Token CLOSE_CURLY # l) \<and> kept s s')"
    using assms by (intro separator_close) auto
  then show ?thesis
    unfolding after_element_def
  proof (rule gives_bind, goal_cases)
    case (1 b s')
    then have "gives (next_token_ignoring_newline fp n) s' (\<lambda>x s''. x = plain_token (Token CLOSE_CURLY) \<and> ahead fp s'' l \<and> kept s' s'')"
      using assms(2) by (intro next_plain) auto
    then show ?case using 1 by (auto elim!: gives_weaken intro: kept_trans)
  qed
qed

lemma next_member_gives:
  assumes "ahead fp s (Token COMMA # l)" "0 < n"
  shows "gives (after_element fp n h p e) s (\<lambda>b s'. b \<and> ahead fp s' l \<and> kept s s')"
  using separator_comma [OF assms] by (auto simp: after_element_def elim!: gives_weaken)

definition member_tokens :: "config_origin \<Rightarrow> string \<times> json \<Rightarrow> token list" where
  "member_tokens lo = (\<lambda>(k, j). new_string lo k # Token COLON # json_tokens lo j)"

lemma key_token_facts [simp]:
  "plain (new_string lo k)" "new_string lo k \<noteq> Token t"
  by (simp_all add: new_string_def)

lemma object_round_gives:
  assumes "ahead fp s (member_tokens lo (k, j) @ l)" "reads_value fp lo pv j" "0 < n" "k \<notin> fst ` set ms"
    and rest: "\<And>v s' lp' le'. json_of v = Some j \<Longrightarrow> ahead fp s' l \<Longrightarrow> kept s s' \<Longrightarrow>
      gives (parse_then (after_element fp n True lp' le') (\<lambda>more.
        if more then object_loop inc fp pv n True orig (ms @ [(k, v)]) True lp' le' else parse_exc (new_object orig (ms @ [(k, v)])))) s' Q"
  shows "gives (object_loop inc fp pv (Suc n) True orig ms ac lp le) s Q"
proof -
  have "gives (next_token_ignoring_newline fp n) s
      (\<lambda>x s'. x = plain_token (new_string lo k) \<and> ahead fp s' (Token COLON # json_tokens lo j @ l) \<and> kept s s')"
    using assms(1,3) by (intro next_plain) (simp_all add: member_tokens_def)
  then show ?thesis
    unfolding object_loop.simps
  proof (rule gives_bind, goal_cases)
    case (1 x s1)
    then have x: "x = plain_token (new_string lo k)" "pc_flavor s1 = JSON" "kept s s1"
      and a: "ahead fp s1 (Token COLON # json_tokens lo j @ l)" using json_flavor by auto
    have "gives (parse_then (parse_member fp pv n x ms) (\<lambda>(ms', lp', le').
        parse_then (after_element fp n True lp' le') (\<lambda>more.
          if more then object_loop inc fp pv n True orig ms' True lp' le' else parse_exc (new_object orig ms')))) s1 Q"
      unfolding x(1)
    proof (rule gives_bind [OF member_gives [OF a assms(2,3,4)]], goal_cases)
      case (1 r s2)
      then show ?case using rest [of _ s2] kept_trans [OF x(3), of s2] by (cases r) auto
    qed
    then show ?case using x(1,2) by simp
  qed
qed

lemma object_loop_gives:
  assumes "ahead fp s (member_tokens lo x @ concat (map (\<lambda>x. Token COMMA # member_tokens lo x) xs) @ Token CLOSE_CURLY # l)"
    "\<forall>(k, j) \<in> set (x # xs). reads_value fp lo pv j" "length xs + 2 \<le> n" "json_members ms = Some ks"
    "distinct (map fst (ks @ x # xs))"
  shows "gives (object_loop inc fp pv n True orig ms ac lp le) s
     (\<lambda>v s'. json_of v = Some (JObj (ks @ x # xs)) \<and> ahead fp s' l \<and> kept s s')"
  using assms
proof (induction xs arbitrary: s n ms ks x ac lp le)
  case Nil
  obtain m where n: "n = Suc m" "0 < m" using Nil.prems(3) by (cases n) auto
  obtain k j where x: "x = (k, j)" by (cases x)
  have k: "k \<notin> set (map fst ms)" using Nil.prems(4,5) x by (auto simp flip: json_members_keys)
  show ?case
    unfolding n(1)
  proof (rule object_round_gives [where k = k and j = j and l = "Token CLOSE_CURLY # l"], goal_cases)
    case (5 v s' lp' le')
    then show ?case
      using Nil.prems(4) x
      by (intro gives_bind [OF close_object_gives [OF 5(2) n(2)]])
         (auto simp: new_object_gives json_members_snoc intro: kept_trans)
  qed (use Nil.prems x k n(2) in auto)
next
  case (Cons y xs)
  obtain m where n: "n = Suc m" "0 < m" "length xs + 2 \<le> m" using Cons.prems(3) by (cases n) auto
  obtain k j where x: "x = (k, j)" by (cases x)
  have k: "k \<notin> set (map fst ms)" using Cons.prems(4,5) x by (auto simp flip: json_members_keys)
  let ?rest = "member_tokens lo y @ concat (map (\<lambda>x. Token COMMA # member_tokens lo x) xs) @ Token CLOSE_CURLY # l"
  show ?case
    unfolding n(1)
  proof (rule object_round_gives [where k = k and j = j and l = "Token COMMA # ?rest"], goal_cases)
    case (5 v s' lp' le')
    show ?case
    proof (rule gives_bind [OF next_member_gives [OF 5(2) n(2)]], goal_cases)
      case (1 b s2)
      have "gives (object_loop inc fp pv m True orig (ms @ [(k, v)]) True lp' le') s2
          (\<lambda>v s'. json_of v = Some (JObj ((ks @ [x]) @ y # xs)) \<and> ahead fp s' l \<and> kept s2 s')"
        using 1 5(1) Cons.prems(2,4,5) n(3) x by (intro Cons.IH) (auto simp: json_members_snoc)
      then show ?case
        using 1 5(3) by (auto elim!: gives_weaken intro: kept_trans)
    qed
  qed (use Cons.prems x k n(2) in auto)
qed

subsubsection \<open>Values\<close>

lemma line_origin_gives: "ahead fp s l \<Longrightarrow> \<exists>lo. pc_line_origin s = Inr lo"
  using named_text_not_Nil set_line_number_ok
  by (fastforce simp: ahead_def pc_line_origin_def origin_named_def)

lemma number_token_json: "json_of (new_number_int64 lo i t) = Some (JNum i)"
  by (simp add: new_number_int64_def)

lemma same_origin_gives: "gives (parse_exc (bind_exc (set_token_comments fp (plain_token t) (value_origin v)) (\<lambda>orig. with_origin orig v))) s Q \<longleftrightarrow> Q v s"
  by (simp add: set_token_comments_def with_origin_def)

lemma parse_value_gives:
  "gives (parse_value inc fp n (Suc d) (plain_token t)) s Q \<longleftrightarrow>
     gives (if is_value t then parse_exc (get_value fp t)
            else if t = Token OPEN_CURLY then parse_object inc fp (parse_value inc fp n d) n True
            else if t = Token OPEN_SQUARE then parse_array fp (parse_value inc fp n d) n
            else token_error fp t (\<lambda>text. add_quote_suggestion text (''_expecting a value but got wrong token: '' @ text))) s Q"
  unfolding parse_value.simps gives_then same_origin_gives plain_token_simps ..

lemma json_tokens_array:
  "json_tokens lo (JArr (j # js)) = Token OPEN_SQUARE # json_tokens lo j @ concat (map (\<lambda>j. Token COMMA # json_tokens lo j) js) @ [Token CLOSE_SQUARE]"
  by simp

lemma json_tokens_object:
  "json_tokens lo (JObj (x # xs)) =
     Token OPEN_CURLY # member_tokens lo x @ concat (map (\<lambda>x. Token COMMA # member_tokens lo x) xs) @ [Token CLOSE_CURLY]"
proof -
  have "(\<lambda>(k, j). Token COMMA # new_string lo k # Token COLON # json_tokens lo j) = (\<lambda>x. Token COMMA # member_tokens lo x)"
    by (auto simp: fun_eq_iff member_tokens_def)
  then show ?thesis by (cases x) (simp add: member_tokens_def)
qed

lemma array_gives:
  assumes "ahead fp s (tl (json_tokens lo (JArr js)) @ l)" "\<forall>j \<in> set js. reads_value fp lo pv j" "length js + 2 \<le> n"
  shows "gives (parse_array fp pv n) s (\<lambda>v s'. json_of v = Some (JArr js) \<and> ahead fp s' l \<and> kept s s')"
proof (cases js)
  case Nil
  obtain o' where "pc_line_origin s = Inr o'" using line_origin_gives assms(1) by blast
  moreover have "gives (next_token_ignoring_newline fp n) s (\<lambda>x s'. x = plain_token (Token CLOSE_SQUARE) \<and> ahead fp s' l \<and> kept s s')"
    using assms Nil by (intro next_plain) auto
  ultimately show ?thesis
    using Nil by (auto simp: parse_array_def no_consolidation [OF assms(1)] new_list_gives elim!: gives_weaken)
next
  case (Cons j js')
  let ?rest = "concat (map (\<lambda>j. Token COMMA # json_tokens lo j) js') @ Token CLOSE_SQUARE # l"
  obtain o' where o': "pc_line_origin s = Inr o'" using line_origin_gives assms(1) by blast
  have "ahead fp s (json_tokens lo j @ ?rest)" using assms(1) Cons by simp
  then have "ahead fp s (hd (json_tokens lo j) # tl (json_tokens lo j) @ ?rest)"
    by (metis append_Cons json_tokens_opens(1))
  then have first: "gives (next_token_ignoring_newline fp n) s
      (\<lambda>x s'. x = plain_token (hd (json_tokens lo j)) \<and> ahead fp s' (tl (json_tokens lo j) @ ?rest) \<and> kept s s')"
    using assms(3) json_tokens_opens(3) by (intro next_plain) auto
  have rest: "gives (parse_then (pv (plain_token (hd (json_tokens lo j)))) (\<lambda>v. array_loop fp pv n o' [v])) s1
      (\<lambda>v s'. json_of v = Some (JArr js) \<and> ahead fp s' l \<and> kept s s')"
    if a: "ahead fp s1 (tl (json_tokens lo j) @ ?rest)" "kept s s1" for s1
  proof -
    have "gives (pv (plain_token (hd (json_tokens lo j)))) s1 (\<lambda>v s'. json_of v = Some j \<and> ahead fp s' ?rest \<and> kept s1 s')"
      using assms(2) a(1) Cons by (auto simp: reads_value_def)
    then show ?thesis
    proof (rule gives_bind, goal_cases)
      case (1 v s2)
      then have "gives (array_loop fp pv n o' [v]) s2 (\<lambda>v s'. json_of v = Some (JArr ([j] @ js')) \<and> ahead fp s' l \<and> kept s2 s')"
        using assms(2,3) Cons by (intro array_loop_gives) auto
      then show ?case
        by (rule gives_weaken) (use 1 a(2) Cons in \<open>auto intro: kept_trans\<close>)
    qed
  qed
  have closed: "hd (json_tokens lo j) \<noteq> Token CLOSE_SQUARE"
    using json_tokens_opens(2) [of lo j] by (auto simp: opens_value_def)
  show ?thesis
    unfolding parse_array_def gives_then gives_get o' gives_exc no_consolidation [OF assms(1)]
  proof (rule gives_weaken [OF first], goal_cases)
    case (1 x s1)
    then show ?case using rest [of s1] closed json_tokens_opens(2) [of lo j] by simp
  qed
qed

lemma object_gives:
  assumes "ahead fp s (tl (json_tokens lo (JObj ms)) @ l)" "\<forall>(k, j) \<in> set ms. reads_value fp lo pv j" "length ms + 2 \<le> n"
    "distinct (map fst ms)"
  shows "gives (parse_object inc fp pv n True) s (\<lambda>v s'. json_of v = Some (JObj ms) \<and> ahead fp s' l \<and> kept s s')"
proof -
  obtain o' where o': "pc_line_origin s = Inr o'" using line_origin_gives assms(1) by blast
  have "gives (object_loop inc fp pv n True o' [] False None False) s (\<lambda>v s'. json_of v = Some (JObj ms) \<and> ahead fp s' l \<and> kept s s')"
  proof (cases ms)
    case Nil
    obtain m where n: "n = Suc m" "0 < m" using assms(3) by (cases n) auto
    have "gives (next_token_ignoring_newline fp m) s (\<lambda>x s'. x = plain_token (Token CLOSE_CURLY) \<and> ahead fp s' l \<and> kept s s')"
      using assms(1) Nil n(2) by (intro next_plain) auto
    then show ?thesis
      using Nil unfolding n(1) object_loop.simps by (auto simp: new_object_gives elim!: gives_weaken)
  next
    case (Cons x xs)
    then show ?thesis
      using object_loop_gives [of fp s lo x xs l pv n "[]" "[]" inc o' False None False] assms
      by (simp add: json_tokens_object)
  qed
  then show ?thesis by (simp add: parse_object_def o')
qed

lemma items_length:
  "x \<in> set xs \<Longrightarrow> length (f x) < length (concat (map (\<lambda>x. c # f x) xs))" "length xs \<le> length (concat (map (\<lambda>x. c # f x) xs))"
  by (induction xs) auto

lemma json_tokens_length:
  "j \<in> set js \<Longrightarrow> length (json_tokens lo j) < length (json_tokens lo (JArr js))"
  "length js + 2 \<le> length (json_tokens lo (JArr js))"
  "(k, j) \<in> set ms \<Longrightarrow> length (json_tokens lo j) < length (json_tokens lo (JObj ms))"
  "length ms + 2 \<le> length (json_tokens lo (JObj ms))"
proof -
  obtain t ts where n: "json_tokens lo (hd js) = t # ts" using json_tokens_opens(1) by blast
  show "j \<in> set js \<Longrightarrow> length (json_tokens lo j) < length (json_tokens lo (JArr js))"
    using items_length(1) [of j "tl js" "json_tokens lo" "Token COMMA"] by (cases js) auto
  show "length js + 2 \<le> length (json_tokens lo (JArr js))"
    using items_length(2) [where f = "json_tokens lo" and c = "Token COMMA" and xs = "tl js"] n by (cases js) auto
  have m: "length (json_tokens lo j) < length (member_tokens lo (k, j))" for k j by (simp add: member_tokens_def)
  show "(k, j) \<in> set ms \<Longrightarrow> length (json_tokens lo j) < length (json_tokens lo (JObj ms))"
    using items_length(1) [of "(k, j)" "tl ms" "member_tokens lo" "Token COMMA"] m [of j k]
    by (cases ms) (auto simp: json_tokens_object simp del: json_tokens.simps)
  show "length ms + 2 \<le> length (json_tokens lo (JObj ms))"
    using items_length(2) [where f = "member_tokens lo" and c = "Token COMMA" and xs = "tl ms"] m [of "snd (hd ms)" "fst (hd ms)"]
    by (cases ms) (auto simp: json_tokens_object simp del: json_tokens.simps(8))
qed

lemma reads_token:
  assumes "json_tokens lo j = [ValueToken v]" "json_of v = Some j" "0 < d"
  shows "reads_value fp lo (parse_value inc fp n d) j"
proof -
  obtain d' where d: "d = Suc d'" using assms(3) by (cases d) auto
  show ?thesis
    unfolding reads_value_def assms(1) d list.sel parse_value_gives using assms(2) by (simp add: get_value_def)
qed

lemma reads_json:
  "json_ok j \<Longrightarrow> length (json_tokens lo j) \<le> d \<Longrightarrow> length (json_tokens lo j) \<le> n \<Longrightarrow>
   reads_value fp lo (parse_value inc fp n d) j"
proof (induction j arbitrary: d)
  case (JArr js)
  obtain d' where d: "d = Suc d'" using JArr.prems(2) json_tokens_length(2) [of js lo] by (cases d) auto
  have hd: "hd (json_tokens lo (JArr js)) = Token OPEN_SQUARE" by (cases js) auto
  have "reads_value fp lo (parse_value inc fp n d') j" if "j \<in> set js" for j
    using JArr that json_tokens_length(1) [OF that, of lo] d by (auto simp: list_all_iff)
  moreover have "length js + 2 \<le> n" using JArr.prems(3) json_tokens_length(2) [of js lo] by simp
  ultimately show ?case
    unfolding reads_value_def [of _ _ _ "JArr js"] d hd parse_value_gives using array_gives [of fp _ lo js] by simp
next
  case (JObj ms)
  obtain d' where d: "d = Suc d'" using JObj.prems(2) json_tokens_length(4) [of ms lo] by (cases d) auto
  have hd: "hd (json_tokens lo (JObj ms)) = Token OPEN_CURLY" by (cases ms) auto
  have "reads_value fp lo (parse_value inc fp n d') j" if "(k, j) \<in> set ms" for k j
    using JObj that json_tokens_length(3) [OF that, of lo] d by (fastforce simp: list_all_iff)
  then have "\<forall>(k, j) \<in> set ms. reads_value fp lo (parse_value inc fp n d') j" by blast
  moreover have "length ms + 2 \<le> n" using JObj.prems(3) json_tokens_length(4) [of ms lo] by simp
  ultimately show ?case
    unfolding reads_value_def [of _ _ _ "JObj ms"] d hd parse_value_gives using object_gives [of fp _ lo ms] JObj.prems(1) by simp
qed (auto simp: new_null_def new_boolean_def new_int64_def new_string_def number_token_json intro: reads_token)

subsection \<open>Reading the text back\<close>

lemma scans_length: "scans lo s l \<Longrightarrow> length l \<le> length s + 1"
proof (induction rule: scans.induct)
  case (scans_string x s l)
  then show ?case by (simp add: render_json_string_def)
next
  case (scans_literal w s l)
  then have "w \<noteq> []" by (auto simp: literals_def)
  with scans_literal.IH show ?case by (cases w) auto
next
  case (scans_int i s l)
  with int_text_chars(2) [of i] show ?case by (cases "show_int i") auto
qed auto

definition is_root :: "json \<Rightarrow> bool" where
  "is_root j = (case j of JArr _ \<Rightarrow> True | JObj _ \<Rightarrow> True | _ \<Rightarrow> False)"

lemma context_gives:
  assumes "ahead fp s (Token START # json_tokens lo j @ [Token END])" "json_ok j" "is_root j" "length (json_tokens lo j) \<le> n"
  shows "gives (context_parse inc fp n) s (\<lambda>v s'. json_of v = Some j)"
proof -
  let ?t = "hd (json_tokens lo j)"
  obtain t ts where "json_tokens lo j = t # ts" using json_tokens_opens(1) by blast
  then have n: "0 < n" using assms(4) by simp
  have root: "?t = Token OPEN_CURLY \<or> ?t = Token OPEN_SQUARE"
    using assms(3) by (cases "(lo, j)" rule: json_tokens.cases) (auto simp: is_root_def)
  have start: "gives (next_token_ignoring_newline fp n) s (\<lambda>x s'. x = plain_token (Token START) \<and> ahead fp s' (json_tokens lo j @ [Token END]) \<and> kept s s')"
    using assms(1) n by (intro next_plain) auto
  show ?thesis
    unfolding context_parse_def
  proof (rule gives_bind [OF start], goal_cases)
    case (1 x s1)
    then have "ahead fp s1 (?t # tl (json_tokens lo j) @ [Token END])" by (metis append_Cons json_tokens_opens(1))
    then have second: "gives (next_token_ignoring_newline fp n) s1 (\<lambda>x s'. x = plain_token ?t \<and> ahead fp s' (tl (json_tokens lo j) @ [Token END]) \<and> kept s1 s')"
      using n json_tokens_opens(3) by (intro next_plain)
    have body: "gives (parse_value inc fp n n (plain_token ?t)) s2 (\<lambda>v s'. json_of v = Some j \<and> ahead fp s' [Token END])"
      if "ahead fp s2 (tl (json_tokens lo j) @ [Token END])" for s2
      using reads_json [OF assms(2,4,4), of fp inc] that by (auto simp: reads_value_def elim!: gives_weaken)
    have last: "gives (next_token_ignoring_newline fp n) s3 (\<lambda>x s'. x = plain_token (Token END))" if "ahead fp s3 [Token END]" for s3
      using next_plain [OF that _ n] by (auto elim!: gives_weaken)
    have "gives (parse_then (parse_value inc fp n n (plain_token ?t)) (\<lambda>v. parse_then (next_token_ignoring_newline fp n)
        (\<lambda>t'. if twc_token t' = Token END then parse_return v else q t'))) s2 (\<lambda>v s'. json_of v = Some j)"
      if "ahead fp s2 (tl (json_tokens lo j) @ [Token END])" for s2 q
      by (rule gives_bind [OF body [OF that]], rule gives_bind [OF last]) auto
    note rest = this
    have "twc_token x = Token START" using 1 by simp
    then show ?case
      unfolding gives_then [of "parse_get pc_flavor"] gives_get
      by simp (rule gives_weaken [OF second], use rest [unfolded gives_then] root in auto)
  qed
qed

lemma tokenize_ahead:
  assumes "origin_named orig" "scans (orig\<lparr>line_no := 1, end_line_no := 1\<rparr>) s l"
  shows "\<exists>ts. tokenize orig (StringReader (new_string_reader s)) JSON = Inr ts \<and>
           ahead fp (new_context JSON orig (StreamIterator ts)) (Token START # l)"
proof -
  let ?lo = "orig\<lparr>line_no := 1, end_line_no := 1\<rparr>"
  let ?ts = "\<lparr>ts_origin = orig, input = StringReader (new_string_reader s), allow_comments = False, line_number = 1,
     line_origin = ?lo, tokens = [Token START], buffer = [], whitespace_saver = new_saver\<rparr>"
  have "desc orig \<noteq> []" using assms(1) named_text_not_Nil by (auto simp: origin_named_def)
  then have "tokenize orig (StringReader (new_string_reader s)) JSON = Inr ?ts"
    by (auto simp: tokenize_def new_token_stream_def set_line_number_def make_origin_def)
  moreover have "at_text 2 ?ts s"
    by (auto simp: at_text_def pending_def new_string_reader_def string_rest_def intro: exI [of _ 0])
  then have "yields fp (StreamIterator ?ts) (Token START # l)"
    using assms(2) by (intro scans_yields) (auto simp: new_saver_def)
  then have "ahead fp (new_context JSON orig (StreamIterator ?ts)) (Token START # l)"
    using assms(1) by (auto simp: ahead_def new_context_def)
  ultimately show ?thesis by blast
qed

text \<open>
  C3: a value without doubles and without anything unresolved, an object or a list at the
  root, is rendered concisely to a text which the tokenizer and the parser read back, as JSON and
  with any origin, to a value that says the same document: the same members in the same
  order, the same elements, strings, numbers, booleans and nulls.  The number of
  rounds the parser needs is at most one more than the length of the text.
\<close>

theorem render_parse_round_trip:
  assumes "json_of v = Some j" and "json_ok j" and "is_root j" and "origin_named orig" and "length (json_text j) < n"
  shows "\<exists>text ts w s. render fp render_concise v = Inr text \<and>
     tokenize orig (StringReader (new_string_reader text)) JSON = Inr ts \<and>
     context_parse inc fp n (new_context JSON orig (StreamIterator ts)) = Inr (w, s) \<and> json_of w = Some j"
proof -
  let ?lo = "orig\<lparr>line_no := 1, end_line_no := 1\<rparr>"
  have sc: "scans ?lo (json_text j) (json_tokens ?lo j @ [Token END])"
    using scans_json [OF assms(2) scans_end, of ?lo] by (simp add: follows_def)
  obtain ts where ts: "tokenize orig (StringReader (new_string_reader (json_text j))) JSON = Inr ts"
    "ahead fp (new_context JSON orig (StreamIterator ts)) (Token START # json_tokens ?lo j @ [Token END])"
    using tokenize_ahead [OF assms(4) sc] by blast
  have "length (json_tokens ?lo j) \<le> n" using scans_length [OF sc] assms(5) by simp
  from context_gives [OF ts(2) assms(2,3) this, of inc] ts(1) show ?thesis
    using render_json [OF assms(1)] by (auto simp: gives_def render_def)
qed

definition sample_document :: config_value where
  "sample_document = SimpleConfigObject sample_origin
     [(''a'', SimpleConfigList sample_origin [ConfigInt sample_origin (-7) [], ConfigNull sample_origin, ConfigBoolean sample_origin True] RESOLVED),
      (''b'', ConfigString sample_origin ''x y'')] RESOLVED False"

theorem render_parse_round_trip_witness:
  "\<exists>text ts w s. render no_doubles render_concise sample_document = Inr text \<and>
     tokenize sample_origin (StringReader (new_string_reader text)) JSON = Inr ts \<and>
     context_parse empty_includer no_doubles 100 (new_context JSON sample_origin (StreamIterator ts)) = Inr (w, s) \<and>
     json_of w = Some (JObj [(''a'', JArr [JNum (-7), JNull, JBool True]), (''b'', JStr ''x y'')])"
proof (rule render_parse_round_trip)
  show "length (json_text (JObj [(''a'', JArr [JNum (-7), JNull, JBool True]), (''b'', JStr ''x y'')])) < 100"
    by code_simp
qed (simp_all add: sample_document_def is_root_def int64_min_def int64_max_def)

end
