(* ===== verification/Config_Loading.thy ===== *)
theory Config_Loading
  imports Config_Parser
begin

section \<open>Loading (config/src/detail/parseable.cpp, simple_includer.cpp, config_parse_options.cpp, config.cpp)\<close>

text \<open>
  What can be parsed, the options it is parsed with, the includers, and the search for a file by its
  base name.  An include statement parses another file while the first is being parsed; the
  source keeps the nested parses in a static stack and gives up at fifty, so the
  model recurses over the number of levels left.  The file system and the path functions
  of boost are fields of \<open>loader\<close>, as are the includers of the application.
\<close>

subsection \<open>Includers and options\<close>

text \<open>An includer of the application is known by its number.\<close>

datatype includer = SimpleIncluder "includer option" | FullIncluderProxy includer | AppIncluder nat

record parse_options =
  po_syntax :: config_syntax
  po_origin_description :: string
  po_allow_missing :: bool
  po_includer :: "includer option"

record app_includer =
  app_include :: "string \<Rightarrow> tok_exception + config_value"
  app_include_file :: "(string \<Rightarrow> tok_exception + config_value) option"
  app_with_fallback :: "includer \<Rightarrow> includer"

record loader =
  ld_fp :: fp_text
  ld_contents :: "string \<Rightarrow> string option"
  ld_exists :: "string \<Rightarrow> bool"
  ld_has_root_directory :: "string \<Rightarrow> bool"
  ld_parent_path :: "string \<Rightarrow> string"
  ld_append :: "string \<Rightarrow> string \<Rightarrow> string"
  ld_directory_string :: "string \<Rightarrow> string"
  ld_app :: "nat \<Rightarrow> app_includer"

definition parse_options_defaults :: parse_options where
  "parse_options_defaults =
     \<lparr>po_syntax = SYNTAX_NONE, po_origin_description = [], po_allow_missing = True, po_includer = None\<rparr>"

definition set_syntax :: "config_syntax \<Rightarrow> parse_options \<Rightarrow> parse_options" where
  "set_syntax v opts = (if po_syntax opts = v then opts else opts\<lparr>po_syntax := v\<rparr>)"

definition set_origin_description :: "string \<Rightarrow> parse_options \<Rightarrow> parse_options" where
  "set_origin_description v opts =
     (if po_origin_description opts = v then opts else opts\<lparr>po_origin_description := v\<rparr>)"

definition with_fallback_origin_description :: "string \<Rightarrow> parse_options \<Rightarrow> parse_options" where
  "with_fallback_origin_description v opts =
     (if po_origin_description opts = [] then set_origin_description v opts else opts)"

definition set_allow_missing :: "bool \<Rightarrow> parse_options \<Rightarrow> parse_options" where
  "set_allow_missing v opts = (if po_allow_missing opts = v then opts else opts\<lparr>po_allow_missing := v\<rparr>)"

definition set_includer :: "includer \<Rightarrow> parse_options \<Rightarrow> parse_options" where
  "set_includer v opts = (if po_includer opts = Some v then opts else opts\<lparr>po_includer := Some v\<rparr>)"

text \<open>
  The source compares includers as pointers.  Only the default includer has no fallback, so
  that equality here is identity for it.
\<close>

definition default_includer :: includer where
  "default_includer = SimpleIncluder None"

fun includer_with_fallback :: "loader \<Rightarrow> includer \<Rightarrow> includer \<Rightarrow> config_exception + includer" where
  "includer_with_fallback ld (SimpleIncluder fb) other =
     (if SimpleIncluder fb = other then Inl (ConfigExceptionBugOrBroken ''trying to create includer cycle'')
      else if fb = Some other then Inr (SimpleIncluder fb)
      else case fb of
             Some f \<Rightarrow> bind_exc (includer_with_fallback ld f other) (\<lambda>x. Inr (SimpleIncluder (Some x)))
           | None \<Rightarrow> Inr (SimpleIncluder (Some other)))"
| "includer_with_fallback ld (FullIncluderProxy d) other = Inr (FullIncluderProxy d)"
| "includer_with_fallback ld (AppIncluder i) other = Inr (app_with_fallback (ld_app ld i) other)"

definition prepend_includer :: "loader \<Rightarrow> includer \<Rightarrow> parse_options \<Rightarrow> config_exception + parse_options" where
  "prepend_includer ld inc opts =
     (case po_includer opts of
        None \<Rightarrow> Inr (set_includer inc opts)
      | Some i \<Rightarrow> if i = inc then Inr opts
                  else bind_exc (includer_with_fallback ld inc i) (\<lambda>x. Inr (set_includer x opts)))"

definition append_includer :: "loader \<Rightarrow> includer \<Rightarrow> parse_options \<Rightarrow> config_exception + parse_options" where
  "append_includer ld inc opts =
     (case po_includer opts of
        None \<Rightarrow> Inr (set_includer inc opts)
      | Some i \<Rightarrow> if i = inc then Inr opts
                  else bind_exc (includer_with_fallback ld i inc) (\<lambda>x. Inr (set_includer x opts)))"

fun make_full :: "includer \<Rightarrow> includer" where
  "make_full (AppIncluder i) = FullIncluderProxy (AppIncluder i)"
| "make_full inc = inc"

definition clear_for_include :: "parse_options \<Rightarrow> parse_options" where
  "clear_for_include opts = set_allow_missing True (set_origin_description [] (set_syntax SYNTAX_NONE opts))"

subsection \<open>What can be parsed\<close>

datatype parse_source =
    ParseableNotFound string string
  | ParseableReader reader
  | ParseableString string
  | ParseableFile string

record parseable =
  p_source :: parse_source
  p_options :: parse_options
  p_origin :: config_origin

definition syntax_from_extension :: "string \<Rightarrow> config_syntax" where
  "syntax_from_extension name =
     (if ends_with name ''.json'' then JSON else if ends_with name ''.conf'' then CONF else SYNTAX_NONE)"

fun guess_syntax :: "parse_source \<Rightarrow> config_syntax" where
  "guess_syntax (ParseableFile f) = syntax_from_extension f"
| "guess_syntax _ = SYNTAX_NONE"

definition fixup_options :: "loader \<Rightarrow> parse_source \<Rightarrow> parse_options \<Rightarrow> config_exception + parse_options" where
  "fixup_options ld src base =
     (let given = po_syntax base;
          guessed = (if given = SYNTAX_NONE then guess_syntax src else given);
          syntax = (if guessed = SYNTAX_NONE then CONF else guessed)
      in bind_exc (append_includer ld default_includer (set_syntax syntax base)) (\<lambda>modified.
           case po_includer modified of
             None \<Rightarrow> Inl NullPointer
           | Some i \<Rightarrow> Inr (set_includer (make_full i) modified)))"

fun create_origin :: "parse_source \<Rightarrow> config_exception + config_origin" where
  "create_origin (ParseableNotFound what message) = new_simple what"
| "create_origin (ParseableReader r) = new_simple ''reader''"
| "create_origin (ParseableString s) = new_simple ''string''"
| "create_origin (ParseableFile f) = new_file f"

definition new_parseable :: "loader \<Rightarrow> parse_source \<Rightarrow> parse_options \<Rightarrow> config_exception + parseable" where
  "new_parseable ld src base =
     bind_exc (fixup_options ld src base) (\<lambda>opts.
     bind_exc (if po_origin_description opts \<noteq> [] then new_simple (po_origin_description opts) else create_origin src) (\<lambda>orig.
       Inr \<lparr>p_source = src, p_options = opts, p_origin = orig\<rparr>))"

fun source_to_string :: "parse_source \<Rightarrow> string" where
  "source_to_string (ParseableNotFound what message) = ''ParseableNotFound''"
| "source_to_string (ParseableReader r) = ''ParseableReader''"
| "source_to_string (ParseableString s) = ''ParseableString('' @ s @ '')''"
| "source_to_string (ParseableFile f) = ''ParseableFile('' @ f @ '')''"

fun open_source :: "loader \<Rightarrow> parse_source \<Rightarrow> config_exception + reader" where
  "open_source ld (ParseableNotFound what message) = Inl (ConfigExceptionIO (message @ '' not found''))"
| "open_source ld (ParseableReader r) = Inr r"
| "open_source ld (ParseableString s) = Inr (StringReader (new_string_reader s))"
| "open_source ld (ParseableFile f) = bind_exc (new_file_reader (ld_contents ld f) f) (\<lambda>r. Inr (FileReader r))"

definition relative_name :: "loader \<Rightarrow> string \<Rightarrow> string \<Rightarrow> string" where
  "relative_name ld file file_name =
     (if ld_has_root_directory ld file_name then []
      else let parent = ld_parent_path ld file
           in if parent = [] then [] else ld_directory_string ld (ld_append ld parent file_name))"

definition relative_not_found :: "loader \<Rightarrow> parseable \<Rightarrow> string \<Rightarrow> config_exception + parseable option" where
  "relative_not_found ld p file_name =
     bind_exc (new_parseable ld (ParseableNotFound file_name (''filename was not found: '' @ in_single_quotes file_name)) (p_options p))
       (\<lambda>q. Inr (Some q))"

definition relative_to :: "loader \<Rightarrow> parseable \<Rightarrow> string \<Rightarrow> config_exception + parseable option" where
  "relative_to ld p file_name =
     (case p_source p of
        ParseableFile file \<Rightarrow>
          (let sibling = (if ld_has_root_directory ld file_name then file_name else relative_name ld file file_name)
           in if sibling = [] then Inr None
              else if ld_exists ld (ld_directory_string ld sibling)
              then bind_exc (new_parseable ld (ParseableFile (ld_directory_string ld sibling))
                              (set_origin_description [] (p_options p))) (\<lambda>q. Inr (Some q))
              else relative_not_found ld p file_name)
      | _ \<Rightarrow> relative_not_found ld p file_name)"

definition force_parsed_to_object :: "config_value \<Rightarrow> config_exception + config_value" where
  "force_parsed_to_object v =
     (if is_object v then Inr v
      else bind_exc (value_type v) (\<lambda>t.
             Inl (ConfigExceptionWrongType (Some (value_origin v)) [] ''object at file root'' (value_type_name t))))"

definition make_empty_missing :: "config_origin \<Rightarrow> config_exception + config_value" where
  "make_empty_missing base = bind_exc (new_simple (description base @ '' (not found)'')) (\<lambda>orig. new_object orig [])"

subsection \<open>Searching by name, and the includers\<close>

text \<open>
  \<open>parse\<close> is the parse of a nested file.  A name is looked up relative to the file that
  includes it, or as it is.
\<close>

type_synonym nested_parse = "parseable \<Rightarrow> parse_options \<Rightarrow> tok_exception + config_value"

datatype name_source = RelativeNameSource parseable | FileNameSource

fun name_to_parseable :: "loader \<Rightarrow> name_source \<Rightarrow> string \<Rightarrow> parse_options \<Rightarrow> config_exception + parseable" where
  "name_to_parseable ld (RelativeNameSource p) name opts =
     bind_exc (relative_to ld p name) (\<lambda>r.
       case r of
         Some q \<Rightarrow> Inr q
       | None \<Rightarrow> new_parseable ld (ParseableNotFound name (''include was not found: '' @ in_single_quotes name)) opts)"
| "name_to_parseable ld FileNameSource name opts = new_parseable ld (ParseableFile name) opts"

text \<open>One of the two tries of a base name: the object so far, whether something was found, and the messages.\<close>

definition catch_io :: "tok_exception + 'a \<Rightarrow> (string \<Rightarrow> tok_exception + 'a) \<Rightarrow> tok_exception + 'a" where
  "catch_io m h = (case m of Inl (TokException (ConfigExceptionIO msg)) \<Rightarrow> h msg | _ \<Rightarrow> m)"

definition try_conf ::
  "nested_parse \<Rightarrow> parseable \<Rightarrow> config_syntax \<Rightarrow> config_value \<Rightarrow> tok_exception + config_value \<times> bool \<times> string list" where
  "try_conf parse conf_handle syntax obj =
     (if syntax = SYNTAX_NONE \<or> syntax = CONF
      then catch_io (bind_exc (parse conf_handle (set_syntax CONF (set_allow_missing False (p_options conf_handle))))
                       (\<lambda>v. Inr (v, True, []))) (\<lambda>msg. Inr (obj, False, [msg]))
      else Inr (obj, False, []))"

definition try_json ::
  "nested_parse \<Rightarrow> parseable \<Rightarrow> config_syntax \<Rightarrow> config_value \<times> bool \<times> string list
   \<Rightarrow> tok_exception + config_value \<times> bool \<times> string list" where
  "try_json parse json_handle syntax found =
     (case found of (obj, got, messages) \<Rightarrow>
        if syntax = SYNTAX_NONE \<or> syntax = JSON
        then catch_io (bind_exc (parse json_handle (set_syntax JSON (set_allow_missing False (p_options json_handle)))) (\<lambda>parsed.
                         bind_exc (lift_exc (merge obj parsed)) (\<lambda>v. Inr (v, True, messages))))
                      (\<lambda>msg. Inr (obj, got, messages @ [msg]))
        else Inr (obj, got, messages))"

definition join_messages :: "string list \<Rightarrow> string" where
  "join_messages messages = (let s = concat (map (\<lambda>m. m @ '', '') messages) in take (length s - 2) s)"

definition from_basename ::
  "loader \<Rightarrow> nested_parse \<Rightarrow> name_source \<Rightarrow> string \<Rightarrow> parse_options \<Rightarrow> tok_exception + config_value" where
  "from_basename ld parse source name opts =
     (if ends_with name ''.conf'' \<or> ends_with name ''.json''
      then bind_exc (lift_exc (name_to_parseable ld source name opts)) (\<lambda>p.
             parse p (set_allow_missing (po_allow_missing opts) (p_options p)))
      else bind_exc (lift_exc (name_to_parseable ld source (name @ ''.conf'') opts)) (\<lambda>conf_handle.
           bind_exc (lift_exc (name_to_parseable ld source (name @ ''.json'') opts)) (\<lambda>json_handle.
           bind_exc (lift_exc (new_simple name)) (\<lambda>orig.
           bind_exc (lift_exc (new_object orig [])) (\<lambda>empty.
           bind_exc (try_conf parse conf_handle (po_syntax opts) empty) (\<lambda>found.
           bind_exc (try_json parse json_handle (po_syntax opts) found) (\<lambda>(obj, got_something, messages).
             if \<not> po_allow_missing opts \<and> \<not> got_something
             then if messages = []
                  then Inl (TokException (ConfigExceptionBugOrBroken ''should not be reached: nothing found but no exceptions thrown''))
                  else Inl (TokException (ConfigExceptionIO (description orig @ '': '' @ join_messages messages)))
             else Inr obj)))))))"

definition include_without_fallback :: "loader \<Rightarrow> nested_parse \<Rightarrow> parseable \<Rightarrow> string \<Rightarrow> tok_exception + config_value" where
  "include_without_fallback ld parse p name =
     from_basename ld parse (RelativeNameSource p) name (clear_for_include (p_options p))"

definition include_file_without_fallback :: "loader \<Rightarrow> nested_parse \<Rightarrow> parseable \<Rightarrow> string \<Rightarrow> tok_exception + config_value" where
  "include_file_without_fallback ld parse p file =
     from_basename ld parse FileNameSource file (clear_for_include (p_options p))"

definition merge_fallback :: "tok_exception + config_value \<Rightarrow> tok_exception + config_value \<Rightarrow> tok_exception + config_value" where
  "merge_fallback obj other = bind_exc obj (\<lambda>v. bind_exc other (\<lambda>w. lift_exc (merge v w)))"

fun includer_include :: "loader \<Rightarrow> nested_parse \<Rightarrow> parseable \<Rightarrow> includer \<Rightarrow> string \<Rightarrow> tok_exception + config_value" where
  "includer_include ld parse p (SimpleIncluder fb) name =
     (case fb of
        None \<Rightarrow> include_without_fallback ld parse p name
      | Some f \<Rightarrow> merge_fallback (include_without_fallback ld parse p name) (includer_include ld parse p f name))"
| "includer_include ld parse p (FullIncluderProxy d) name = includer_include ld parse p d name"
| "includer_include ld parse p (AppIncluder i) name = app_include (ld_app ld i) name"

text \<open>\<open>None\<close>: the includer cannot include files.\<close>

fun includer_include_file ::
  "loader \<Rightarrow> nested_parse \<Rightarrow> parseable \<Rightarrow> includer \<Rightarrow> (string \<Rightarrow> tok_exception + config_value) option" where
  "includer_include_file ld parse p (SimpleIncluder fb) =
     Some (\<lambda>file. case fb of
        None \<Rightarrow> include_file_without_fallback ld parse p file
      | Some f \<Rightarrow> (case includer_include_file ld parse p f of
                     None \<Rightarrow> include_file_without_fallback ld parse p file
                   | Some g \<Rightarrow> merge_fallback (include_file_without_fallback ld parse p file) (g file)))"
| "includer_include_file ld parse p (FullIncluderProxy d) =
     Some (\<lambda>file. case includer_include_file ld parse p d of
        None \<Rightarrow> include_file_without_fallback ld parse p file
      | Some g \<Rightarrow> g file)"
| "includer_include_file ld parse p (AppIncluder i) = app_include_file (ld_app ld i)"

definition context_includer :: "loader \<Rightarrow> nested_parse \<Rightarrow> parseable \<Rightarrow> includer \<Rightarrow> full_includer" where
  "context_includer ld parse p inc =
     \<lparr>include_any = includer_include ld parse p inc,
      include_file = (\<lambda>file. case includer_include_file ld parse p inc of
                         None \<Rightarrow> Inl (TokException NullPointer)
                       | Some g \<Rightarrow> g file)\<rparr>"

subsection \<open>Parsing\<close>

text \<open>The rounds of the parser: more than twice the size of the text and four.\<close>

definition parse_rounds :: "reader \<Rightarrow> nat" where
  "parse_rounds rd = 2 * reader_size rd + 5"

definition raw_parse_value ::
  "loader \<Rightarrow> full_includer \<Rightarrow> parseable \<Rightarrow> config_origin \<Rightarrow> parse_options \<Rightarrow> tok_exception + config_value" where
  "raw_parse_value ld inc p orig opts =
     bind_exc (lift_exc (open_source ld (p_source p))) (\<lambda>rd.
     bind_exc (lift_exc (tokenize orig rd (po_syntax opts))) (\<lambda>ts.
       map_sum id fst (context_parse inc (ld_fp ld) (parse_rounds rd)
         (new_context (po_syntax opts) orig (StreamIterator ts)))))"

definition parse_value_final ::
  "loader \<Rightarrow> full_includer \<Rightarrow> parseable \<Rightarrow> config_origin \<Rightarrow> parse_options \<Rightarrow> tok_exception + config_value" where
  "parse_value_final ld inc p orig opts =
     catch_io (raw_parse_value ld inc p orig opts) (\<lambda>msg.
       if po_allow_missing opts then lift_exc (make_empty_missing orig)
       else Inl (TokException (ConfigExceptionIO (description orig @ '': '' @ msg))))"

text \<open>\<open>full\<close> makes the includer of the options one for the file that is parsed.\<close>

definition parse_value_with ::
  "loader \<Rightarrow> (includer \<Rightarrow> full_includer) \<Rightarrow> parseable \<Rightarrow> parse_options \<Rightarrow> tok_exception + config_value" where
  "parse_value_with ld full p base =
     bind_exc (lift_exc (fixup_options ld (p_source p) base)) (\<lambda>opts.
     bind_exc (lift_exc (if po_origin_description opts \<noteq> [] then new_simple (po_origin_description opts) else Inr (p_origin p))) (\<lambda>orig.
       case po_includer opts of
         None \<Rightarrow> Inl (TokException NullPointer)
       | Some inc \<Rightarrow> parse_value_final ld (full (make_full inc)) p orig opts))"

definition MAX_INCLUDE_DEPTH :: nat where "MAX_INCLUDE_DEPTH = 50"

definition too_deep :: "parseable list \<Rightarrow> string" where
  "too_deep stack =
     (let s = ''include statements nested more than '' @ show_nat MAX_INCLUDE_DEPTH @
              '' times, you probably have a cycle in your includes. _trace: '' @
              concat (map (\<lambda>p. source_to_string (p_source p) @ '','' @ [CHR 0x0A]) stack)
      in take (length s - 2) s)"

text \<open>
  \<^verbatim>\<open>parse(options)\<close>, with the parses under way in \<open>stack\<close>; the number of levels left is
  \<^verbatim>\<open>MAX_INCLUDE_DEPTH\<close> less the size of the stack.
\<close>

primrec parse_nested :: "nat \<Rightarrow> loader \<Rightarrow> parseable list \<Rightarrow> nested_parse" where
  "parse_nested 0 ld stack p opts = Inl (TokException (ConfigExceptionParse (p_origin p) (too_deep stack)))"
| "parse_nested (Suc d) ld stack p opts =
     bind_exc (parse_value_with ld (context_includer ld (parse_nested d ld (p # stack)) p) p opts) (\<lambda>v.
       lift_exc (force_parsed_to_object v))"

definition parse_in_stack :: "loader \<Rightarrow> parseable list \<Rightarrow> nested_parse" where
  "parse_in_stack ld stack = parse_nested (MAX_INCLUDE_DEPTH - length stack) ld stack"

text \<open>\<^verbatim>\<open>parse()\<close>, which leaves the stack alone.\<close>

definition parseable_parse :: "loader \<Rightarrow> parseable \<Rightarrow> tok_exception + config_value" where
  "parseable_parse ld p =
     bind_exc (parse_value_with ld (context_includer ld (parse_in_stack ld []) p) p (p_options p)) (\<lambda>v.
       lift_exc (force_parsed_to_object v))"

subsection \<open>The entry points of Config\<close>

definition options_or_defaults :: "parse_options option \<Rightarrow> parse_options" where
  "options_or_defaults opts = (case opts of None \<Rightarrow> parse_options_defaults | Some x \<Rightarrow> x)"

definition parse_source_now :: "loader \<Rightarrow> parse_source \<Rightarrow> parse_options option \<Rightarrow> tok_exception + config_value" where
  "parse_source_now ld src opts =
     bind_exc (lift_exc (new_parseable ld src (options_or_defaults opts))) (parseable_parse ld)"

definition config_parse_reader :: "loader \<Rightarrow> reader \<Rightarrow> parse_options option \<Rightarrow> tok_exception + config_value" where
  "config_parse_reader ld rd opts = parse_source_now ld (ParseableReader rd) opts"

definition config_parse_file :: "loader \<Rightarrow> string \<Rightarrow> parse_options option \<Rightarrow> tok_exception + config_value" where
  "config_parse_file ld file opts = parse_source_now ld (ParseableFile file) opts"

definition config_parse_string :: "loader \<Rightarrow> string \<Rightarrow> parse_options option \<Rightarrow> tok_exception + config_value" where
  "config_parse_string ld s opts = parse_source_now ld (ParseableString s) opts"

definition config_parse_file_any_syntax :: "loader \<Rightarrow> string \<Rightarrow> parse_options option \<Rightarrow> tok_exception + config_value" where
  "config_parse_file_any_syntax ld basename opts =
     from_basename ld (parse_in_stack ld []) FileNameSource basename (options_or_defaults opts)"

end
