(* ===== verification/Load_Agree.thy ===== *)
theory Load_Agree
  imports Config_Loading Parser_Outcome
begin

section \<open>Parsing with an includer that refuses some names\<close>

text \<open>
  The name of a file becomes the description of an origin, and an empty description is
  an internal error.  Parsing is compared with parsing under an includer that refuses such names
  with an exception of its own: as long as that exception is not seen, the two agree.
\<close>

definition unnamed_include :: tok_exception where
  "unnamed_include = TokException (ConfigExceptionParse sample_origin ''include of a file without a name'')"

definition agrees :: "tok_exception + 'a \<Rightarrow> tok_exception + 'a \<Rightarrow> bool" where
  "agrees a b \<longleftrightarrow> a = Inl unnamed_include \<or> a = b"

lemma agrees_refl [simp, intro]: "agrees a a"
  by (simp add: agrees_def)

lemma agrees_bind: "agrees a b \<Longrightarrow> (\<And>x. agrees (f x) (g x)) \<Longrightarrow> agrees (bind_exc a f) (bind_exc b g)"
  unfolding agrees_def by (cases b) (fastforce simp: bind_exc_def)+

lemma agrees_map: "agrees a b \<Longrightarrow> agrees (map_sum id f a) (map_sum id f b)"
  by (auto simp: agrees_def)

lemma agrees_catch: "agrees a b \<Longrightarrow> agrees (catch_io a h) (catch_io b h)"
  by (auto simp: agrees_def catch_io_def unnamed_include_def)

definition agree :: "'a parser \<Rightarrow> 'a parser \<Rightarrow> bool" where
  "agree m m' \<longleftrightarrow> (\<forall>s. agrees (m s) (m' s))"

definition includers_agree :: "full_includer \<Rightarrow> full_includer \<Rightarrow> bool" where
  "includers_agree a b \<longleftrightarrow>
     (\<forall>name. agrees (include_any a name) (include_any b name) \<and> agrees (include_file a name) (include_file b name))"

named_theorems agree_intro

lemma agree_refl [simp, intro, agree_intro]: "agree m m"
  by (simp add: agree_def)

lemma agree_then [agree_intro]:
  assumes "agree m m'" "\<And>x. agree (f x) (f' x)"
  shows "agree (parse_then m f) (parse_then m' f')"
  unfolding agree_def
proof
  fix s
  from assms(1) have "m s = Inl unnamed_include \<or> m s = m' s" by (simp add: agree_def agrees_def)
  moreover have "\<forall>x s. f x s = Inl unnamed_include \<or> f x s = f' x s" using assms(2) by (simp add: agree_def agrees_def)
  ultimately show "agrees (parse_then m f s) (parse_then m' f' s)"
    unfolding parse_then_def agrees_def by (cases "m' s") (fastforce split: prod.splits)+
qed

lemma agree_lift [agree_intro]: "agrees a b \<Longrightarrow> agree (parse_lift a) (parse_lift b)"
  by (auto simp: agree_def agrees_def parse_lift_def split: sum.splits)

lemma agree_if [agree_intro]: "agree a a' \<Longrightarrow> agree b b' \<Longrightarrow> agree (if c then a else b) (if c then a' else b')"
  by simp

lemma agree_option [agree_intro]:
  "agree a a' \<Longrightarrow> (\<And>x. agree (f x) (f' x)) \<Longrightarrow> agree (case o' of None \<Rightarrow> a | Some x \<Rightarrow> f x) (case o' of None \<Rightarrow> a' | Some x \<Rightarrow> f' x)"
  by (cases o') auto

lemma agree_pair [agree_intro]:
  "(\<And>x y. agree (f x y) (f' x y)) \<Longrightarrow> agree (case p of (x, y) \<Rightarrow> f x y) (case p of (x, y) \<Rightarrow> f' x y)"
  by (cases p) auto

lemma included_object_agree: "includers_agree a b \<Longrightarrow> agree (included_object a fp n) (included_object b fp n)"
  unfolding included_object_def by (intro agree_intro) (auto simp: includers_agree_def)

lemma parse_include_agree: "includers_agree a b \<Longrightarrow> agree (parse_include a fp n values) (parse_include b fp n values)"
  unfolding parse_include_def by (intro agree_intro included_object_agree)

lemma consolidate_loop_agree:
  assumes pv: "\<And>t. agree (pv t) (pv' t)"
  shows "agree (consolidate_loop fp pv n vs x t) (consolidate_loop fp pv' n vs x t)"
proof (induction n arbitrary: vs x t)
  case (Suc n)
  show ?case unfolding consolidate_loop.simps Let_def by (intro agree_intro Suc pv)
qed simp

lemma consolidate_value_tokens_agree:
  assumes pv: "\<And>t. agree (pv t) (pv' t)"
  shows "agree (consolidate_value_tokens fp pv n) (consolidate_value_tokens fp pv' n)"
  unfolding consolidate_value_tokens_def by (intro agree_intro consolidate_loop_agree pv)

lemma array_loop_agree:
  assumes pv: "\<And>t. agree (pv t) (pv' t)"
  shows "agree (array_loop fp pv n orig vs) (array_loop fp pv' n orig vs)"
proof (induction n arbitrary: vs)
  case (Suc n)
  show ?case unfolding array_loop.simps by (intro agree_intro consolidate_value_tokens_agree Suc pv)
qed simp

lemma parse_array_agree:
  assumes pv: "\<And>t. agree (pv t) (pv' t)"
  shows "agree (parse_array fp pv n) (parse_array fp pv' n)"
  unfolding parse_array_def by (intro agree_intro consolidate_value_tokens_agree array_loop_agree pv)

lemma parse_member_agree:
  assumes pv: "\<And>t. agree (pv t) (pv' t)"
  shows "agree (parse_member fp pv n t values) (parse_member fp pv' n t values)"
  unfolding parse_member_def member_value_def by (intro agree_intro consolidate_value_tokens_agree pv)

lemma object_loop_agree:
  assumes pv: "\<And>t. agree (pv t) (pv' t)" and inc: "includers_agree a b"
  shows "agree (object_loop a fp pv n h orig vs c lp le) (object_loop b fp pv' n h orig vs c lp le)"
proof (induction n arbitrary: vs c lp le)
  case (Suc n)
  show ?case
    unfolding object_loop.simps by (intro agree_intro parse_include_agree parse_member_agree Suc pv inc)
qed simp

lemma parse_object_agree:
  assumes pv: "\<And>t. agree (pv t) (pv' t)" and inc: "includers_agree a b"
  shows "agree (parse_object a fp pv n h) (parse_object b fp pv' n h)"
  unfolding parse_object_def by (intro agree_intro object_loop_agree pv inc)

lemma parse_value_agree:
  assumes inc: "includers_agree a b"
  shows "agree (parse_value a fp n d t) (parse_value b fp n d t)"
proof (induction d arbitrary: t)
  case (Suc d)
  show ?case
    unfolding parse_value.simps by (intro agree_intro parse_object_agree parse_array_agree Suc inc)
qed simp

lemma context_parse_agree:
  assumes inc: "includers_agree a b"
  shows "agrees (context_parse a fp n s) (context_parse b fp n s)"
proof -
  have "agree (context_parse a fp n) (context_parse b fp n)"
    unfolding context_parse_def by (intro agree_intro parse_value_agree parse_object_agree inc)
  then show ?thesis by (simp add: agree_def)
qed

subsection \<open>Loading with an includer that refuses\<close>

definition refusing :: "full_includer \<Rightarrow> full_includer" where
  "refusing inc =
     \<lparr>include_any = (\<lambda>name. if named_text name then include_any inc name else Inl unnamed_include),
      include_file = (\<lambda>name. if named_text name then include_file inc name else Inl unnamed_include)\<rparr>"

primrec refusing_nested :: "nat \<Rightarrow> loader \<Rightarrow> parseable list \<Rightarrow> nested_parse" where
  "refusing_nested 0 ld stack p opts = Inl (TokException (ConfigExceptionParse (p_origin p) (too_deep stack)))"
| "refusing_nested (Suc d) ld stack p opts =
     bind_exc (parse_value_with ld (\<lambda>i. refusing (context_includer ld (refusing_nested d ld (p # stack)) p i)) p opts) (\<lambda>v.
       lift_exc (force_parsed_to_object v))"

definition refusing_parse :: "loader \<Rightarrow> parseable \<Rightarrow> tok_exception + config_value" where
  "refusing_parse ld p =
     bind_exc (parse_value_with ld (\<lambda>i. refusing (context_includer ld (refusing_nested MAX_INCLUDE_DEPTH ld []) p i)) p (p_options p))
       (\<lambda>v. lift_exc (force_parsed_to_object v))"

definition parses_agree :: "nested_parse \<Rightarrow> nested_parse \<Rightarrow> bool" where
  "parses_agree f g \<longleftrightarrow> (\<forall>p opts. agrees (f p opts) (g p opts))"

lemma try_conf_agree: "parses_agree f g \<Longrightarrow> agrees (try_conf f h syn v) (try_conf g h syn v)"
  unfolding try_conf_def parses_agree_def by (auto intro: agrees_catch agrees_bind)

lemma try_json_agree: "parses_agree f g \<Longrightarrow> agrees (try_json f h syn x) (try_json g h syn x)"
  unfolding try_json_def parses_agree_def by (cases x) (auto intro!: agrees_catch agrees_bind)

lemma from_basename_agree:
  assumes "parses_agree f g"
  shows "agrees (from_basename ld f src name opts) (from_basename ld g src name opts)"
proof -
  have "agrees (f p o') (g p o')" for p o' using assms by (simp add: parses_agree_def)
  then show ?thesis
    unfolding from_basename_def by (auto intro!: agrees_bind try_conf_agree try_json_agree assms)
qed

lemma merge_fallback_agree: "agrees a b \<Longrightarrow> agrees c d \<Longrightarrow> agrees (merge_fallback a c) (merge_fallback b d)"
  unfolding merge_fallback_def by (intro agrees_bind) auto

lemma includer_include_agree:
  assumes "parses_agree f g"
  shows "agrees (includer_include ld f p inc name) (includer_include ld g p inc name)"
  by (induction inc) (auto simp: include_without_fallback_def from_basename_agree [OF assms] split: option.splits intro: merge_fallback_agree)

definition functions_agree :: "(string \<Rightarrow> tok_exception + 'a) option \<Rightarrow> (string \<Rightarrow> tok_exception + 'a) option \<Rightarrow> bool" where
  "functions_agree a b \<longleftrightarrow>
     (case (a, b) of (None, None) \<Rightarrow> True | (Some f, Some g) \<Rightarrow> (\<forall>name. agrees (f name) (g name)) | _ \<Rightarrow> False)"

lemma includer_include_file_agree:
  assumes "parses_agree f g"
  shows "functions_agree (includer_include_file ld f p inc) (includer_include_file ld g p inc)"
  by (induction inc)
     (auto simp: functions_agree_def include_file_without_fallback_def from_basename_agree [OF assms]
       split: option.splits intro: merge_fallback_agree)

lemma refusing_agree: "includers_agree a b \<Longrightarrow> includers_agree (refusing a) b"
  by (simp add: includers_agree_def refusing_def agrees_def)

lemma context_includer_agree:
  assumes "parses_agree f g"
  shows "includers_agree (context_includer ld f p inc) (context_includer ld g p inc)"
  using includer_include_agree [OF assms] includer_include_file_agree [OF assms, of ld p inc]
  by (auto simp: includers_agree_def context_includer_def functions_agree_def split: option.splits)

lemma parse_value_with_agree:
  assumes "\<And>i. includers_agree (F i) (G i)"
  shows "agrees (parse_value_with ld F p opts) (parse_value_with ld G p opts)"
proof -
  have "agrees (raw_parse_value ld (F i) p orig o') (raw_parse_value ld (G i) p orig o')" for i orig o'
    unfolding raw_parse_value_def by (intro agrees_bind agrees_map agrees_refl context_parse_agree assms)
  then show ?thesis
    unfolding parse_value_with_def parse_value_final_def
    by (intro agrees_bind agrees_refl) (auto intro: agrees_catch split: option.split)
qed

lemma refusing_nested_agree: "parses_agree (refusing_nested d ld stack) (parse_nested d ld stack)"
proof (induction d arbitrary: stack)
  case (Suc d)
  show ?case
    unfolding parses_agree_def refusing_nested.simps parse_nested.simps
    by (intro allI agrees_bind agrees_refl parse_value_with_agree refusing_agree context_includer_agree Suc)
qed (simp add: parses_agree_def)

lemma refusing_parse_agree: "agrees (refusing_parse ld p) (parseable_parse ld p)"
  unfolding refusing_parse_def parseable_parse_def parse_in_stack_def
  by (intro agrees_bind agrees_refl parse_value_with_agree refusing_agree context_includer_agree)
     (simp add: refusing_nested_agree)

end
