(* ===== verification/Load_Outcome.thy ===== *)
theory Load_Outcome
  imports Load_Agree
begin

section \<open>Loading ends in a well-formed object or a reported exception\<close>

text \<open>
  The whole of loading: options, includers, file names, reading, tokens, parsing, nested
  includes and merging.  The includers of the library meet the contract \<open>good_includer\<close> that
  parsing relies on, by induction on the levels of nesting that are left.
\<close>

subsection \<open>Names and origins\<close>

lemma named_by_last: "s \<noteq> [] \<Longrightarrow> last s \<noteq> CHR '' '' \<Longrightarrow> named_text s"
proof (induction s rule: named_text.induct)
  case (1 s)
  show ?case
  proof (cases "starts_with s merge_of_prefix")
    case True
    then obtain r where r: "s = merge_of_prefix @ r" by (metis append_take_drop_id starts_with_def)
    have "r \<noteq> []"
    proof
      assume "r = []"
      with r "1.prems"(2) show False by (simp add: merge_of_prefix_def)
    qed
    moreover from this have "last r \<noteq> CHR '' ''" using "1.prems"(2) r by simp
    ultimately have "named_text (drop (length merge_of_prefix) s)" using "1.IH" "1.prems"(1) True r by simp
    with True 1 show ?thesis by (subst named_text.simps) simp
  qed (use 1 in \<open>subst named_text.simps; simp\<close>)
qed

lemma new_simple_named: "named_text s \<Longrightarrow> \<exists>orig. new_simple s = Inr orig \<and> origin_named orig"
  using named_text_not_Nil by (auto simp: new_simple_def make_origin_def origin_named_def)

lemma new_file_named: "named_text s \<Longrightarrow> \<exists>orig. new_file s = Inr orig \<and> origin_named orig"
  using named_text_not_Nil by (auto simp: new_file_def make_origin_def origin_named_def)

subsection \<open>What is assumed\<close>

text \<open>
  The path functions keep the last character of a file name, and the includers of the application
  give objects or reported exceptions.
\<close>

definition good_paths :: "loader \<Rightarrow> bool" where
  "good_paths ld \<longleftrightarrow>
     (\<forall>f. f \<noteq> [] \<longrightarrow> ld_directory_string ld f \<noteq> [] \<and> last (ld_directory_string ld f) = last f) \<and>
     (\<forall>d f. f \<noteq> [] \<longrightarrow> ld_append ld d f \<noteq> [] \<and> last (ld_append ld d f) = last f)"

definition good_apps :: "loader \<Rightarrow> bool" where
  "good_apps ld \<longleftrightarrow>
     (\<forall>i name. include_ok (app_include (ld_app ld i) name) \<and>
        (\<forall>g. app_include_file (ld_app ld i) = Some g \<longrightarrow> include_ok (g name)))"

definition good_options :: "parse_options \<Rightarrow> bool" where
  "good_options opts \<longleftrightarrow> po_origin_description opts = [] \<or> named_text (po_origin_description opts)"

definition good_parseable :: "parseable \<Rightarrow> bool" where
  "good_parseable p \<longleftrightarrow> origin_named (p_origin p) \<and> good_options (p_options p)"

fun good_source :: "parse_source \<Rightarrow> bool" where
  "good_source (ParseableNotFound what message) = named_text what"
| "good_source (ParseableFile f) = named_text f"
| "good_source _ = True"

lemma option_updates [simp]:
  "good_options (set_syntax s opts) = good_options opts" "good_options (set_allow_missing m opts) = good_options opts"
  "good_options (set_includer i opts) = good_options opts" "good_options (set_origin_description [] opts)"
  "po_allow_missing (set_allow_missing m opts) = m" "po_allow_missing (set_syntax s opts) = po_allow_missing opts"
  "po_allow_missing (set_includer i opts) = po_allow_missing opts" "po_includer (set_includer i opts) = Some i"
  "po_allow_missing (set_origin_description d opts) = po_allow_missing opts"
  by (auto simp: good_options_def set_syntax_def set_allow_missing_def set_includer_def set_origin_description_def)

lemma cleared_options [simp]: "good_options (clear_for_include opts)" "po_allow_missing (clear_for_include opts)"
  by (simp_all add: clear_for_include_def)

subsection \<open>Options and parseables\<close>

lemma fallback_to_default:
  "inc \<noteq> default_includer \<Longrightarrow> \<exists>x. includer_with_fallback ld inc default_includer = Inr x"
proof (induction inc)
  case (SimpleIncluder fb)
  then show ?case
    by (cases fb) (fastforce simp: default_includer_def bind_exc_def split: sum.splits)+
qed auto

lemma fixup_ok:
  assumes "good_options base"
  shows "\<exists>opts i. fixup_options ld src base = Inr opts \<and> good_options opts \<and> po_includer opts = Some (make_full i) \<and>
    po_allow_missing opts = po_allow_missing base"
proof -
  have "\<exists>m i. append_includer ld default_includer b = Inr m \<and> good_options m \<and> po_includer m = Some i \<and>
      po_allow_missing m = po_allow_missing b" if "good_options b" for b
    using that fallback_to_default [of _ ld] by (fastforce simp: append_includer_def bind_exc_def split: option.split sum.splits)
  note app = this
  obtain syn where syn: "fixup_options ld src base =
      bind_exc (append_includer ld default_includer (set_syntax syn base)) (\<lambda>modified.
        case po_includer modified of None \<Rightarrow> Inl NullPointer | Some i \<Rightarrow> Inr (set_includer (make_full i) modified))"
    unfolding fixup_options_def Let_def by blast
  obtain m i where "append_includer ld default_includer (set_syntax syn base) = Inr m" "good_options m" "po_includer m = Some i"
      "po_allow_missing m = po_allow_missing base" using app [of "set_syntax syn base"] assms by auto
  then show ?thesis unfolding syn by (auto simp: bind_exc_def)
qed

lemma new_parseable_ok:
  assumes "good_options base" "good_source src"
  shows "\<exists>p. new_parseable ld src base = Inr p \<and> good_parseable p"
proof -
  obtain opts where opts: "fixup_options ld src base = Inr opts" "good_options opts" using fixup_ok [OF assms(1)] by blast
  have "\<exists>orig. (if po_origin_description opts \<noteq> [] then new_simple (po_origin_description opts) else create_origin src) = Inr orig \<and>
      origin_named orig"
  proof (cases "po_origin_description opts = []")
    case True
    have "\<exists>orig. create_origin src = Inr orig \<and> origin_named orig"
      using assms(2) new_simple_named new_file_named named_by_last [of "''reader''"] named_by_last [of "''string''"]
      by (cases src) auto
    with True show ?thesis by simp
  qed (use opts(2) new_simple_named in \<open>auto simp: good_options_def\<close>)
  with opts show ?thesis by (auto simp: new_parseable_def good_parseable_def bind_exc_def)
qed
lemma last_named: "x \<noteq> [] \<Longrightarrow> last x \<noteq> CHR '' '' \<Longrightarrow> good_paths ld \<Longrightarrow> named_text (ld_directory_string ld x)"
  by (auto simp: good_paths_def intro!: named_by_last)

lemma relative_to_ok:
  assumes "good_paths ld" "good_parseable p" "f \<noteq> []" "last f \<noteq> CHR '' ''"
  shows "\<exists>r. relative_to ld p f = Inr r \<and> (\<forall>q. r = Some q \<longrightarrow> good_parseable q)"
proof -
  have "named_text f" using assms(3,4) by (rule named_by_last)
  then have nf: "\<exists>q. relative_not_found ld p f = Inr (Some q) \<and> good_parseable q"
    using assms(2) new_parseable_ok [of "p_options p" "ParseableNotFound f (''filename was not found: '' @ in_single_quotes f)" ld]
    by (auto simp: relative_not_found_def good_parseable_def bind_exc_def)
  show ?thesis
  proof (cases "p_source p")
    case (ParseableFile g)
    let ?s = "if ld_has_root_directory ld f then f else relative_name ld g f"
    show ?thesis
    proof (cases "?s = [] \<or> \<not> ld_exists ld (ld_directory_string ld ?s)")
      case True
      with ParseableFile nf show ?thesis by (auto simp: relative_to_def Let_def)
    next
      case False
      have "last ?s \<noteq> CHR '' ''"
        using False assms(1,3,4) by (auto simp: relative_name_def Let_def good_paths_def split: if_splits)
      then have "named_text (ld_directory_string ld ?s)" using False assms(1) by (intro last_named) auto
      then obtain q where "new_parseable ld (ParseableFile (ld_directory_string ld ?s)) (set_origin_description [] (p_options p)) = Inr q"
          "good_parseable q" using new_parseable_ok [of "set_origin_description [] (p_options p)" "ParseableFile (ld_directory_string ld ?s)" ld]
        by auto
      with ParseableFile False show ?thesis by (auto simp: relative_to_def Let_def bind_exc_def)
    qed
  qed (use nf in \<open>auto simp: relative_to_def\<close>)
qed

definition good_names :: "name_source \<Rightarrow> bool" where
  "good_names src \<longleftrightarrow> (case src of RelativeNameSource p \<Rightarrow> good_parseable p | FileNameSource \<Rightarrow> True)"

lemma name_to_parseable_ok:
  assumes "good_paths ld" "good_names src" "f \<noteq> []" "last f \<noteq> CHR '' ''" "good_options opts"
  shows "\<exists>p. name_to_parseable ld src f opts = Inr p \<and> good_parseable p"
proof -
  have f: "named_text f" using assms(3,4) by (rule named_by_last)
  show ?thesis
  proof (cases src)
    case (RelativeNameSource p)
    then obtain r where "relative_to ld p f = Inr r" "\<forall>q. r = Some q \<longrightarrow> good_parseable q"
      using relative_to_ok [OF assms(1) _ assms(3,4)] assms(2) by (auto simp: good_names_def)
    then show ?thesis
      using RelativeNameSource new_parseable_ok [OF assms(5), of "ParseableNotFound f (''include was not found: '' @ in_single_quotes f)"] f
      by (auto simp: bind_exc_def split: option.split)
  qed (use new_parseable_ok [OF assms(5), of "ParseableFile f"] f in auto)
qed

subsection \<open>Results\<close>

text \<open>What a parse may end in; an input error only when missing files are not allowed.\<close>

fun is_io :: "tok_exception \<Rightarrow> bool" where
  "is_io (TokException (ConfigExceptionIO _)) = True" | "is_io _ = False"

definition load_ok :: "bool \<Rightarrow> tok_exception + config_value \<Rightarrow> bool" where
  "load_ok missing r \<longleftrightarrow>
     (case r of Inl e \<Rightarrow> reported e \<or> \<not> missing \<and> is_io e | Inr v \<Rightarrow> well_formed v \<and> is_object v)"

lemma include_ok_load: "include_ok r \<longleftrightarrow> load_ok True r"
  by (cases r) (auto simp: include_ok_def load_ok_def)

definition good_parse :: "nested_parse \<Rightarrow> bool" where
  "good_parse parse \<longleftrightarrow> (\<forall>p opts. good_parseable p \<longrightarrow> good_options opts \<longrightarrow> load_ok (po_allow_missing opts) (parse p opts))"

lemma good_parse_at:
  "good_parse parse \<Longrightarrow> good_parseable p \<Longrightarrow> good_options opts \<Longrightarrow> po_allow_missing opts = missing \<Longrightarrow> load_ok missing (parse p opts)"
  by (auto simp: good_parse_def)

lemma good_parseable_options: "good_parseable p \<Longrightarrow> good_options (p_options p)"
  by (simp add: good_parseable_def)

lemma ends_with_last: "ends_with s t \<Longrightarrow> t \<noteq> [] \<Longrightarrow> s \<noteq> [] \<and> last s = last t"
proof -
  assume "ends_with s t" "t \<noteq> []"
  then have "drop (length s - length t) s = t" "length t \<le> length s" by (simp_all add: ends_with_def)
  with \<open>t \<noteq> []\<close> show ?thesis by (metis drop_Nil drop_all last_drop linorder_not_less)
qed

lemma merge_objects_ok:
  "well_formed v \<Longrightarrow> is_object v \<Longrightarrow> well_formed w \<Longrightarrow> \<exists>u. merge v w = Inr u \<and> well_formed u \<and> is_object u"
  using with_fallback_ok [of v w] by (auto simp: merge_def merges_to_def bind_exc_def split: sum.splits option.splits)

lemma catch_ok:
  assumes "load_ok False m" "\<And>v. well_formed v \<Longrightarrow> is_object v \<Longrightarrow> P (f v)" "\<And>e. reported e \<Longrightarrow> P (Inl e)" "\<And>msg. P (h msg)"
    "\<And>v msg. well_formed v \<Longrightarrow> f v \<noteq> Inl (TokException (ConfigExceptionIO msg))"
  shows "P (catch_io (bind_exc m f) h)"
proof (cases m)
  case (Inl e)
  then show ?thesis
    using assms(1,3,4) by (cases e rule: is_io.cases) (auto simp: load_ok_def catch_io_def bind_exc_def)
next
  case (Inr v)
  then have "P (f v)" "f v \<noteq> Inl (TokException (ConfigExceptionIO msg))" for msg using assms(1,2,5) by (auto simp: load_ok_def)
  with Inr show ?thesis
    by (cases "f v") (auto simp: catch_io_def bind_exc_def split: tok_exception.split config_exception.split)
qed
text \<open>A try ends in a reported exception, or with an object and a message unless something was found.\<close>

fun try_ok :: "bool \<Rightarrow> tok_exception + config_value \<times> bool \<times> string list \<Rightarrow> bool" where
  "try_ok tried (Inl e) = reported e"
| "try_ok tried (Inr (v, got, messages)) \<longleftrightarrow> well_formed v \<and> is_object v \<and> (tried \<and> \<not> got \<longrightarrow> messages \<noteq> [])"

lemma try_conf_ok:
  assumes "good_parse parse" "good_parseable h" "well_formed v" "is_object v"
  shows "try_ok (syn = SYNTAX_NONE \<or> syn = CONF) (try_conf parse h syn v)"
proof -
  have "load_ok False (parse h (set_syntax CONF (set_allow_missing False (p_options h))))"
    using assms(1,2) by (intro good_parse_at) (auto dest: good_parseable_options)
  then show ?thesis
    unfolding try_conf_def using assms(3,4)
    by (auto intro!: catch_ok [where P = "try_ok True"])
qed

lemma try_json_ok:
  assumes "good_parse parse" "good_parseable h" "try_ok tried (Inr found)"
  shows "try_ok (tried \<or> syn = SYNTAX_NONE \<or> syn = JSON) (try_json parse h syn found)"
proof -
  obtain v got messages where f: "found = (v, got, messages)" by (cases found)
  have "load_ok False (parse h (set_syntax JSON (set_allow_missing False (p_options h))))"
    using assms(1,2) by (intro good_parse_at) (auto dest: good_parseable_options)
  moreover have "try_ok True (bind_exc (lift_exc (merge v w)) (\<lambda>u. Inr (u, True, messages)))"
    if "well_formed w" for w
    using merge_objects_ok [of v w] assms(3) that f by (auto simp: lift_exc_def bind_exc_def)
  moreover have "bind_exc (lift_exc (merge v w)) (\<lambda>u. Inr (u, True, messages)) \<noteq> Inl (TokException (ConfigExceptionIO msg))"
    if "well_formed w" for w msg
    using merge_objects_ok [of v w] assms(3) that f by (auto simp: lift_exc_def bind_exc_def)
  ultimately show ?thesis
    unfolding try_json_def f using assms(3) f
    by (auto intro!: catch_ok [where P = "try_ok True"])
qed

lemma from_basename_ok:
  assumes "good_paths ld" "good_parse parse" "good_names src" "named_text name" "good_options opts"
  shows "load_ok (po_allow_missing opts) (from_basename ld parse src name opts)"
proof (cases "ends_with name ''.conf'' \<or> ends_with name ''.json''")
  case True
  then have l: "name \<noteq> []" "last name \<noteq> CHR '' ''" using ends_with_last [of name] by fastforce+
  obtain p where p: "name_to_parseable ld src name opts = Inr p" "good_parseable p"
    using name_to_parseable_ok [OF assms(1,3) l assms(5)] by blast
  then have "load_ok (po_allow_missing opts) (parse p (set_allow_missing (po_allow_missing opts) (p_options p)))"
    using assms(2) by (intro good_parse_at) (auto dest: good_parseable_options)
  with True p show ?thesis by (simp add: from_basename_def bind_exc_def lift_exc_def)
next
  case False
  obtain p q where p: "name_to_parseable ld src (name @ ''.conf'') opts = Inr p" "good_parseable p"
    and q: "name_to_parseable ld src (name @ ''.json'') opts = Inr q" "good_parseable q"
    using name_to_parseable_ok [OF assms(1,3) _ _ assms(5), of "name @ ''.conf''"]
      name_to_parseable_ok [OF assms(1,3) _ _ assms(5), of "name @ ''.json''"] by auto
  obtain orig where orig: "new_simple name = Inr orig" "origin_named orig" using new_simple_named [OF assms(4)] by blast
  let ?e = "SimpleConfigObject orig [] (from_values []) False"
  have e: "new_object orig [] = Inr ?e" "well_formed ?e" "is_object ?e"
    using orig(2) by (simp_all add: new_object_def make_object_def)
  show ?thesis
  proof (cases "try_conf parse p (po_syntax opts) ?e")
    case (Inl x)
    then show ?thesis
      using False p q orig e try_conf_ok [OF assms(2) p(2) e(2,3), of "po_syntax opts"]
      by (simp add: from_basename_def bind_exc_def lift_exc_def load_ok_def)
  next
    case (Inr found)
    let ?r = "try_json parse q (po_syntax opts) found"
    have r: "try_ok True ?r"
      using try_json_ok [OF assms(2) q(2), of "po_syntax opts = SYNTAX_NONE \<or> po_syntax opts = CONF" found "po_syntax opts"]
        try_conf_ok [OF assms(2) p(2) e(2,3), of "po_syntax opts"] Inr
      by (cases "po_syntax opts") auto
    have "from_basename ld parse src name opts = bind_exc ?r (\<lambda>(obj, got_something, messages).
        if \<not> po_allow_missing opts \<and> \<not> got_something
        then if messages = []
             then Inl (TokException (ConfigExceptionBugOrBroken ''should not be reached: nothing found but no exceptions thrown''))
             else Inl (TokException (ConfigExceptionIO (description orig @ '': '' @ join_messages messages)))
        else Inr obj)"
      using False p q orig e Inr by (simp add: from_basename_def bind_exc_def lift_exc_def)
    with r show ?thesis
      by (cases ?r) (auto simp: bind_exc_def load_ok_def)
  qed
qed
subsection \<open>Includers\<close>

lemma merge_fallback_ok: "load_ok True a \<Longrightarrow> load_ok True b \<Longrightarrow> load_ok True (merge_fallback a b)"
  using merge_objects_ok
  by (cases a; cases b) (fastforce simp: merge_fallback_def bind_exc_def lift_exc_def load_ok_def)+

definition good_loading :: "loader \<Rightarrow> nested_parse \<Rightarrow> parseable \<Rightarrow> bool" where
  "good_loading ld parse p \<longleftrightarrow> good_paths ld \<and> good_apps ld \<and> good_parse parse \<and> good_parseable p"

lemma include_without_fallback_ok:
  "good_loading ld parse p \<Longrightarrow> named_text name \<Longrightarrow> load_ok True (include_without_fallback ld parse p name)"
  using from_basename_ok [of ld parse "RelativeNameSource p" name "clear_for_include (p_options p)"]
  by (simp add: include_without_fallback_def good_names_def good_loading_def)

lemma include_file_without_fallback_ok:
  "good_loading ld parse p \<Longrightarrow> named_text name \<Longrightarrow> load_ok True (include_file_without_fallback ld parse p name)"
  using from_basename_ok [of ld parse FileNameSource name "clear_for_include (p_options p)"]
  by (simp add: include_file_without_fallback_def good_names_def good_loading_def)

lemma includer_include_ok:
  "good_loading ld parse p \<Longrightarrow> named_text name \<Longrightarrow> load_ok True (includer_include ld parse p inc name)"
proof (induction inc)
  case (SimpleIncluder fb)
  then show ?case
    by (cases fb) (auto intro: include_without_fallback_ok merge_fallback_ok)
qed (auto simp: good_loading_def good_apps_def include_ok_load)

lemma includer_include_file_ok:
  "good_loading ld parse p \<Longrightarrow> named_text name \<Longrightarrow> includer_include_file ld parse p inc = Some g \<Longrightarrow> load_ok True (g name)"
proof (induction inc arbitrary: g)
  case (SimpleIncluder fb)
  note plainly = include_file_without_fallback_ok [OF SimpleIncluder.prems(1,2)]
  show ?case
  proof (cases fb)
    case None
    with plainly SimpleIncluder.prems(3) show ?thesis by auto
  next
    case (Some f)
    with plainly SimpleIncluder show ?thesis
      by (cases "includer_include_file ld parse p f") (auto intro: merge_fallback_ok)
  qed
next
  case (FullIncluderProxy d)
  with include_file_without_fallback_ok [OF FullIncluderProxy.prems(1,2)] show ?case
    by (cases "includer_include_file ld parse p d") auto
qed (auto simp: good_loading_def good_apps_def include_ok_load)

lemma context_includer_ok:
  "good_loading ld parse p \<Longrightarrow> good_includer (refusing (context_includer ld parse p (make_full inc)))"
proof -
  assume "good_loading ld parse p"
  moreover have "\<exists>g. includer_include_file ld parse p (make_full inc) = Some g" by (cases inc) auto
  ultimately show ?thesis
    using includer_include_ok includer_include_file_ok
    by (auto simp: good_includer_def refusing_def context_includer_def include_ok_load load_ok_def unnamed_include_def)
qed

text \<open>The contract of parsing is met, so parsing ends well; the object at the root is all that is left.\<close>

lemma parse_value_ok:
  assumes "good_options opts" "good_loading ld parse p"
  shows "case parse_value_with ld (\<lambda>i. refusing (context_includer ld parse p i)) p opts of
      Inl e \<Rightarrow> reported e \<or> \<not> po_allow_missing opts \<and> is_io e | Inr v \<Rightarrow> well_formed v"
proof -
  obtain o' i where o': "fixup_options ld (p_source p) opts = Inr o'" "good_options o'" "po_includer o' = Some (make_full i)"
      "po_allow_missing o' = po_allow_missing opts" using fixup_ok [OF assms(1)] by blast
  obtain orig where orig: "(if po_origin_description o' \<noteq> [] then new_simple (po_origin_description o') else Inr (p_origin p)) = Inr orig"
      "origin_named orig"
    using o'(2) new_simple_named assms(2)
    by (cases "po_origin_description o' = []") (auto simp: good_options_def good_parseable_def good_loading_def)
  let ?inc = "refusing (context_includer ld parse p (make_full (make_full i)))"
  have missing: "\<exists>v. make_empty_missing orig = Inr v \<and> well_formed v"
    using new_simple_named [OF named_by_last, of "description orig @ '' (not found)''"]
    by (auto simp: make_empty_missing_def bind_exc_def new_object_def make_object_def)
  have "case parse_value_final ld ?inc p orig o' of
      Inl e \<Rightarrow> reported e \<or> \<not> po_allow_missing opts \<and> is_io e | Inr v \<Rightarrow> well_formed v"
  proof (cases "open_source ld (p_source p)")
    case (Inl e)
    then obtain msg where "e = ConfigExceptionIO msg"
      by (cases "p_source p") (auto simp: new_file_reader_def bind_exc_def split: option.splits)
    with Inl missing o'(4) show ?thesis
      by (auto simp: parse_value_final_def raw_parse_value_def catch_io_def bind_exc_def lift_exc_def)
  next
    case (Inr rd)
    have "2 * reader_size rd + 4 < parse_rounds rd" by (simp add: parse_rounds_def)
    from parse_ends [OF context_includer_ok [OF assms(2)] orig(2) this]
    obtain ts where ts: "tokenize orig rd (po_syntax o') = Inr ts"
      "case context_parse ?inc (ld_fp ld) (parse_rounds rd) (new_context (po_syntax o') orig (StreamIterator ts)) of
         Inl e \<Rightarrow> reported e | Inr (v, s) \<Rightarrow> well_formed v" by blast
    have io: "reported e \<Longrightarrow> \<not> is_io e" for e by (cases e rule: is_io.cases) auto
    show ?thesis
    proof (cases "context_parse ?inc (ld_fp ld) (parse_rounds rd) (new_context (po_syntax o') orig (StreamIterator ts))")
      case (Inl e)
      then have "reported e" using ts(2) by simp
      with Inl Inr ts(1) io [of e] show ?thesis
        by (cases e rule: is_io.cases) (auto simp: parse_value_final_def raw_parse_value_def catch_io_def bind_exc_def lift_exc_def)
    next
      case (Inr x)
      with \<open>open_source ld (p_source p) = Inr rd\<close> ts show ?thesis
        by (cases x) (simp add: parse_value_final_def raw_parse_value_def catch_io_def bind_exc_def lift_exc_def)
    qed
  qed
  then show ?thesis using o' orig by (simp add: parse_value_with_def bind_exc_def lift_exc_def)
qed

lemma forced_ok:
  assumes "good_options opts" "good_loading ld parse p"
  shows "load_ok (po_allow_missing opts)
    (bind_exc (parse_value_with ld (\<lambda>i. refusing (context_includer ld parse p i)) p opts) (\<lambda>v. lift_exc (force_parsed_to_object v)))"
proof -
  have "reported (TokException e)" if "value_type v = Inl e" for v e using that by (cases v) auto
  then have "load_ok (po_allow_missing opts) (lift_exc (force_parsed_to_object v))" if "well_formed v" for v
    using that by (cases "value_type v") (auto simp: force_parsed_to_object_def bind_exc_def lift_exc_def load_ok_def)
  note forced = this
  show ?thesis
  proof (cases "parse_value_with ld (\<lambda>i. refusing (context_includer ld parse p i)) p opts")
    case (Inl e)
    with parse_value_ok [OF assms] show ?thesis by (simp add: bind_exc_def load_ok_def)
  next
    case (Inr v)
    with parse_value_ok [OF assms] forced [of v] show ?thesis by (simp add: bind_exc_def)
  qed
qed

lemma refusing_nested_ok:
  assumes "good_paths ld" "good_apps ld"
  shows "good_parse (refusing_nested d ld stack)"
proof (induction d arbitrary: stack)
  case 0
  then show ?case by (simp add: good_parse_def load_ok_def)
next
  case (Suc d)
  show ?case
    unfolding good_parse_def
  proof (intro allI impI)
    fix p opts
    assume "good_parseable p" "good_options opts"
    moreover from this assms Suc have "good_loading ld (refusing_nested d ld (p # stack)) p" by (simp add: good_loading_def)
    ultimately show "load_ok (po_allow_missing opts) (refusing_nested (Suc d) ld stack p opts)"
      unfolding refusing_nested.simps by (intro forced_ok)
  qed
qed

lemma refusing_parse_ok:
  assumes "good_paths ld" "good_apps ld" "good_parseable p"
  shows "load_ok (po_allow_missing (p_options p)) (refusing_parse ld p)"
proof -
  have "good_loading ld (refusing_nested MAX_INCLUDE_DEPTH ld []) p"
    using assms refusing_nested_ok by (simp add: good_loading_def)
  then show ?thesis
    unfolding refusing_parse_def using good_parseable_options [OF assms(3)] by (intro forced_ok)
qed
lemma new_parseable_missing: "new_parseable ld src base = Inr p \<Longrightarrow> good_options base \<Longrightarrow> po_allow_missing (p_options p) = po_allow_missing base"
  using fixup_ok [of base ld src] by (auto simp: new_parseable_def bind_exc_def split: if_splits sum.splits)

text \<open>Loading that refuses to include a file without a name.\<close>

definition refusing_load :: "loader \<Rightarrow> parse_source \<Rightarrow> parse_options option \<Rightarrow> tok_exception + config_value" where
  "refusing_load ld src opts =
     bind_exc (lift_exc (new_parseable ld src (options_or_defaults opts))) (refusing_parse ld)"


definition sample_loader :: loader where
  "sample_loader = \<lparr>ld_fp = no_doubles, ld_contents = (\<lambda>f. if f = ''b.conf'' then Some ''x : 1'' else None),
     ld_exists = (\<lambda>f. f = ''b.conf''), ld_has_root_directory = (\<lambda>_. False), ld_parent_path = (\<lambda>_. []), ld_append = (\<lambda>d f. d @ ''/'' @ f),
     ld_directory_string = (\<lambda>s. s),
     ld_app = (\<lambda>_. \<lparr>app_include = (\<lambda>_. Inr (sample_object [])), app_include_file = None, app_with_fallback = (\<lambda>i. i)\<rparr>)\<rparr>"


end
