(* ===== verification/Config_Equality.thy ===== *)
theory Config_Equality
  imports Simple_Config Config_Render
begin

section \<open>Equality and hashing of values (variant_utils.hpp, misc_utils.hpp and the value classes)\<close>

text \<open>
  Two values are compared by the \<^verbatim>\<open>equals\<close> method of the first.  Origins are left out.  The hash
  functions of the standard library and \<^verbatim>\<open>boost::hash_combine\<close> are arguments, and so is the
  text of an address, which the visitor for strings prints for a map or a vector.
\<close>

unbundle bit_operations_syntax

subsection \<open>The visitors\<close>

definition double_trunc32 :: "double \<Rightarrow> int" where
  "double_trunc32 d = (let t = double_trunc d in if int32_min \<le> t \<and> t \<le> int32_max then t else int32_min)"

fun variant_int :: "config_variant \<Rightarrow> int" where
  "variant_int (VInt i) = i"
| "variant_int (VInt64 i) = to_int32 i"
| "variant_int (VDouble d) = double_trunc32 d"
| "variant_int (VBool b) = (if b then 1 else 0)"
| "variant_int _ = 0"

text \<open>IEEE equality of bit patterns: a NaN equals nothing, the two zeros are equal.\<close>

definition double_is_nan :: "double \<Rightarrow> bool" where
  "double_is_nan d \<longleftrightarrow> dp_special (double_decode d) \<and> dp_mant (double_decode d) \<noteq> 0"

definition double_eq :: "double \<Rightarrow> double \<Rightarrow> bool" where
  "double_eq a b \<longleftrightarrow> \<not> double_is_nan a \<and> \<not> double_is_nan b \<and> (a = b \<or> uint a mod 2 ^ 63 = 0 \<and> uint b mod 2 ^ 63 = 0)"

fun class_name :: "config_value \<Rightarrow> string" where
  "class_name (ConfigNull _) = ''ConfigNull''"
| "class_name (ConfigBoolean _ _) = ''ConfigBoolean''"
| "class_name (ConfigInt _ _ _) = ''ConfigInt''"
| "class_name (ConfigInt64 _ _ _) = ''ConfigInt64''"
| "class_name (ConfigDouble _ _ _) = ''ConfigDouble''"
| "class_name (ConfigString _ _) = ''ConfigString''"
| "class_name (SimpleConfigList _ _ _) = ''SimpleConfigList''"
| "class_name (SimpleConfigObject _ _ _ _) = ''SimpleConfigObject''"
| "class_name (ConfigReference _ _ _) = ''ConfigReference''"
| "class_name (ConfigConcatenation _ _) = ''ConfigConcatenation''"
| "class_name (ConfigDelayedMerge _ _) = ''ConfigDelayedMerge''"
| "class_name (ConfigDelayedMergeObject _ _) = ''ConfigDelayedMergeObject''"

fun variant_string :: "fp_text \<Rightarrow> (config_variant \<Rightarrow> string) \<Rightarrow> config_variant \<Rightarrow> config_exception + string" where
  "variant_string fp addr VNull = Inr ''null''"
| "variant_string fp addr (VInt i) = Inr (show_int i)"
| "variant_string fp addr (VInt64 i) = Inr (show_int i)"
| "variant_string fp addr (VDouble d) = Inr (show_double fp d)"
| "variant_string fp addr (VBool b) = Inr (if b then ''true'' else ''false'')"
| "variant_string fp addr (VString s) = Inr s"
| "variant_string fp addr (VBase v) = value_to_string fp (class_name v) v"
| "variant_string fp addr v = Inr (addr v)"

text \<open>\<open>variant_equals\<close> on a second argument that is no container; the first is the one held by the visitor.\<close>

fun scalar_equals :: "fp_text \<Rightarrow> (config_variant \<Rightarrow> string) \<Rightarrow> config_variant \<Rightarrow> config_variant \<Rightarrow> config_exception + bool" where
  "scalar_equals fp addr eq VNull = Inr (eq = VNull)"
| "scalar_equals fp addr eq (VInt x) = Inr (variant_int eq = x)"
| "scalar_equals fp addr eq (VInt64 x) = Inr (variant_int64 eq = x)"
| "scalar_equals fp addr eq (VDouble x) = Inr (double_eq (variant_double eq) x)"
| "scalar_equals fp addr eq (VBool x) = Inr (eq = VBool x)"
| "scalar_equals fp addr eq (VString x) = bind_exc (variant_string fp addr eq) (\<lambda>s. Inr (s = x))"
| "scalar_equals fp addr eq _ = Inr False"

subsection \<open>Values\<close>

definition substitution_equals :: "substitution_expression \<Rightarrow> substitution_expression \<Rightarrow> bool" where
  "substitution_equals a b \<longleftrightarrow> path_equals (expr_path b) (expr_path a) \<and> expr_optional b = expr_optional a"

text \<open>\<^verbatim>\<open>AbstractConfigValue::equals\<close>, which null, boolean and string inherit.\<close>

definition abstract_equals ::
  "fp_text \<Rightarrow> (config_variant \<Rightarrow> string) \<Rightarrow> config_value \<Rightarrow> config_value \<Rightarrow> config_exception + bool" where
  "abstract_equals fp addr v w =
     bind_exc (value_type v) (\<lambda>t. bind_exc (value_type w) (\<lambda>t'.
       if t \<noteq> t' then Inr False
       else bind_exc (unwrapped v) (\<lambda>a. bind_exc (unwrapped w) (\<lambda>b. scalar_equals fp addr a b))))"

fun is_number :: "config_value \<Rightarrow> bool" where
  "is_number (ConfigInt _ _ _) = True" | "is_number (ConfigInt64 _ _ _) = True" | "is_number (ConfigDouble _ _ _) = True"
| "is_number _ = False"

definition number_equals ::
  "fp_text \<Rightarrow> (config_variant \<Rightarrow> string) \<Rightarrow> config_value \<Rightarrow> config_value \<Rightarrow> config_exception + bool" where
  "number_equals fp addr v w = (if is_number w then abstract_equals fp addr v w else Inr False)"

text \<open>\<open>equal_keys\<close>: the same number of members and the same keys.\<close>

definition equal_keys :: "(string \<times> config_value) list \<Rightarrow> (string \<times> config_value) list \<Rightarrow> bool" where
  "equal_keys a b \<longleftrightarrow> length a = length b \<and> set (map fst a) = set (map fst b)"

fun value_equals :: "fp_text \<Rightarrow> (config_variant \<Rightarrow> string) \<Rightarrow> config_value \<Rightarrow> config_value \<Rightarrow> config_exception + bool"
  and each_equals :: "fp_text \<Rightarrow> (config_variant \<Rightarrow> string) \<Rightarrow> config_value list \<Rightarrow> config_value list \<Rightarrow> config_exception + bool"
  and members_equals ::
    "fp_text \<Rightarrow> (config_variant \<Rightarrow> string) \<Rightarrow> (string \<times> config_value) list \<Rightarrow> (string \<times> config_value) list \<Rightarrow> config_exception + bool" where
  "value_equals fp addr (ConfigNull orig) w = abstract_equals fp addr (ConfigNull orig) w"
| "value_equals fp addr (ConfigBoolean orig b) w = abstract_equals fp addr (ConfigBoolean orig b) w"
| "value_equals fp addr (ConfigString orig s) w = abstract_equals fp addr (ConfigString orig s) w"
| "value_equals fp addr (ConfigInt orig i t) w = number_equals fp addr (ConfigInt orig i t) w"
| "value_equals fp addr (ConfigInt64 orig i t) w = number_equals fp addr (ConfigInt64 orig i t) w"
| "value_equals fp addr (ConfigDouble orig d t) w = number_equals fp addr (ConfigDouble orig d t) w"
| "value_equals fp addr (SimpleConfigList _ vs _) w =
     (case w of SimpleConfigList _ ws _ \<Rightarrow> if length vs = length ws then each_equals fp addr vs ws else Inr False | _ \<Rightarrow> Inr False)"
| "value_equals fp addr (SimpleConfigObject _ ms _ _) w =
     (case w of SimpleConfigObject _ ns _ _ \<Rightarrow> if equal_keys ms ns then members_equals fp addr ms ns else Inr False | _ \<Rightarrow> Inr False)"
| "value_equals fp addr (ConfigReference _ e _) w =
     (case w of ConfigReference _ e' _ \<Rightarrow> Inr (substitution_equals e e') | _ \<Rightarrow> Inr False)"
| "value_equals fp addr (ConfigConcatenation _ vs) w =
     (case w of ConfigConcatenation _ ws \<Rightarrow> if length vs = length ws then each_equals fp addr vs ws else Inr False | _ \<Rightarrow> Inr False)"
| "value_equals fp addr (ConfigDelayedMerge _ vs) w =
     (case w of ConfigDelayedMerge _ ws \<Rightarrow> if length vs = length ws then each_equals fp addr vs ws else Inr False | _ \<Rightarrow> Inr False)"
| "value_equals fp addr (ConfigDelayedMergeObject _ vs) w =
     (case w of ConfigDelayedMergeObject _ ws \<Rightarrow> if length vs = length ws then each_equals fp addr vs ws else Inr False | _ \<Rightarrow> Inr False)"
| "each_equals fp addr [] ws = Inr True"
| "each_equals fp addr (v # vs) ws =
     (case ws of
        [] \<Rightarrow> Inl EndDereference
      | w # ws' \<Rightarrow> bind_exc (value_equals fp addr v w) (\<lambda>e. if e then each_equals fp addr vs ws' else Inr False))"
| "members_equals fp addr [] ns = Inr True"
| "members_equals fp addr ((k, v) # ms) ns =
     (case map_of ns k of
        None \<Rightarrow> Inl EndDereference
      | Some w \<Rightarrow> bind_exc (value_equals fp addr v w) (\<lambda>e. if e then members_equals fp addr ms ns else Inr False))"

text \<open>The whole visitor, with the map that is only searched for the members of the first.\<close>

fun variant_equals :: "fp_text \<Rightarrow> (config_variant \<Rightarrow> string) \<Rightarrow> config_variant \<Rightarrow> config_variant \<Rightarrow> config_exception + bool"
  and vector_equals :: "fp_text \<Rightarrow> (config_variant \<Rightarrow> string) \<Rightarrow> config_variant list \<Rightarrow> config_variant list \<Rightarrow> config_exception + bool"
  and map_variant_equals ::
    "fp_text \<Rightarrow> (config_variant \<Rightarrow> string) \<Rightarrow> (string \<times> config_variant) list \<Rightarrow> (string \<times> config_variant) list \<Rightarrow> config_exception + bool" where
  "variant_equals fp addr (VMap es) x =
     (case x of VMap xs \<Rightarrow> map_variant_equals fp addr es xs | _ \<Rightarrow> scalar_equals fp addr (VMap es) x)"
| "variant_equals fp addr (VVector es) x =
     (case x of VVector xs \<Rightarrow> if length es = length xs then vector_equals fp addr es xs else Inr False
      | _ \<Rightarrow> scalar_equals fp addr (VVector es) x)"
| "variant_equals fp addr (VBase v) x =
     (case x of VBase w \<Rightarrow> value_equals fp addr v w | _ \<Rightarrow> scalar_equals fp addr (VBase v) x)"
| "variant_equals fp addr eq x = scalar_equals fp addr eq x"
| "vector_equals fp addr [] xs = Inr True"
| "vector_equals fp addr (e # es) xs =
     (case xs of
        [] \<Rightarrow> Inl EndDereference
      | x # xs' \<Rightarrow> bind_exc (variant_equals fp addr e x) (\<lambda>b. if b then vector_equals fp addr es xs' else Inr False))"
| "map_variant_equals fp addr [] xs = Inr True"
| "map_variant_equals fp addr ((k, e) # es) xs =
     (case map_of xs k of
        None \<Rightarrow> Inr False
      | Some x \<Rightarrow> bind_exc (variant_equals fp addr e x) (\<lambda>b. if b then map_variant_equals fp addr es xs else Inr False))"
subsection \<open>Hash codes\<close>

record hashes =
  hash_string :: "string \<Rightarrow> int"
  hash_bool :: "bool \<Rightarrow> int"
  hash_uint32 :: "int \<Rightarrow> int"
  hash_combine :: "int \<Rightarrow> int \<Rightarrow> int"

definition uint32 :: "int \<Rightarrow> int" where
  "uint32 i = i mod 2 ^ 32"

fun double_value :: "config_value \<Rightarrow> double" where
  "double_value (ConfigInt _ i _) = double_of_int i"
| "double_value (ConfigInt64 _ i _) = double_of_int i"
| "double_value (ConfigDouble _ d _) = d"
| "double_value _ = 0"

fun number_int64 :: "config_value \<Rightarrow> int" where
  "number_int64 (ConfigInt _ i _) = i"
| "number_int64 (ConfigInt64 _ i _) = i"
| "number_int64 (ConfigDouble _ d _) = double_trunc d"
| "number_int64 _ = 0"

definition is_whole :: "config_value \<Rightarrow> bool" where
  "is_whole v \<longleftrightarrow> double_eq (double_of_int (number_int64 v)) (double_value v)"

definition number_hash :: "config_value \<Rightarrow> int" where
  "number_hash v =
     (let as_int64 = (if is_whole v then number_int64 v
                      else sint (if double_is_nan (double_value v) then double_nan else double_value v))
      in uint32 (as_int64 XOR drop_bit 32 as_int64))"

definition substitution_hash :: "hashes \<Rightarrow> substitution_expression \<Rightarrow> int" where
  "substitution_hash H e =
     uint32 (41 * (uint32 (41 * (41 + path_hash_code (hash_string H) (expr_path e))) + (if expr_optional e then 1 else 0)))"

definition combine_all :: "hashes \<Rightarrow> int list \<Rightarrow> int" where
  "combine_all H hs = foldl (hash_combine H) 0 hs"

text \<open>The keys are taken in order; \<open>hs\<close> are the hash codes of the members.\<close>

definition map_hash :: "hashes \<Rightarrow> (string \<times> int) list \<Rightarrow> int" where
  "map_hash H hs =
     (let keys = sorted_list_of_set (set (map fst hs));
          values_hash = uint32 (sum_list (map (\<lambda>k. case map_of hs k of Some h \<Rightarrow> h | None \<Rightarrow> 0) keys));
          keys_hash = combine_all H (map (hash_string H) keys)
      in uint32 (41 * (41 + uint32 keys_hash) + values_hash))"

fun value_hash :: "hashes \<Rightarrow> config_value \<Rightarrow> int"
  and each_hash :: "hashes \<Rightarrow> config_value list \<Rightarrow> int list"
  and members_hash :: "hashes \<Rightarrow> (string \<times> config_value) list \<Rightarrow> (string \<times> int) list" where
  "value_hash H (ConfigNull _) = 0"
| "value_hash H (ConfigBoolean _ b) = uint32 (hash_bool H b)"
| "value_hash H (ConfigString _ s) = uint32 (hash_string H s)"
| "value_hash H (SimpleConfigList _ vs _) = uint32 (combine_all H (each_hash H vs))"
| "value_hash H (SimpleConfigObject _ ms _ _) = map_hash H (members_hash H ms)"
| "value_hash H (ConfigReference _ e _) = substitution_hash H e"
| "value_hash H (ConfigConcatenation _ vs) = uint32 (combine_all H (each_hash H vs))"
| "value_hash H (ConfigDelayedMerge _ vs) = uint32 (combine_all H (each_hash H vs))"
| "value_hash H (ConfigDelayedMergeObject _ vs) = uint32 (combine_all H (each_hash H vs))"
| "value_hash H v = number_hash v"
| "each_hash H [] = []"
| "each_hash H (v # vs) = value_hash H v # each_hash H vs"
| "members_hash H [] = []"
| "members_hash H ((k, v) # ms) = (k, value_hash H v) # members_hash H ms"

subsection \<open>Tokens and configurations\<close>

fun token_equals :: "fp_text \<Rightarrow> (config_variant \<Rightarrow> string) \<Rightarrow> token \<Rightarrow> token \<Rightarrow> config_exception + bool"
  and tokens_equal :: "fp_text \<Rightarrow> (config_variant \<Rightarrow> string) \<Rightarrow> token list \<Rightarrow> token list \<Rightarrow> config_exception + bool" where
  "token_equals fp addr (Token t) u = Inr (token_type_of u = t)"
| "token_equals fp addr (ValueToken v) u = (case u of ValueToken w \<Rightarrow> value_equals fp addr w v | _ \<Rightarrow> Inr False)"
| "token_equals fp addr (LineToken orig) u = Inr (case u of LineToken orig' \<Rightarrow> line_no orig' = line_no orig | _ \<Rightarrow> False)"
| "token_equals fp addr (UnquotedTextToken _ s) u = Inr (case u of UnquotedTextToken _ s' \<Rightarrow> s' = s | _ \<Rightarrow> False)"
| "token_equals fp addr (ProblemToken _ what message quotes) u =
     Inr (case u of ProblemToken _ what' message' quotes' \<Rightarrow> what' = what \<and> message' = message \<and> quotes' = quotes | _ \<Rightarrow> False)"
| "token_equals fp addr (CommentToken _ s) u = Inr (case u of CommentToken _ s' \<Rightarrow> s' = s | _ \<Rightarrow> False)"
| "token_equals fp addr (SubstitutionToken _ opt ts) u =
     (case u of SubstitutionToken _ opt' us \<Rightarrow> if length ts = length us then tokens_equal fp addr ts us else Inr False | _ \<Rightarrow> Inr False)"
| "tokens_equal fp addr [] us = Inr True"
| "tokens_equal fp addr (t # ts) us =
     (case us of
        [] \<Rightarrow> Inl EndDereference
      | u # us' \<Rightarrow> bind_exc (token_equals fp addr t u) (\<lambda>e. if e then tokens_equal fp addr ts us' else Inr False))"

definition token_type_code :: "token_type \<Rightarrow> int" where
  "token_type_code t =
     (case t of START \<Rightarrow> 0 | END \<Rightarrow> 1 | COMMA \<Rightarrow> 2 | EQUALS \<Rightarrow> 3 | COLON \<Rightarrow> 4 | OPEN_CURLY \<Rightarrow> 5 | CLOSE_CURLY \<Rightarrow> 6
      | OPEN_SQUARE \<Rightarrow> 7 | CLOSE_SQUARE \<Rightarrow> 8 | VALUE \<Rightarrow> 9 | NEWLINE \<Rightarrow> 10 | UNQUOTED_TEXT \<Rightarrow> 11 | SUBSTITUTION \<Rightarrow> 12
      | PROBLEM \<Rightarrow> 13 | COMMENT \<Rightarrow> 14 | PLUS_EQUALS \<Rightarrow> 15)"

definition type_hash :: "hashes \<Rightarrow> token_type \<Rightarrow> int" where
  "type_hash H t = uint32 (hash_uint32 H (token_type_code t))"

definition hash_step :: "int \<Rightarrow> int \<Rightarrow> int" where
  "hash_step h x = uint32 (41 * (h + x))"

definition value_token_hash :: "hashes \<Rightarrow> config_value \<Rightarrow> config_exception + int" where
  "value_token_hash H v =
     bind_exc (value_type v) (\<lambda>t.
       Inr (case v of ConfigBoolean _ b \<Rightarrow> if b then 1231 else 1237 | _ \<Rightarrow> value_hash H v))"

fun token_hash :: "hashes \<Rightarrow> token \<Rightarrow> config_exception + int"
  and tokens_hash :: "hashes \<Rightarrow> token list \<Rightarrow> config_exception + int list" where
  "token_hash H (Token t) = Inr (type_hash H t)"
| "token_hash H (ValueToken v) =
     bind_exc (value_token_hash H v) (\<lambda>h. Inr (uint32 (hash_step 41 (type_hash H VALUE) + h)))"
| "token_hash H (LineToken orig) = Inr (uint32 (hash_step 41 (type_hash H NEWLINE) + line_no orig))"
| "token_hash H (UnquotedTextToken _ s) = Inr (uint32 (hash_step 41 (type_hash H UNQUOTED_TEXT) + hash_string H s))"
| "token_hash H (ProblemToken _ what message quotes) =
     Inr (hash_step (hash_step (hash_step (hash_step 41 (type_hash H PROBLEM)) (hash_string H what)) (hash_string H message)) (hash_bool H quotes))"
| "token_hash H (CommentToken _ s) = Inr (uint32 (hash_step 41 (type_hash H COMMENT) + hash_string H s))"
| "token_hash H (SubstitutionToken _ opt ts) =
     bind_exc (tokens_hash H ts) (\<lambda>hs. Inr (uint32 (foldl (hash_combine H) (hash_step 41 (type_hash H SUBSTITUTION)) hs)))"
| "tokens_hash H [] = Inr []"
| "tokens_hash H (t # ts) = bind_exc (token_hash H t) (\<lambda>h. bind_exc (tokens_hash H ts) (\<lambda>hs. Inr (h # hs)))"

text \<open>A configuration is known by its object.\<close>

definition simple_config_equals ::
  "fp_text \<Rightarrow> (config_variant \<Rightarrow> string) \<Rightarrow> config_value \<Rightarrow> config_value \<Rightarrow> config_exception + bool" where
  "simple_config_equals fp addr self other = value_equals fp addr self other"

definition simple_config_hash :: "hashes \<Rightarrow> config_value \<Rightarrow> int" where
  "simple_config_hash H self = uint32 (41 * value_hash H self)"

definition simple_config_to_string :: "fp_text \<Rightarrow> config_value \<Rightarrow> config_exception + string" where
  "simple_config_to_string fp self =
     bind_exc (value_to_string fp (class_name self) self) (\<lambda>s. Inr (''Config('' @ s @ '')''))"

subsection \<open>What equality decides\<close>

text \<open>
  Values that say nothing but 32-bit numbers, strings, booleans and nulls, in lists and objects; what such
  a value says, with an object as a map.
\<close>

datatype doc = DNull | DBool bool | DNum int | DStr string | DList "doc list" | DMap "string \<rightharpoonup> doc" | DOther

fun doc_of :: "config_value \<Rightarrow> doc"
  and docs_of :: "config_value list \<Rightarrow> doc list"
  and doc_members :: "(string \<times> config_value) list \<Rightarrow> (string \<times> doc) list" where
  "doc_of (ConfigNull _) = DNull"
| "doc_of (ConfigBoolean _ b) = DBool b"
| "doc_of (ConfigInt _ i _) = DNum i"
| "doc_of (ConfigString _ s) = DStr s"
| "doc_of (SimpleConfigList _ vs _) = DList (docs_of vs)"
| "doc_of (SimpleConfigObject _ ms _ _) = DMap (map_of (doc_members ms))"
| "doc_of _ = DOther"
| "docs_of [] = []"
| "docs_of (v # vs) = doc_of v # docs_of vs"
| "doc_members [] = []"
| "doc_members ((k, v) # ms) = (k, doc_of v) # doc_members ms"

fun plain_value :: "config_value \<Rightarrow> bool" where
  "plain_value (ConfigInt _ i _) \<longleftrightarrow> int32_min \<le> i \<and> i \<le> int32_max"
| "plain_value (SimpleConfigList _ vs _) \<longleftrightarrow> (\<forall>v \<in> set vs. plain_value v)"
| "plain_value (SimpleConfigObject _ ms _ _) \<longleftrightarrow> distinct (map fst ms) \<and> (\<forall>e \<in> set ms. plain_value (snd e))"
| "plain_value (ConfigNull _) \<longleftrightarrow> True"
| "plain_value (ConfigBoolean _ _) \<longleftrightarrow> True"
| "plain_value (ConfigString _ _) \<longleftrightarrow> True"
| "plain_value _ \<longleftrightarrow> False"

lemma docs_of_map: "docs_of vs = map doc_of vs"
  by (induction vs) auto

lemma doc_members_map: "doc_members ms = map (\<lambda>(k, v). (k, doc_of v)) ms"
  by (induction ms) auto

lemma members_hash_map: "members_hash H ms = map (\<lambda>(k, v). (k, value_hash H v)) ms"
  by (induction ms) auto

lemma each_hash_map: "each_hash H vs = map (value_hash H) vs"
  by (induction vs) auto
lemma scalar_plain_equals:
  assumes "plain_value w"
  shows "abstract_equals fp addr (ConfigNull orig) w = Inr (doc_of w = DNull)"
    "abstract_equals fp addr (ConfigBoolean orig b) w = Inr (doc_of w = DBool b)"
    "abstract_equals fp addr (ConfigString orig s) w = Inr (doc_of w = DStr s)"
    "number_equals fp addr (ConfigInt orig i t) w = Inr (doc_of w = DNum i)"
  using assms by (cases w; auto simp: abstract_equals_def number_equals_def bind_exc_def)+

lemma doc_domain: "dom (map_of (doc_members ms)) = set (map fst ms)"
  by (simp add: doc_members_map dom_map_of_conv_image_fst image_image split_beta)

lemma doc_lookup: "map_of (doc_members ms) k = map_option doc_of (map_of ms k)"
  by (induction ms) auto

lemma doc_members_equal:
  assumes "distinct (map fst ms)" "distinct (map fst ns)" "set (map fst ms) = set (map fst ns)"
  shows "(\<forall>(k, v) \<in> set ms. map_of (doc_members ns) k = Some (doc_of v)) \<longleftrightarrow> map_of (doc_members ms) = map_of (doc_members ns)"
    (is "?all \<longleftrightarrow> ?m = ?n")
proof
  assume all: ?all
  show "?m = ?n"
  proof
    fix k
    show "?m k = ?n k"
    proof (cases "map_of ms k")
      case None
      then have "map_of ns k = None" using assms(3) by (auto simp: map_of_eq_None_iff)
      with None show ?thesis by (simp add: doc_lookup)
    next
      case (Some v)
      then show ?thesis using all map_of_SomeD [OF Some] by (auto simp: doc_lookup)
    qed
  qed
next
  assume eq: "?m = ?n"
  have "?m k = Some (doc_of v)" if "(k, v) \<in> set ms" for k v
    using that assms(1) by (simp add: doc_lookup)
  with eq show ?all by auto
qed

lemma different_keys:
  assumes "distinct (map fst ms)" "distinct (map fst ns)" "\<not> equal_keys ms ns"
  shows "map_of (doc_members ms) \<noteq> map_of (doc_members ns)"
proof
  assume "map_of (doc_members ms) = map_of (doc_members ns)"
  then have "set (map fst ms) = set (map fst ns)" using doc_domain by metis
  moreover from this have "length ms = length ns" using assms(1,2) by (metis distinct_card length_map)
  ultimately show False using assms(3) by (simp add: equal_keys_def)
qed

lemma equals_doc:
  "plain_value v \<Longrightarrow> plain_value w \<Longrightarrow> value_equals fp addr v w = Inr (doc_of w = doc_of v)"
  and each_equals_doc:
  "\<forall>v \<in> set vs. plain_value v \<Longrightarrow> \<forall>w \<in> set ws. plain_value w \<Longrightarrow> length vs = length ws \<Longrightarrow>
   each_equals fp addr vs ws = Inr (docs_of ws = docs_of vs)"
  and members_equals_doc:
  "\<forall>e \<in> set ms. plain_value (snd e) \<Longrightarrow> \<forall>e \<in> set ns. plain_value (snd e) \<Longrightarrow> set (map fst ms) \<subseteq> set (map fst ns) \<Longrightarrow>
   members_equals fp addr ms ns = Inr (\<forall>(k, v) \<in> set ms. map_of (doc_members ns) k = Some (doc_of v))"
proof (induction fp addr v w and fp addr vs ws and fp addr ms ns rule: value_equals_each_equals_members_equals.induct)
  case (7 fp addr uu vs uv w)
  then show ?case by (cases w) (auto simp: docs_of_map dest: map_eq_imp_length_eq)
next
  case (8 fp addr uw ms ux uy w)
  show ?case
  proof (cases w)
    case (SimpleConfigObject orig ns st ig)
    show ?thesis
    proof (cases "equal_keys ms ns")
      case True
      then have "members_equals fp addr ms ns = Inr (\<forall>(k, v) \<in> set ms. map_of (doc_members ns) k = Some (doc_of v))"
        using "8.IH" [OF SimpleConfigObject] "8.prems" SimpleConfigObject by (auto simp: equal_keys_def)
      with True SimpleConfigObject doc_members_equal [of ms ns] "8.prems" show ?thesis
        by (auto simp: equal_keys_def)
    next
      case False
      with SimpleConfigObject different_keys [of ms ns] "8.prems" show ?thesis by auto
    qed
  qed (use "8.prems" in auto)
next
  case (14 fp addr v vs ws)
  then show ?case by (cases ws) (auto simp: bind_exc_def)
next
  case (16 fp addr k v ms ns)
  then obtain w where w: "map_of ns k = Some w" "plain_value w"
    by (metis (no_types, lifting) fst_conv insert_subset list.set(2) list.simps(9) map_of_SomeD map_of_eq_None_iff not_None_eq set_map snd_conv)
  then have "value_equals fp addr v w = Inr (doc_of w = doc_of v)" using 16 by auto
  moreover have "members_equals fp addr ms ns = Inr (\<forall>(k, v) \<in> set ms. map_of (doc_members ns) k = Some (doc_of v))"
    if "doc_of w = doc_of v" using 16 w that by auto
  ultimately show ?case using w by (auto simp: bind_exc_def doc_lookup)
qed (auto simp: scalar_plain_equals)

text \<open>The hash code is a function of what the value says.\<close>

lemma plain_hash:
  "plain_value v \<Longrightarrow> plain_value w \<Longrightarrow> doc_of v = doc_of w \<Longrightarrow> value_hash H v = value_hash H w"
proof (induction v arbitrary: w)
  case (ConfigInt orig i t)
  then show ?case by (cases w) (auto simp: number_hash_def is_whole_def)
next
  case (SimpleConfigList orig vs st)
  then obtain o' ws st' where w: "w = SimpleConfigList o' ws st'" by (cases w) auto
  then have "map doc_of vs = map doc_of ws" using SimpleConfigList.prems(3) by (simp add: docs_of_map)
  then have "map (value_hash H) vs = map (value_hash H) ws"
    using SimpleConfigList w by (auto simp: list_eq_iff_nth_eq)
  with w show ?case by (simp add: each_hash_map)
next
  case (SimpleConfigObject orig ms st ig)
  then obtain o' ns st' ig' where w: "w = SimpleConfigObject o' ns st' ig'" by (cases w) auto
  have eq: "map_of (doc_members ms) = map_of (doc_members ns)" using SimpleConfigObject.prems(3) w by simp
  then have keys: "set (map fst ms) = set (map fst ns)" using doc_domain by metis
  have "map_of (members_hash H ms) k = map_of (members_hash H ns) k" for k
  proof (cases "map_of ms k")
    case None
    then have "map_of ns k = None" using keys by (auto simp: map_of_eq_None_iff)
    with None show ?thesis by (simp add: members_hash_map map_of_map)
  next
    case (Some v)
    then have "Some (doc_of v) = map_option doc_of (map_of ns k)" using eq by (metis doc_lookup option.simps(9))
    then obtain u where u: "map_of ns k = Some u" "doc_of v = doc_of u" by (cases "map_of ns k") auto
    have "(k, v) \<in> set ms" "(k, u) \<in> set ns" using Some u(1) by (auto dest: map_of_SomeD)
    then have "value_hash H v = value_hash H u"
      using SimpleConfigObject.IH [of "(k, v)" v u] SimpleConfigObject.prems(1,2) w u(2) by (fastforce simp: snds.simps)
    with Some u show ?thesis by (simp add: members_hash_map map_of_map)
  qed
  then have "map_of (members_hash H ms) = map_of (members_hash H ns)" by (rule ext)
  moreover have "map fst (members_hash H ms) = map fst ms" "map fst (members_hash H ns) = map fst ns"
    by (simp_all add: members_hash_map split_beta)
  ultimately show ?case using w keys by (simp add: map_hash_def Let_def)
qed (auto elim!: plain_value.elims)

text \<open>
  C12: on values made of nulls, booleans, strings, 32-bit numbers, lists and objects, \<^verbatim>\<open>equals\<close> never raises and
  answers whether the two values say the same thing, whatever their origins, the original text of their
  numbers and the order of the members; so it is an equivalence there.  Equal
  values have equal hash codes, whatever the hash functions of the library.
\<close>

theorem equals_decides:
  assumes "plain_value v" and "plain_value w"
  shows "value_equals fp addr v w = Inr (doc_of w = doc_of v) \<and>
    (value_equals fp addr v w = Inr True \<longrightarrow> value_hash H v = value_hash H w)"
  using equals_doc [OF assms] plain_hash [OF assms] by auto

definition sample_hashes :: hashes where
  "sample_hashes = \<lparr>hash_string = (\<lambda>s. int (length s)), hash_bool = (\<lambda>b. if b then 1 else 0), hash_uint32 = (\<lambda>i. i),
     hash_combine = (\<lambda>h x. 33 * h + x)\<rparr>"

theorem equals_decides_witness:
  "value_equals no_doubles (\<lambda>_. []) (sample_object [(''a'', ConfigInt sample_origin 1 ''1''), (''b'', ConfigNull sample_origin)])
       (sample_object [(''b'', ConfigNull sample_origin), (''a'', ConfigInt sample_origin 1 ''01'')]) = Inr True \<and>
   value_hash sample_hashes (sample_object [(''a'', ConfigInt sample_origin 1 ''1''), (''b'', ConfigNull sample_origin)]) =
     value_hash sample_hashes (sample_object [(''b'', ConfigNull sample_origin), (''a'', ConfigInt sample_origin 1 ''01'')])"
  using equals_decides [of "sample_object [(''a'', ConfigInt sample_origin 1 ''1''), (''b'', ConfigNull sample_origin)]"
      "sample_object [(''b'', ConfigNull sample_origin), (''a'', ConfigInt sample_origin 1 ''01'')]" no_doubles "\<lambda>_. []" sample_hashes]
  by (simp add: sample_object_def int32_min_def int32_max_def fun_upd_twist)

text \<open>Wider numbers: the comparison narrows to the type of the second number, and is not symmetric.\<close>

lemma equals_narrows:
  "value_equals fp addr (ConfigInt64 orig 4294967297 t) (ConfigInt orig 1 t) = Inr True"
  "value_equals fp addr (ConfigInt orig 1 t) (ConfigInt64 orig 4294967297 t) = Inr False"
  by (simp_all add: number_equals_def abstract_equals_def bind_exc_def to_int32_def)

text \<open>Two substitution tokens are equal whether or not they are optional.\<close>

lemma optional_ignored:
  "token_equals fp addr (SubstitutionToken orig True [UnquotedTextToken orig s]) (SubstitutionToken orig False [UnquotedTextToken orig s]) = Inr True"
  by (simp add: bind_exc_def)

end
