(* ===== verification/Http_Client.thy ===== *)
theory Http_Client
  imports String_Util
begin

section \<open>The HTTP client (utils/include/http.hpp and utils/src/http.cpp)\<close>

text \<open>
  Requests, responses and the two clients.  libcurl is an argument: whether a handle can be
  created, and for every attempt which callbacks it calls in which order, the code it ends
  with and the status code it reports.  The model keeps the calls made to libcurl, so that
  what is sent, retried and released can be read off.
\<close>

subsection \<open>Messages\<close>

datatype http_method =
  METHOD_GET | METHOD_POST | METHOD_PUT | METHOD_DELETE | METHOD_PATCH | METHOD_HEAD | UNKNOWN

type_synonym http_headers = "(string \<times> string) list"
type_synonym http_params = "(string \<times> string) list"

record http_request =
  rq_headers :: http_headers
  rq_body :: string
  rq_host :: string
  rq_port :: int
  rq_uri :: string
  rq_method :: http_method
  rq_params :: http_params

record http_response =
  rs_headers :: http_headers
  rs_body :: string
  rs_code :: int
  rs_status :: string
  rs_str_headers :: string

definition new_request :: "string \<Rightarrow> int \<Rightarrow> string \<Rightarrow> http_method \<Rightarrow> http_request" where
  "new_request host port uri meth =
     \<lparr>rq_headers = [], rq_body = [], rq_host = host, rq_port = port, rq_uri = uri, rq_method = meth, rq_params = []\<rparr>"

definition default_request :: http_request where
  "default_request = new_request ''localhost'' 80 ''/'' METHOD_GET"

definition new_response :: http_response where
  "new_response = \<lparr>rs_headers = [], rs_body = [], rs_code = 0, rs_status = [], rs_str_headers = []\<rparr>"

text \<open>\<^verbatim>\<open>operator[]\<close> of \<^verbatim>\<open>std::map\<close> with an assignment.\<close>

definition add_header :: "string \<Rightarrow> string \<Rightarrow> http_request \<Rightarrow> http_request" where
  "add_header name val r = r\<lparr>rq_headers := map_put name val (rq_headers r)\<rparr>"

definition add_param :: "string \<Rightarrow> string \<Rightarrow> http_request \<Rightarrow> http_request" where
  "add_param name val r = r\<lparr>rq_params := map_put name val (rq_params r)\<rparr>"

definition set_content_type_json :: "http_request \<Rightarrow> http_request" where
  "set_content_type_json = add_header ''Content-Type'' ''application/json; charset=utf-8''"

definition set_accept_json :: "http_request \<Rightarrow> http_request" where
  "set_accept_json = add_header ''Accept'' ''application/json''"

definition set_accept_encoding :: "http_request \<Rightarrow> http_request" where
  "set_accept_encoding = add_header ''Accept-Encoding'' ''gzip,deflate''"

text \<open>The size is converted from \<^verbatim>\<open>size_t\<close> to \<^verbatim>\<open>int\<close>.\<close>

definition set_content_length :: "int \<Rightarrow> http_request \<Rightarrow> http_request" where
  "set_content_length n = add_header ''Content-Length'' (show_int n)"

definition set_body :: "string \<Rightarrow> http_request \<Rightarrow> http_request" where
  "set_body body r = set_content_length (to_int32 (int (length body))) (r\<lparr>rq_body := body\<rparr>)"

fun method_str :: "http_method \<Rightarrow> string" where
  "method_str METHOD_GET = ''GET''"
| "method_str METHOD_POST = ''POST''"
| "method_str METHOD_PUT = ''PUT''"
| "method_str METHOD_PATCH = ''PATCH''"
| "method_str METHOD_DELETE = ''DELETE''"
| "method_str METHOD_HEAD = ''HEAD''"
| "method_str UNKNOWN = ''UNKNOWN''"

definition str_to_method :: "string \<Rightarrow> http_method" where
  "str_to_method str =
     (if str = ''GET'' then METHOD_GET else if str = ''POST'' then METHOD_POST
      else if str = ''PUT'' then METHOD_PUT else if str = ''PATCH'' then METHOD_PATCH
      else if str = ''DELETE'' then METHOD_DELETE else if str = ''HEAD'' then METHOD_HEAD
      else UNKNOWN)"

subsection \<open>Text of requests and responses\<close>

definition join_step :: "string \<Rightarrow> string \<times> string \<Rightarrow> string" where
  "join_step joined = (\<lambda>(name, val).
     joined @ (if joined \<noteq> [] then ''&'' else []) @ name @
     (if \<not> is_empty val then ''='' @ uri_encode val True else []))"

definition join_params :: "http_params \<Rightarrow> string" where
  "join_params params = foldl join_step [] params"

text \<open>\<^verbatim>\<open>std::string::find\<close> of a text.\<close>

fun text_find :: "string \<Rightarrow> string \<Rightarrow> nat option" where
  "text_find pat s =
     (if take (length pat) s = pat then Some 0
      else case s of [] \<Rightarrow> None | c # cs \<Rightarrow> map_option Suc (text_find pat cs))"

declare text_find.simps [simp del]

definition build_headers_from_str :: "string \<Rightarrow> http_headers" where
  "build_headers_from_str str =
     (let (ret, headers) = split_map (space_trim str) CHR 0x0A CHR '':'' [] True True
      in if ret < 0 then [] else filter (\<lambda>e. text_find ''HTTP/1.1'' (fst e) = None) headers)"

text \<open>\<open>None\<close>: \<^verbatim>\<open>substr\<close> throws \<^verbatim>\<open>out_of_range\<close>.  The end position is passed as a length.\<close>

definition get_statusline_from_str :: "string \<Rightarrow> string option" where
  "get_statusline_from_str str =
     (case text_find ''HTTP'' str of
        None \<Rightarrow> None
      | Some startpos \<Rightarrow>
          Some (space_trim (case text_find [CHR 0x0D, CHR 0x0A] str of
                              None \<Rightarrow> drop startpos str
                            | Some endpos \<Rightarrow> take endpos (drop startpos str))))"

subsection \<open>libcurl\<close>

datatype curl_code =
  CURLE_OK | CURLE_COULDNT_RESOLVE_HOST | CURLE_COULDNT_CONNECT | CURLE_SEND_ERROR | CURLE_RECV_ERROR | CURLE_OTHER

datatype curl_option =
  CURLOPT_VERBOSE int | CURLOPT_DEBUGFUNCTION | CURLOPT_SSL_VERIFYPEER int | CURLOPT_SSL_VERIFYHOST int
| CURLOPT_ERRORBUFFER | CURLOPT_POST int | CURLOPT_PUT int | CURLOPT_CUSTOMREQUEST string | CURLOPT_URL string
| CURLOPT_READFUNCTION | CURLOPT_READDATA | CURLOPT_HTTPHEADER "string list" | CURLOPT_WRITEFUNCTION
| CURLOPT_WRITEDATA | CURLOPT_HEADERFUNCTION | CURLOPT_HEADERDATA | CURLOPT_FOLLOWLOCATION int
| CURLOPT_NOSIGNAL int | CURLOPT_CONNECTTIMEOUT int | CURLOPT_TIMEOUT int | CURLOPT_LOW_SPEED_TIME int
| CURLOPT_LOW_SPEED_LIMIT int

text \<open>The callbacks of one attempt: more of the body is wanted, or data and header text arrived.\<close>

datatype curl_event = WantBody nat | GotBody string | GotHeader string

record curl =
  curl_easy_init :: bool
  curl_easy_perform :: "curl_option list \<Rightarrow> nat \<Rightarrow> curl_event list \<times> curl_code"
  curl_response_code :: "curl_option list \<Rightarrow> nat \<Rightarrow> int"

datatype curl_call =
  EasyInit | SetOpt curl_option | Perform "curl_event list" curl_code | GetInfo | FreeHeaders | EasyCleanup

datatype http_error = OutOfRange

text \<open>The stream the request body is read from, and the response.\<close>

record transfer =
  tr_stream :: string
  tr_sent :: string
  tr_response :: http_response

definition write_body :: "nat \<Rightarrow> transfer \<Rightarrow> transfer" where
  "write_body n t = t\<lparr>tr_stream := drop n (tr_stream t), tr_sent := tr_sent t @ take n (tr_stream t)\<rparr>"

definition read_body :: "string \<Rightarrow> transfer \<Rightarrow> transfer" where
  "read_body data t = t\<lparr>tr_response := (tr_response t)\<lparr>rs_body := rs_body (tr_response t) @ data\<rparr>\<rparr>"

definition read_headers :: "string \<Rightarrow> transfer \<Rightarrow> transfer" where
  "read_headers data t = t\<lparr>tr_response := (tr_response t)\<lparr>rs_str_headers := rs_str_headers (tr_response t) @ data\<rparr>\<rparr>"

fun run_event :: "curl_event \<Rightarrow> transfer \<Rightarrow> transfer" where
  "run_event (WantBody n) t = write_body n t"
| "run_event (GotBody data) t = read_body data t"
| "run_event (GotHeader data) t = read_headers data t"

definition run_events :: "curl_event list \<Rightarrow> transfer \<Rightarrow> transfer" where
  "run_events es t = fold run_event es t"

subsection \<open>Talking to a server\<close>

fun method_options :: "http_method \<Rightarrow> curl_option list option" where
  "method_options METHOD_POST = Some [CURLOPT_POST 1]"
| "method_options METHOD_PUT = Some [CURLOPT_PUT 1]"
| "method_options METHOD_DELETE = Some [CURLOPT_PUT 0, CURLOPT_CUSTOMREQUEST ''DELETE'']"
| "method_options METHOD_GET = Some []"
| "method_options METHOD_PATCH = None"
| "method_options METHOD_HEAD = None"
| "method_options UNKNOWN = None"

definition request_url :: "string \<Rightarrow> http_request \<Rightarrow> string" where
  "request_url scheme r =
     scheme @ rq_host r @ '':'' @ show_int (rq_port r) @ rq_uri r @
     (if rq_params r \<noteq> [] then ''?'' @ join_params (rq_params r) else [])"

definition header_lines :: "http_request \<Rightarrow> string list" where
  "header_lines r = map (\<lambda>(name, val). c_str (name @ '':'' @ val)) (rq_headers r)"

definition transfer_options :: "string \<Rightarrow> http_request \<Rightarrow> curl_option list" where
  "transfer_options url r =
     [CURLOPT_URL (c_str url), CURLOPT_READFUNCTION, CURLOPT_READDATA, CURLOPT_HTTPHEADER (header_lines r),
      CURLOPT_WRITEFUNCTION, CURLOPT_WRITEDATA, CURLOPT_HEADERFUNCTION, CURLOPT_HEADERDATA,
      CURLOPT_FOLLOWLOCATION 1, CURLOPT_NOSIGNAL 1, CURLOPT_CONNECTTIMEOUT 3, CURLOPT_TIMEOUT 3,
      CURLOPT_LOW_SPEED_TIME 5, CURLOPT_LOW_SPEED_LIMIT 1]"

text \<open>The end of a successful attempt: headers and status line are taken from the header text.\<close>

definition accept_response :: "http_response \<Rightarrow> (http_error + curl_code) \<times> http_response" where
  "accept_response rs =
     (let rs' = rs\<lparr>rs_headers := build_headers_from_str (rs_str_headers rs)\<rparr>
      in case get_statusline_from_str (rs_str_headers rs) of
           None \<Rightarrow> (Inl OutOfRange, rs')
         | Some line \<Rightarrow> (Inr CURLE_OK, rs'\<lparr>rs_status := line\<rparr>))"

text \<open>At most \<open>k\<close> further attempts, the first of them number \<open>i\<close>; the last code is kept.\<close>

fun attempts ::
  "curl \<Rightarrow> curl_option list \<Rightarrow> nat \<Rightarrow> nat \<Rightarrow> curl_code \<Rightarrow> transfer
   \<Rightarrow> (http_error + curl_code) \<times> transfer \<times> curl_call list" where
  "attempts cl opts i 0 last_code t = (Inr last_code, t, [])"
| "attempts cl opts i (Suc k) last_code t =
     (let (es, res) = curl_easy_perform cl opts i; t' = run_events es t
      in if res = CURLE_OK
         then let (r, rs) = accept_response (tr_response t') in (r, t'\<lparr>tr_response := rs\<rparr>, [Perform es res])
         else let (r, t'', calls) = attempts cl opts (Suc i) k res t' in (r, t'', Perform es res # calls))"

fun http_error_code :: "curl_code \<Rightarrow> int" where
  "http_error_code CURLE_COULDNT_RESOLVE_HOST = -2"
| "http_error_code CURLE_COULDNT_CONNECT = -3"
| "http_error_code CURLE_SEND_ERROR = -4"
| "http_error_code CURLE_RECV_ERROR = -5"
| "http_error_code _ = -1"

text \<open>
  Both \<^verbatim>\<open>talk\<close> functions: they differ in the scheme, in two options, in the number of attempts
  and in the code of a failure.
\<close>

definition start_transfer :: "http_request \<Rightarrow> http_response \<Rightarrow> transfer" where
  "start_transfer r rs = \<lparr>tr_stream = rq_body r, tr_sent = [], tr_response = rs\<rparr>"

definition finish_talk ::
  "curl \<Rightarrow> curl_option list \<Rightarrow> (curl_code \<Rightarrow> int) \<Rightarrow> curl_call list \<Rightarrow> (http_error + curl_code) \<times> transfer \<times> curl_call list
   \<Rightarrow> (http_error + int) \<times> transfer \<times> curl_call list" where
  "finish_talk cl opts failed before = (\<lambda>(r, t, calls).
     case r of
       Inl e \<Rightarrow> (Inl e, t, before @ calls)
     | Inr res \<Rightarrow>
         (Inr (if res = CURLE_OK then to_int32 (curl_response_code cl opts (length calls)) else failed res),
          t, before @ calls @ [GetInfo, FreeHeaders, EasyCleanup]))"

definition http_talk ::
  "curl \<Rightarrow> http_request \<Rightarrow> http_response \<Rightarrow> (http_error + int) \<times> transfer \<times> curl_call list" where
  "http_talk cl r rs =
     (let url = request_url [] r; t = start_transfer r rs
      in if \<not> curl_easy_init cl then (Inr (-1), t, [EasyInit])
         else let opts = [CURLOPT_VERBOSE 1, CURLOPT_DEBUGFUNCTION, CURLOPT_ERRORBUFFER]
              in case method_options (rq_method r) of
                   None \<Rightarrow> (Inr (-1), t, EasyInit # map SetOpt opts)
                 | Some mopts \<Rightarrow>
                     let opts = opts @ mopts @ transfer_options url r
                     in finish_talk cl opts http_error_code (EasyInit # map SetOpt opts)
                          (attempts cl opts 0 3 CURLE_OK t))"

definition https_talk ::
  "curl \<Rightarrow> http_request \<Rightarrow> http_response \<Rightarrow> (http_error + int) \<times> transfer \<times> curl_call list" where
  "https_talk cl r rs =
     (let url = request_url ''https://'' r; t = start_transfer r rs
      in if \<not> curl_easy_init cl then (Inr (-1), t, [EasyInit])
         else let opts = [CURLOPT_VERBOSE 1, CURLOPT_DEBUGFUNCTION, CURLOPT_SSL_VERIFYPEER 0,
                          CURLOPT_SSL_VERIFYHOST 0, CURLOPT_ERRORBUFFER]
              in case method_options (rq_method r) of
                   None \<Rightarrow> (Inr (-1), t, EasyInit # map SetOpt opts)
                 | Some mopts \<Rightarrow>
                     let opts = opts @ mopts @ transfer_options url r
                     in finish_talk cl opts (\<lambda>_. -1) (EasyInit # map SetOpt opts)
                          (attempts cl opts 0 1 CURLE_OK t))"

text \<open>The flag of \<^verbatim>\<open>global_init\<close> and \<^verbatim>\<open>global_cleanup\<close>: the new flag and whether libcurl is called.\<close>

definition global_init :: "int \<Rightarrow> int \<times> bool" where
  "global_init flag = (if flag = 0 then (1, True) else (flag, False))"

definition global_cleanup :: "int \<Rightarrow> int \<times> bool" where
  "global_cleanup flag = (if flag = 1 then (0, True) else (flag, False))"

subsection \<open>What a transfer leaves behind\<close>

fun event_body :: "curl_event \<Rightarrow> string" where
  "event_body (GotBody data) = data" | "event_body _ = []"

fun event_header :: "curl_event \<Rightarrow> string" where
  "event_header (GotHeader data) = data" | "event_header _ = []"

lemma run_events_simps [simp]: "run_events [] t = t" "run_events (e # es) t = run_events es (run_event e t)"
  by (simp_all add: run_events_def)

lemma run_events_append: "run_events (es @ fs) t = run_events fs (run_events es t)"
  by (simp add: run_events_def)

lemma run_events_effect:
  "tr_sent (run_events es t) @ tr_stream (run_events es t) = tr_sent t @ tr_stream t"
  "rs_body (tr_response (run_events es t)) = rs_body (tr_response t) @ concat (map event_body es)"
  "rs_str_headers (tr_response (run_events es t)) = rs_str_headers (tr_response t) @ concat (map event_header es)"
proof (induction es arbitrary: t)
  case (Cons e es)
  { case 1 from Cons(1) show ?case by (cases e) (simp_all add: write_body_def read_body_def read_headers_def) }
  { case 2 from Cons(2) show ?case by (cases e) (simp_all add: write_body_def read_body_def read_headers_def) }
  { case 3 from Cons(3) show ?case by (cases e) (simp_all add: write_body_def read_body_def read_headers_def) }
qed simp_all

text \<open>The calls of \<open>n\<close> attempts from attempt \<open>i\<close> on, and their callbacks.\<close>

definition performed :: "curl \<Rightarrow> curl_option list \<Rightarrow> nat \<Rightarrow> nat \<Rightarrow> curl_call list" where
  "performed cl opts i n = map (\<lambda>j. case curl_easy_perform cl opts j of (es, c) \<Rightarrow> Perform es c) [i..<i + n]"

definition callbacks :: "curl \<Rightarrow> curl_option list \<Rightarrow> nat \<Rightarrow> nat \<Rightarrow> curl_event list" where
  "callbacks cl opts i n = concat (map (\<lambda>j. fst (curl_easy_perform cl opts j)) [i..<i + n])"

lemma performed_simps [simp]:
  "performed cl opts i 0 = []" "length (performed cl opts i n) = n"
  "performed cl opts i (Suc n) = (case curl_easy_perform cl opts i of (es, c) \<Rightarrow> Perform es c) # performed cl opts (Suc i) n"
  by (simp_all add: performed_def upt_conv_Cons del: upt_Suc)

lemma callbacks_simps [simp]:
  "callbacks cl opts i 0 = []"
  "callbacks cl opts i (Suc n) = fst (curl_easy_perform cl opts i) @ callbacks cl opts (Suc i) n"
  by (simp_all add: callbacks_def upt_conv_Cons del: upt_Suc)

text \<open>How the attempts end: with the first success, or after the last failure.\<close>

lemma attempts_outcome:
  "\<exists>n. n \<le> k \<and> (\<forall>j < n - 1. snd (curl_easy_perform cl opts (i + j)) \<noteq> CURLE_OK) \<and>
     (let t' = run_events (callbacks cl opts i n) t; res = (if n = 0 then c else snd (curl_easy_perform cl opts (i + n - 1)))
      in (res = CURLE_OK \<and> n > 0 \<or> n = k) \<and>
         attempts cl opts i k c t =
           (if res = CURLE_OK \<and> n > 0
            then case accept_response (tr_response t') of (r, rs) \<Rightarrow> (r, t'\<lparr>tr_response := rs\<rparr>, performed cl opts i n)
            else (Inr res, t', performed cl opts i n)))"
proof (induction k arbitrary: i c t)
  case (Suc k)
  obtain es res where p: "curl_easy_perform cl opts i = (es, res)" by (rule prod.exhaust)
  show ?case
  proof (cases "res = CURLE_OK")
    case True
    then show ?thesis by (intro exI [of _ 1]) (simp add: p Let_def split: prod.splits)
  next
    case False
    obtain n where n: "n \<le> k" "\<forall>j < n - 1. snd (curl_easy_perform cl opts (Suc i + j)) \<noteq> CURLE_OK"
      "let t' = run_events (callbacks cl opts (Suc i) n) (run_events es t);
           r = (if n = 0 then res else snd (curl_easy_perform cl opts (Suc i + n - 1)))
       in (r = CURLE_OK \<and> n > 0 \<or> n = k) \<and> attempts cl opts (Suc i) k res (run_events es t) =
           (if r = CURLE_OK \<and> n > 0
            then case accept_response (tr_response t') of (r, rs) \<Rightarrow> (r, t'\<lparr>tr_response := rs\<rparr>, performed cl opts (Suc i) n)
            else (Inr r, t', performed cl opts (Suc i) n))"
      using Suc.IH [where i = "Suc i" and c = res and t = "run_events es t"] by blast
    have early: "\<forall>j < Suc n - 1. snd (curl_easy_perform cl opts (i + j)) \<noteq> CURLE_OK"
    proof (intro allI impI)
      fix j assume "j < Suc n - 1"
      then show "snd (curl_easy_perform cl opts (i + j)) \<noteq> CURLE_OK" using n(2) False p by (cases j) auto
    qed
    show ?thesis
      using n(1,3) early False p
      by (intro exI [of _ "Suc n"]) (cases n; auto simp: Let_def run_events_append split: prod.splits)
  qed
qed (auto simp: Let_def)

fun is_perform :: "curl_call \<Rightarrow> bool" where
  "is_perform (Perform _ _) = True" | "is_perform _ = False"

lemma filter_performed [simp]:
  "filter is_perform (performed cl opts i n) = performed cl opts i n"
  "filter is_perform (map SetOpt opts') = []" "EasyCleanup \<notin> set (performed cl opts i n)" "EasyCleanup \<notin> SetOpt ` A"
  by (induction n arbitrary: i) (auto split: prod.splits simp: filter_empty_conv)

text \<open>
  What a conversation of \<open>n\<close> attempts out of at most \<open>k\<close> comes to: the code of the last
  attempt decides; whatever arrived in any attempt is in the response; no byte of the
  request is sent twice; the handle is released unless the status line is missing.
\<close>

definition talked ::
  "curl \<Rightarrow> curl_option list \<Rightarrow> (curl_code \<Rightarrow> int) \<Rightarrow> http_request \<Rightarrow> http_response \<Rightarrow> nat \<Rightarrow> nat
   \<Rightarrow> (http_error + int) \<times> transfer \<times> curl_call list \<Rightarrow> bool" where
  "talked cl opts failed r rs k n = (\<lambda>(ret, t, calls).
     let res = snd (curl_easy_perform cl opts (n - 1));
         headers = rs_str_headers rs @ concat (map event_header (callbacks cl opts 0 n))
     in 1 \<le> n \<and> n \<le> k \<and> (\<forall>j < n - 1. snd (curl_easy_perform cl opts j) \<noteq> CURLE_OK) \<and> (res = CURLE_OK \<or> n = k) \<and>
        filter is_perform calls = performed cl opts 0 n \<and>
        tr_sent t @ tr_stream t = rq_body r \<and>
        rs_body (tr_response t) = rs_body rs @ concat (map event_body (callbacks cl opts 0 n)) \<and>
        rs_str_headers (tr_response t) = headers \<and>
        (if res \<noteq> CURLE_OK then ret = Inr (failed res) \<and> EasyCleanup \<in> set calls
         else case get_statusline_from_str headers of
                None \<Rightarrow> ret = Inl OutOfRange \<and> EasyCleanup \<notin> set calls
              | Some line \<Rightarrow> ret = Inr (to_int32 (curl_response_code cl opts n)) \<and> EasyCleanup \<in> set calls \<and>
                  rs_status (tr_response t) = line \<and> rs_headers (tr_response t) = build_headers_from_str headers))"

lemma finish_talk_outcome:
  assumes "k > 0"
  shows "\<exists>n. talked cl opts failed r rs k n
     (finish_talk cl opts failed (EasyInit # map SetOpt opts) (attempts cl opts 0 k CURLE_OK (start_transfer r rs)))"
proof -
  obtain n where n: "n \<le> k" "\<forall>j < n - 1. snd (curl_easy_perform cl opts j) \<noteq> CURLE_OK"
    and a: "let t' = run_events (callbacks cl opts 0 n) (start_transfer r rs);
                res = (if n = 0 then CURLE_OK else snd (curl_easy_perform cl opts (n - 1)))
       in (res = CURLE_OK \<and> n > 0 \<or> n = k) \<and> attempts cl opts 0 k CURLE_OK (start_transfer r rs) =
           (if res = CURLE_OK \<and> n > 0
            then case accept_response (tr_response t') of (r, rs) \<Rightarrow> (r, t'\<lparr>tr_response := rs\<rparr>, performed cl opts 0 n)
            else (Inr res, t', performed cl opts 0 n))"
    using attempts_outcome [where k = k and i = 0 and c = CURLE_OK and t = "start_transfer r rs" and cl = cl and opts = opts]
    unfolding add_0 by blast
  have pos: "n > 0" using a assms by (auto simp: Let_def)
  note eff = run_events_effect [of "callbacks cl opts 0 n" "start_transfer r rs"]
  show ?thesis
    using a n pos eff
    by (intro exI [of _ n])
       (auto simp: talked_def Let_def finish_talk_def accept_response_def start_transfer_def split: option.splits sum.splits if_splits)
qed

text \<open>
  C19: a request of a supported method is attempted until the first success, three times at
  most over HTTP and once over HTTPS.  The result is the status code of the last attempt, or
  the code of its failure; an answer without a status line ends in an exception that leaks
  the handle, as does a method that is not supported.  The response holds the body and the
  header text of all attempts one after the other, and a repeated attempt sends only what
  the earlier ones left of the request body.
\<close>

theorem talk_outcomes:
  assumes "curl_easy_init cl"
  shows "case method_options (rq_method r) of
     None \<Rightarrow> (\<forall>talk \<in> {http_talk, https_talk}. \<exists>calls. talk cl r rs = (Inr (-1), start_transfer r rs, calls) \<and>
                filter is_perform calls = [] \<and> EasyCleanup \<notin> set calls)
   | Some mopts \<Rightarrow> \<exists>opts opts' n m.
       CURLOPT_URL (c_str (request_url [] r)) \<in> set opts \<and> talked cl opts http_error_code r rs 3 n (http_talk cl r rs) \<and>
       CURLOPT_URL (c_str (request_url ''https://'' r)) \<in> set opts' \<and> talked cl opts' (\<lambda>_. -1) r rs 1 m (https_talk cl r rs)"
proof (cases "method_options (rq_method r)")
  case None
  with assms show ?thesis by (auto simp: http_talk_def https_talk_def Let_def)
next
  case (Some mopts)
  let ?opts = "[CURLOPT_VERBOSE 1, CURLOPT_DEBUGFUNCTION, CURLOPT_ERRORBUFFER] @ mopts @ transfer_options (request_url [] r) r"
  let ?opts' = "[CURLOPT_VERBOSE 1, CURLOPT_DEBUGFUNCTION, CURLOPT_SSL_VERIFYPEER 0, CURLOPT_SSL_VERIFYHOST 0,
     CURLOPT_ERRORBUFFER] @ mopts @ transfer_options (request_url ''https://'' r) r"
  obtain n where "talked cl ?opts http_error_code r rs 3 n (http_talk cl r rs)"
    using finish_talk_outcome [of 3 cl ?opts http_error_code r rs] assms Some by (auto simp: http_talk_def Let_def simp del: attempts.simps)
  moreover obtain m where "talked cl ?opts' (\<lambda>_. -1) r rs 1 m (https_talk cl r rs)"
    using finish_talk_outcome [of 1 cl ?opts' "\<lambda>_. -1" r rs] assms Some by (auto simp: https_talk_def Let_def simp del: attempts.simps)
  moreover have "CURLOPT_URL (c_str (request_url [] r)) \<in> set ?opts" "CURLOPT_URL (c_str (request_url ''https://'' r)) \<in> set ?opts'"
    by (simp_all add: transfer_options_def)
  ultimately show ?thesis using Some by (simp only: option.case) blast
qed

definition sample_curl :: curl where
  "sample_curl = \<lparr>curl_easy_init = True,
     curl_easy_perform = \<lambda>opts i. if i = 0 then ([WantBody 9, GotBody ''lost''], CURLE_RECV_ERROR)
        else ([WantBody 9, GotHeader (''HTTP/1.1 200 OK'' @ [CHR 0x0D, CHR 0x0A]), GotBody ''body''], CURLE_OK),
     curl_response_code = \<lambda>opts i. 200\<rparr>"

theorem talk_outcomes_witness:
  "\<exists>opts n. talked sample_curl opts http_error_code (set_body ''question'' default_request) new_response 3 n
     (http_talk sample_curl (set_body ''question'' default_request) new_response)"
  using talk_outcomes [of sample_curl "set_body ''question'' default_request" new_response]
  by (auto simp: sample_curl_def set_body_def set_content_length_def add_header_def default_request_def new_request_def)

subsection \<open>Reading headers back\<close>

lemma strip_blanks: "list_all P xs \<Longrightarrow> list_all P ys \<Longrightarrow> strip P (xs @ m @ ys) = strip P m"
proof (cases "list_all P m")
  case True
  then show "list_all P xs \<Longrightarrow> list_all P ys \<Longrightarrow> ?thesis" by (metis list_all_append strip_eq_Nil_iff)
next
  case False
  assume xs: "list_all P xs" and ys: "list_all P ys"
  obtain us ws where m: "m = us @ strip P m @ ws" "list_all P us" "list_all P ws" using strip_decomp by blast
  have ne: "strip P m \<noteq> []" using False by (simp add: strip_eq_Nil_iff)
  have "strip P ((xs @ us) @ strip P m @ (ws @ ys)) = strip P m"
    using xs ys m(2,3) ne strip_ends [OF ne] by (intro strip_middle) auto
  with m(1) show ?thesis by (metis append.assoc)
qed

lemma split_entry_colon:
  assumes "d \<notin> set n"
  shows "split_entry d True (n @ d # v) = Some (strip is_space n, strip is_space v)"
proof -
  have "str_find d (n @ d # v) = Some (length n)" using assms by (simp add: str_find_append)
  then show ?thesis
    using split_vec.split_Cons [OF assms, of v] split_vec_not_Nil [of v d] split_vec_join [of d v]
    by (auto simp: split_entry_def space_trim_strip split: list.splits)
qed

lemma split_entry_plain: "d \<notin> set n \<Longrightarrow> split_entry d True n = Some (strip is_space n, [])"
  by (simp add: split_entry_def split_vec.split_singleton space_trim_strip)

text \<open>The map built from lines that all split: the first line of a name wins.\<close>

lemma split_map_lines_map:
  assumes "list_all2 (\<lambda>l e. split_entry d True l = Some e) lines es" "map_ok m"
  shows "\<exists>r. split_map_lines d True lines m = (0, r) \<and> map_ok r \<and> map_of r = map_of es ++ map_of m"
  using assms
proof (induction lines es arbitrary: m rule: list_all2_induct)
  case (Cons l lines e es)
  obtain n v where e: "e = (n, v)" by (cases e)
  obtain r where r: "split_map_lines d True lines (map_insert n v m) = (0, r)" "map_ok r"
    "map_of r = map_of es ++ map_of (map_insert n v m)"
    using Cons.IH [of "map_insert n v m"] Cons.prems by auto
  have "map_of es ++ map_of (map_insert n v m) = map_of (e # es) ++ map_of m"
    using Cons.prems by (auto simp: e map_of_insert fun_eq_iff map_add_def split: option.splits)
  with r Cons.hyps(1) show ?case by (simp add: e fun_upd_def)
qed simp

definition header_ok :: "string \<times> string \<Rightarrow> bool" where
  "header_ok = (\<lambda>(n, v). n \<noteq> [] \<and> strip is_space n = n \<and> strip is_space v = v \<and> CHR '':'' \<notin> set n \<and>
     CHR 0x0A \<notin> set n \<and> CHR 0x0A \<notin> set v \<and> text_find ''HTTP/1.1'' n = None)"

definition header_line :: "string \<times> string \<Rightarrow> string" where
  "header_line = (\<lambda>(n, v). n @ '': '' @ v)"

definition crlf :: string where
  "crlf = [CHR 0x0D, CHR 0x0A]"

definition response_head :: "string \<Rightarrow> http_headers \<Rightarrow> string" where
  "response_head reason hs = concat (map (\<lambda>l. l @ crlf) ((''HTTP/1.1 '' @ reason) # map header_line hs)) @ crlf"

text \<open>A line that goes on after a non-blank character, cut behind its last one.\<close>

lemma cut_blanks:
  assumes "a \<noteq> []" "\<not> P (last a)"
  shows "\<exists>b' ws. b = b' @ ws \<and> list_all P ws \<and> \<not> P (last (a @ b'))"
proof (intro exI conjI)
  let ?b = "rev (dropWhile P (rev b))"
  show "b = ?b @ rev (takeWhile P (rev b))" by (metis rev_append rev_rev_ident takeWhile_dropWhile_id)
  show "list_all P (rev (takeWhile P (rev b)))" by (auto simp: list_all_iff dest: set_takeWhileD)
  show "\<not> P (last (a @ ?b))"
    using assms hd_dropWhile [of P "rev b"] by (cases "dropWhile P (rev b) = []") (auto simp: last_rev)
qed

lemma header_line_entry:
  assumes "header_ok (n, v)" "list_all is_space ws" "list_all is_space ws'" "b @ ws = '' '' @ v @ ws'"
  shows "split_entry CHR '':'' True (n @ CHR '':'' # b) = Some (n, v)"
proof -
  have "strip is_space b = strip is_space ([] @ b @ ws)" by (rule strip_blanks [symmetric]) (use assms(2) in simp_all)
  also have "\<dots> = strip is_space ('' '' @ v @ ws')" by (simp add: assms(4))
  also have "\<dots> = strip is_space v" by (rule strip_blanks) (use assms(3) in \<open>simp_all add: is_space_def\<close>)
  finally show ?thesis
    using split_entry_colon [of "CHR '':''" n b] assms(1) by (simp add: header_ok_def)
qed

lemma strip_keeps:
  assumes "a \<noteq> []" "\<not> P (hd a)" "\<not> P (last a)"
  shows "\<exists>b'. strip P (a @ b) = a @ b'"
proof -
  obtain b' ws where b: "b = b' @ ws" "list_all P ws" "\<not> P (last (a @ b'))" using cut_blanks [of a P b] assms by blast
  have "strip P ([] @ (a @ b') @ ws) = a @ b'"
    using b assms by (intro strip_middle) auto
  with b(1) show ?thesis by auto
qed

lemma status_line_entry: "\<exists>n v. split_entry CHR '':'' True (''HTTP/1.1'' @ b) = Some (n, v) \<and> text_find ''HTTP/1.1'' n \<noteq> None"
proof -
  have found: "\<exists>c. strip is_space (''HTTP/1.1'' @ x) = ''HTTP/1.1'' @ c" for x
    by (rule strip_keeps) (simp_all add: is_space_def)
  have key: "text_find ''HTTP/1.1'' (strip is_space (''HTTP/1.1'' @ x)) \<noteq> None" for x
    using found [of x] by (auto simp: text_find.simps)
  show ?thesis
  proof (cases "CHR '':'' \<in> set b")
    case True
    then obtain x y where "b = x @ CHR '':'' # y" "CHR '':'' \<notin> set x" by (meson split_list_first)
    then show ?thesis using split_entry_colon [of "CHR '':''" "''HTTP/1.1'' @ x" y] key [of x] by auto
  next
    case False
    then show ?thesis using split_entry_plain [of "CHR '':''" "''HTTP/1.1'' @ b"] key [of b] by auto
  qed
qed

lemma concat_lines:
  "L \<noteq> [] \<Longrightarrow> concat (map (\<lambda>l. l @ crlf) L) =
     intercalate CHR 0x0A (map (\<lambda>l. l @ [CHR 0x0D]) (butlast L) @ [last L]) @ crlf"
proof (induction L)
  case (Cons l L)
  then show ?case by (cases "L = []") (auto simp: crlf_def intercalate_Cons)
qed simp

lemma intercalate_snoc: "intercalate d (ps @ [p @ ws]) = intercalate d (ps @ [p]) @ ws"
  by (induction ps) (simp_all add: intercalate_Cons)

text \<open>
  The lines of a response as \<^verbatim>\<open>split\<close> sees them: each with blanks behind it, the last one
  without.  The status line becomes an entry that is deleted.
\<close>

definition reads_as :: "string \<Rightarrow> (string \<times> string) option \<Rightarrow> bool" where
  "reads_as l e \<longleftrightarrow> (\<exists>n v. split_entry CHR '':'' True l = Some (n, v) \<and>
     (case e of None \<Rightarrow> text_find ''HTTP/1.1'' n \<noteq> None | Some h \<Rightarrow> h = (n, v) \<and> text_find ''HTTP/1.1'' n = None))"

definition line_ok :: "string \<Rightarrow> (string \<times> string) option \<Rightarrow> bool" where
  "line_ok l e \<longleftrightarrow> CHR 0x0A \<notin> set l \<and> l \<noteq> [] \<and> reads_as (l @ [CHR 0x0D]) e \<and>
     (\<exists>p ws. l = p @ ws \<and> list_all is_space ws \<and> p \<noteq> [] \<and> \<not> is_space (last p) \<and> hd p = hd l \<and> reads_as p e)"

lemma line_okI:
  "l = p @ ws \<Longrightarrow> list_all is_space ws \<Longrightarrow> p \<noteq> [] \<Longrightarrow> \<not> is_space (last p) \<Longrightarrow> reads_as p e \<Longrightarrow>
   reads_as (l @ [CHR 0x0D]) e \<Longrightarrow> CHR 0x0A \<notin> set l \<Longrightarrow> line_ok l e"
  unfolding line_ok_def by (auto simp: hd_append)

lemma cr_space: "is_space CHR 0x0D" "is_space CHR 0x0A"
  by (simp_all add: is_space_def)

lemma header_line_ok: "header_ok h \<Longrightarrow> line_ok (header_line h) (Some h)"
proof -
  assume h: "header_ok h"
  obtain n v where nv: "h = (n, v)" by (cases h)
  obtain b ws where b: "'' '' @ v = b @ ws" "list_all is_space ws" "\<not> is_space (last ((n @ [CHR '':'']) @ b))"
    using cut_blanks [of "n @ [CHR '':'']" is_space "'' '' @ v"] by (auto simp: is_space_def)
  have read: "split_entry CHR '':'' True (n @ CHR '':'' # b) = Some (n, v)"
    by (rule header_line_entry [where ws = ws and ws' = "[]"]) (use h nv b in auto)
  have read_cr: "split_entry CHR '':'' True (n @ CHR '':'' # '' '' @ v @ [CHR 0x0D]) = Some (n, v)"
    by (rule header_line_entry [where ws = "[]" and ws' = "[CHR 0x0D]"]) (use h nv in \<open>auto simp: is_space_def\<close>)
  show ?thesis
  proof (rule line_okI)
    show "header_line h = (n @ CHR '':'' # b) @ ws" using b(1) by (simp add: nv header_line_def)
    show "list_all is_space ws" by (rule b(2))
    show "\<not> is_space (last (n @ CHR '':'' # b))" using b(3) by (simp split: if_splits)
    show "reads_as (n @ CHR '':'' # b) (Some h)" using h read by (simp add: nv reads_as_def header_ok_def)
    show "reads_as (header_line h @ [CHR 0x0D]) (Some h)"
      using h read_cr by (simp add: nv reads_as_def header_ok_def header_line_def)
    show "CHR 0x0A \<notin> set (header_line h)" using h by (simp add: nv header_ok_def header_line_def)
  qed simp
qed

lemma status_line_ok: "CHR 0x0A \<notin> set reason \<Longrightarrow> line_ok (''HTTP/1.1 '' @ reason) None"
proof -
  assume r: "CHR 0x0A \<notin> set reason"
  obtain b ws where b: "'' '' @ reason = b @ ws" "list_all is_space ws" "\<not> is_space (last (''HTTP/1.1'' @ b))"
    using cut_blanks [of "''HTTP/1.1''" is_space "'' '' @ reason"] by (auto simp: is_space_def)
  show ?thesis
  proof (rule line_okI)
    show "''HTTP/1.1 '' @ reason = (''HTTP/1.1'' @ b) @ ws" using b(1) by simp
    show "list_all is_space ws" by (rule b(2))
    show "\<not> is_space (last (''HTTP/1.1'' @ b))" by (rule b(3))
    show "reads_as (''HTTP/1.1'' @ b) None" using status_line_entry [of b] by (simp add: reads_as_def)
    show "reads_as ((''HTTP/1.1 '' @ reason) @ [CHR 0x0D]) None"
      using status_line_entry [of "'' '' @ reason @ [CHR 0x0D]"] by (simp add: reads_as_def)
  qed (use r in simp_all)
qed

lemma line_ok_read: "line_ok l e \<Longrightarrow> CHR 0x0A \<notin> set l \<and> reads_as (l @ [CHR 0x0D]) e"
  by (simp add: line_ok_def)

lemma lines_read:
  assumes "list_all2 line_ok L es" "L \<noteq> []" "\<not> is_space (hd (hd L))"
  shows "\<exists>ls. space_trim (concat (map (\<lambda>l. l @ crlf) L) @ crlf) = intercalate CHR 0x0A ls \<and>
     (\<forall>l \<in> set ls. CHR 0x0A \<notin> set l) \<and> list_all2 reads_as ls es"
proof -
  let ?cr = "\<lambda>l. l @ [CHR 0x0D]"
  obtain L' l where L: "L = L' @ [l]" using assms(2) by (metis append_butlast_last_id)
  with assms(1) obtain es' e where es: "es = es' @ [e]" and ok: "list_all2 line_ok L' es'" "line_ok l e"
    by (auto simp: list_all2_append1 list_all2_Cons1)
  from ok(2) obtain p ws where p: "l = p @ ws" "list_all is_space ws" "p \<noteq> []" "\<not> is_space (last p)"
      "hd p = hd l" "reads_as p e" "CHR 0x0A \<notin> set l" unfolding line_ok_def by blast
  let ?ls = "map ?cr L' @ [p]"
  have whole: "concat (map (\<lambda>l. l @ crlf) L) @ crlf = [] @ intercalate CHR 0x0A ?ls @ (ws @ crlf @ crlf)"
    using concat_lines [of L] by (simp add: L p(1) intercalate_snoc)
  have ne: "intercalate CHR 0x0A ?ls \<noteq> []" and lst: "last (intercalate CHR 0x0A ?ls) = last p"
    using p(3) by (induction L') (auto simp: intercalate_Cons)
  have hd: "hd (intercalate CHR 0x0A ?ls) = hd (hd L)"
  proof (cases L')
    case Nil
    then show ?thesis using p(5) by (simp add: L)
  next
    case (Cons a x)
    then have "a \<noteq> []" using ok(1) by (auto simp: list_all2_Cons1 line_ok_def)
    then show ?thesis using Cons by (simp add: L intercalate_Cons)
  qed
  have "strip is_space ([] @ intercalate CHR 0x0A ?ls @ (ws @ crlf @ crlf)) = intercalate CHR 0x0A ?ls"
    using ne lst hd assms(3) p(2,4) by (intro strip_middle) (auto simp: crlf_def cr_space)
  moreover have "list_all2 reads_as ?ls es"
    unfolding es using ok(1) p(6)
    by (intro list_all2_appendI) (auto simp: list_all2_map1 line_ok_def elim: list_all2_mono)
  moreover have "\<forall>l \<in> set ?ls. CHR 0x0A \<notin> set l"
  proof -
    have "\<forall>l \<in> set L'. CHR 0x0A \<notin> set l" using ok(1) by (induction L' es' rule: list_all2_induct) (auto simp: line_ok_def)
    then show ?thesis using p(1,7) by auto
  qed
  ultimately show ?thesis unfolding whole space_trim_strip by blast
qed

lemma map_of_filter_found:
  "map_of (filter (\<lambda>e. text_find p (fst e) = None) m) k = (if text_find p k = None then map_of m k else None)"
  by (induction m) auto

lemma reads_as_headers:
  "list_all2 reads_as ls (map Some hs) \<Longrightarrow>
   list_all2 (\<lambda>l e. split_entry CHR '':'' True l = Some e) ls hs \<and> (\<forall>h \<in> set hs. text_find ''HTTP/1.1'' (fst h) = None)"
  by (induction hs arbitrary: ls) (auto simp: list_all2_Cons2 reads_as_def)

text \<open>
  C27: the header map read from a well-formed response head is the header list that was sent: for
  every status line and every list of headers with trimmed names and values, in CRLF-terminated
  lines closed by an empty line, \<^verbatim>\<open>build_headers_from_str\<close> finds for each name the first value
  sent under it, no more and no less, and the status line leaves no entry behind.
\<close>

theorem headers_read_back:
  assumes "list_all header_ok hs" "CHR 0x0A \<notin> set reason"
  shows "map_of (build_headers_from_str (response_head reason hs)) = map_of hs"
proof -
  let ?L = "(''HTTP/1.1 '' @ reason) # map header_line hs"
  have "list_all2 line_ok ?L (None # map Some hs)"
    using assms status_line_ok header_line_ok by (auto simp: list_all2_map1 list_all2_map2 list_all2_same list_all_iff)
  then obtain ls where ls: "space_trim (response_head reason hs) = intercalate CHR 0x0A ls"
      "\<forall>l \<in> set ls. CHR 0x0A \<notin> set l" "list_all2 reads_as ls (None # map Some hs)"
    using lines_read [of ?L "None # map Some hs"] unfolding response_head_def by (auto simp: is_space_def)
  then obtain l ls' n v where l: "ls = l # ls'" "split_entry CHR '':'' True l = Some (n, v)" "text_find ''HTTP/1.1'' n \<noteq> None"
      and ls': "list_all2 reads_as ls' (map Some hs)"
    by (auto simp: list_all2_Cons2 reads_as_def)
  from ls' have hs: "list_all2 (\<lambda>l e. split_entry CHR '':'' True l = Some e) ls' hs"
      "\<forall>h \<in> set hs. text_find ''HTTP/1.1'' (fst h) = None" using reads_as_headers by blast+
  have cut: "split_vec (space_trim (response_head reason hs)) CHR 0x0A = ls"
    using ls split_vec.split_join [of ls "CHR 0x0A"] by (simp add: l(1))
  obtain r where r: "split_map_lines CHR '':'' True ls [] = (0, r)" "map_of r = map_of ((n, v) # hs)"
    using split_map_lines_map [of "CHR '':''" ls "(n, v) # hs" "[]"] hs(1) l by auto
  have "map_of (build_headers_from_str (response_head reason hs)) k = map_of hs k" for k
  proof (cases "text_find ''HTTP/1.1'' k = None")
    case True
    then show ?thesis using l(3) by (auto simp: build_headers_from_str_def split_map_def cut r map_of_filter_found)
  next
    case False
    then have "map_of hs k = None" using hs(2) by (auto simp: map_of_eq_None_iff)
    then show ?thesis using False by (auto simp: build_headers_from_str_def split_map_def cut r map_of_filter_found)
  qed
  then show ?thesis by blast
qed

theorem headers_read_back_witness:
  "map_of (build_headers_from_str (response_head ''200 OK'' [(''Server'', ''x:1''), (''Age'', '''')])) =
   map_of [(''Server'', ''x:1''), (''Age'', '''')]"
  by (rule headers_read_back) (simp_all add: header_ok_def strip_def is_space_def text_find.simps)

end
