(* ===== verification/Log_Api.thy ===== *)
theory Log_Api
  imports String_Util
begin

unbundle bit_operations_syntax

section \<open>The logging interface (log/src/logapi.cpp, log4cpp.cpp, log.cpp)\<close>

text \<open>
  Levels and their filter, the entry points that format a message, and the receiver that
  writes messages through log4cpp.  What leaves the component is a list of calls of
  \<^verbatim>\<open>append_log\<close>; formatting with \<^verbatim>\<open>vsnprintf\<close> is an argument, as are log4cpp and the file system.
\<close>

subsection \<open>Levels\<close>

datatype log_level = NOT_SET | DEBUG | INFO | NOTICE | WARNING | ERROR | FATAL | NOTIFY

fun level_value :: "log_level \<Rightarrow> int" where
  "level_value NOT_SET = 0x00"
| "level_value DEBUG = 0x01"
| "level_value INFO = 0x02"
| "level_value NOTICE = 0x04"
| "level_value WARNING = 0x08"
| "level_value ERROR = 0x10"
| "level_value FATAL = 0x20"
| "level_value NOTIFY = 0x40"

record 'cb log_api =
  s_log_level :: log_level
  s_log_flags :: int
  s_default_log_level :: log_level
  g_callback :: "'cb option"

text \<open>The loop of \<^verbatim>\<open>check_level\<close>: \<^verbatim>\<open>i\<close> is incremented when the condition is evaluated.\<close>

function check_level_loop :: "int \<Rightarrow> nat \<Rightarrow> int \<Rightarrow> int" where
  "check_level_loop level i chk =
     (if i < 16 \<and> level AND 2 ^ i = 0 then check_level_loop level (Suc i) (chk AND NOT (2 ^ Suc i - 1)) else chk)"
  by auto
termination
  by (relation "measure (\<lambda>(_, i, _). 16 - i)") auto

declare check_level_loop.simps [simp del]

definition check_level :: "'cb log_api \<Rightarrow> 'cb log_api" where
  "check_level s = s\<lparr>s_log_flags := check_level_loop (level_value (s_log_level s)) 0 0xffff\<rparr>"

definition new_log_api :: "'cb log_api" where
  "new_log_api = check_level \<lparr>s_log_level = INFO, s_log_flags = 0, s_default_log_level = INFO, g_callback = None\<rparr>"

definition log_set_callback :: "'cb option \<Rightarrow> 'cb log_api \<Rightarrow> 'cb option \<times> 'cb log_api" where
  "log_set_callback callback s = (g_callback s, s\<lparr>g_callback := callback\<rparr>)"

definition set_default_log_level :: "log_level \<Rightarrow> 'cb log_api \<Rightarrow> log_level \<times> 'cb log_api" where
  "set_default_log_level level s = (s_default_log_level s, s\<lparr>s_default_log_level := level\<rparr>)"

definition set_log_level :: "log_level \<Rightarrow> 'cb log_api \<Rightarrow> log_level \<times> 'cb log_api" where
  "set_log_level level s = (s_log_level s, check_level (s\<lparr>s_log_level := level\<rparr>))"

definition get_log_level :: "'cb log_api \<Rightarrow> log_level" where
  "get_log_level s = s_log_level s"

definition reset_log_level :: "'cb log_api \<Rightarrow> log_level \<times> 'cb log_api" where
  "reset_log_level s =
     (let s' = check_level (s\<lparr>s_log_level := s_default_log_level s\<rparr>) in (get_log_level s', s'))"

definition is_log_level_enabled :: "log_level \<Rightarrow> 'cb log_api \<Rightarrow> bool" where
  "is_log_level_enabled level s \<longleftrightarrow> level = NOTIFY \<or> s_log_flags s AND level_value level \<noteq> 0"

subsection \<open>Entry points\<close>

text \<open>A call of \<^verbatim>\<open>append_log\<close>: level, module, title and text.\<close>

type_synonym log_call = "log_level \<times> string \<times> string \<times> string"

definition report_log :: "log_level \<Rightarrow> string \<Rightarrow> string \<Rightarrow> string \<Rightarrow> 'cb log_api \<Rightarrow> log_call list" where
  "report_log level module title msg s = (if is_log_level_enabled level s then [(level, module, title, msg)] else [])"

text \<open>
  \<open>formatted\<close> is what \<^verbatim>\<open>vsnprintf\<close> would write without a limit; the buffer holds 4095 characters
  and a NUL.  \<open>buf\<close>: whether \<^verbatim>\<open>calloc\<close> gave a buffer.
\<close>

definition v_log_log :: "bool \<Rightarrow> log_level \<Rightarrow> string \<Rightarrow> string \<Rightarrow> string \<Rightarrow> 'cb log_api \<Rightarrow> log_call list" where
  "v_log_log buf level module title formatted s =
     (if is_log_level_enabled level s \<and> buf then report_log level module title (c_str (take 4095 formatted)) s else [])"

definition log_log :: "bool \<Rightarrow> log_level \<Rightarrow> string \<Rightarrow> string \<Rightarrow> string \<Rightarrow> 'cb log_api \<Rightarrow> log_call list" where
  "log_log buf level module title formatted s =
     (if is_log_level_enabled level s then v_log_log buf level module title formatted s else [])"

definition log_debug :: "bool \<Rightarrow> string \<Rightarrow> string \<Rightarrow> string \<Rightarrow> 'cb log_api \<Rightarrow> log_call list" where
  "log_debug buf module title formatted s =
     (if is_log_level_enabled DEBUG s then v_log_log buf DEBUG module title formatted s else [])"

definition log_info :: "bool \<Rightarrow> string \<Rightarrow> string \<Rightarrow> string \<Rightarrow> 'cb log_api \<Rightarrow> log_call list" where
  "log_info buf module title formatted s =
     (if is_log_level_enabled INFO s then v_log_log buf INFO module title formatted s else [])"

definition log_notice :: "bool \<Rightarrow> string \<Rightarrow> string \<Rightarrow> string \<Rightarrow> 'cb log_api \<Rightarrow> log_call list" where
  "log_notice buf module title formatted s =
     (if is_log_level_enabled NOTICE s then v_log_log buf NOTICE module title formatted s else [])"

definition log_warning :: "bool \<Rightarrow> string \<Rightarrow> string \<Rightarrow> string \<Rightarrow> 'cb log_api \<Rightarrow> log_call list" where
  "log_warning buf module title formatted s =
     (if is_log_level_enabled WARNING s then v_log_log buf WARNING module title formatted s else [])"

definition log_error :: "bool \<Rightarrow> string \<Rightarrow> string \<Rightarrow> string \<Rightarrow> 'cb log_api \<Rightarrow> log_call list" where
  "log_error buf module title formatted s =
     (if is_log_level_enabled ERROR s then v_log_log buf ERROR module title formatted s else [])"

definition log_fatal :: "bool \<Rightarrow> string \<Rightarrow> string \<Rightarrow> string \<Rightarrow> 'cb log_api \<Rightarrow> log_call list" where
  "log_fatal buf module title formatted s =
     (if is_log_level_enabled FATAL s then v_log_log buf FATAL module title formatted s else [])"

definition log_notify :: "bool \<Rightarrow> string \<Rightarrow> string \<Rightarrow> string \<Rightarrow> 'cb log_api \<Rightarrow> log_call list" where
  "log_notify buf module title formatted s =
     (if is_log_level_enabled NOTIFY s then v_log_log buf NOTIFY module title formatted s else [])"


subsection \<open>The log4cpp receiver\<close>

text \<open>\<^verbatim>\<open>align_string\<close>: at least one blank is appended, also to a message that is aligned.\<close>

definition align_string :: "string \<Rightarrow> int \<Rightarrow> string" where
  "align_string msg align =
     (if align \<le> 0 then msg
      else let align = (if align > 8 then 8 else align)
           in msg @ replicate (nat (align - int (length msg) mod align)) CHR '' '')"

definition long_of :: "int \<Rightarrow> int" where
  "long_of i = (i + 2 ^ 63) mod 2 ^ 64 - 2 ^ 63"

definition add_field :: "string \<Rightarrow> string \<Rightarrow> string" where
  "add_field msg field = align_string (msg @ '' '') 4 @ field"

definition log_message :: "string \<Rightarrow> string \<Rightarrow> string \<Rightarrow> int \<Rightarrow> string" where
  "log_message module title text' thrd_id =
     foldl add_field (show_int (long_of thrd_id)) [module, title, text']"

datatype priority = NOTSET_P | DEBUG_P | INFO_P | NOTICE_P | WARN_P | ERROR_P | FATAL_P | CRIT_P

fun from_log_level :: "log_level \<Rightarrow> priority" where
  "from_log_level NOT_SET = NOTSET_P"
| "from_log_level DEBUG = DEBUG_P"
| "from_log_level INFO = INFO_P"
| "from_log_level NOTICE = NOTICE_P"
| "from_log_level WARNING = WARN_P"
| "from_log_level ERROR = ERROR_P"
| "from_log_level FATAL = FATAL_P"
| "from_log_level NOTIFY = CRIT_P"

datatype 'cb log_output = Callback 'cb log_level string | Category string priority string

text \<open>\<open>existing\<close> are the names of the categories log4cpp knows; the root category has an empty name.\<close>

definition on_receive_log ::
  "string set \<Rightarrow> 'cb log_api \<Rightarrow> log_level \<Rightarrow> string \<Rightarrow> string \<Rightarrow> string \<Rightarrow> int \<Rightarrow> int \<times> 'cb log_output" where
  "on_receive_log existing s level module title text' thrd_id =
     (let msg = log_message module title text' thrd_id
      in (0, case g_callback s of
               Some cb \<Rightarrow> Callback cb level (c_str msg)
             | None \<Rightarrow> Category (if title \<in> existing then title else []) (from_log_level level) (c_str msg)))"

definition notify_receive :: "(string \<Rightarrow> string \<Rightarrow> int) \<Rightarrow> log_level \<Rightarrow> string \<Rightarrow> string \<Rightarrow> int" where
  "notify_receive on_notify level module msg = (if level = NOTIFY then on_notify module msg else 0)"

subsection \<open>Starting and ending the module\<close>

datatype module_call = InitLog4cpp | LogInit | RegLog4cpp | UnregLog4cpp | LogTerm | TermLog4cpp

text \<open>The flag and the calls made, in order.\<close>

definition module_log_init :: "int \<Rightarrow> int \<times> module_call list" where
  "module_log_init flag = (if flag = 1 then (flag, []) else (1, [InitLog4cpp, LogInit, RegLog4cpp]))"

definition module_log_fini :: "int \<Rightarrow> int \<times> module_call list" where
  "module_log_fini flag = (if flag \<noteq> 0 then (0, [UnregLog4cpp, LogTerm, TermLog4cpp]) else (flag, []))"

text \<open>
  The configuration file of log4cpp: \<open>cwd\<close> is the real path of the working directory.  The
  default is written when the file is not there.
\<close>

definition get_config_file :: "string \<Rightarrow> string" where
  "get_config_file cwd = cwd @ ''/config.properties''"

definition default_cfg :: "string list" where
  "default_cfg =
     [''rootCategory=DEBUG, rootAppender'', ''appender.rootAppender=RollingFileAppender'',
      ''appender.rootAppender.maxFileSize=10485760'', ''appender.rootAppender.append=true'',
      ''appender.rootAppender.dailyRolling=true'', ''appender.rootAppender.maxBackupDays=180'',
      ''appender.rootAppender.maxBackupIndex=100'', ''appender.rootAppender.layout=PatternLayout'',
      ''appender.rootAppender.layout.ConversionPattern=%d'' @ [CHR 0x09] @ ''[%t]'' @ [CHR 0x09] @ ''%p'' @ [CHR 0x09] @ ''%m%n'']"

definition save_default_log4cpp_cfg :: "string \<Rightarrow> string" where
  "save_default_log4cpp_cfg cwd =
     concat (map (\<lambda>l. l @ [CHR 0x0A]) (default_cfg @ [''appender.rootAppender.fileName='' @ cwd @ ''/log/log.log'']))"

text \<open>What is written to the configuration file, and the path given to the configurator.\<close>

definition init_log4cpp :: "(string \<Rightarrow> bool) \<Rightarrow> string \<Rightarrow> string option \<times> string" where
  "init_log4cpp is_file cwd =
     (let cfg_path = get_config_file cwd
      in (if \<not> is_file cfg_path then Some (save_default_log4cpp_cfg cwd) else None, cfg_path))"

text \<open>
  The one receiver that writes to log4cpp: whether the host object exists and whether its
  receiver is attached.  Attaching constructs a \<^verbatim>\<open>CLogReceiver\<close>, which registers itself; detaching
  destroys it.
\<close>

record log4cpp_host =
  host_instance :: bool
  host_receiver :: bool

datatype host_call = RegisterReceiver | UnregisterReceiver | CloseAppenders

definition reg_log4cpp :: "log4cpp_host \<Rightarrow> int \<times> log4cpp_host \<times> host_call list" where
  "reg_log4cpp h =
     (let h = (if host_instance h then h else \<lparr>host_instance = True, host_receiver = False\<rparr>)
      in (1, h\<lparr>host_receiver := True\<rparr>, if host_receiver h then [] else [RegisterReceiver]))"

definition unreg_log4cpp :: "log4cpp_host \<Rightarrow> int \<times> log4cpp_host \<times> host_call list" where
  "unreg_log4cpp h =
     (if host_instance h then (1, h\<lparr>host_receiver := False\<rparr>, if host_receiver h then [UnregisterReceiver] else [])
      else (1, h, []))"

definition term_log4cpp :: "log4cpp_host \<Rightarrow> log4cpp_host \<times> host_call list" where
  "term_log4cpp h = (\<lparr>host_instance = False, host_receiver = False\<rparr>, [CloseAppenders])"

subsection \<open>The filter\<close>

lemma check_level_values:
  "check_level_loop (level_value NOT_SET) 0 0xffff = 0"
  "check_level_loop (level_value DEBUG) 0 0xffff = 0xffff"
  "check_level_loop (level_value INFO) 0 0xffff = 0xfffe"
  "check_level_loop (level_value NOTICE) 0 0xffff = 0xfffc"
  "check_level_loop (level_value WARNING) 0 0xffff = 0xfff8"
  "check_level_loop (level_value ERROR) 0 0xffff = 0xfff0"
  "check_level_loop (level_value FATAL) 0 0xffff = 0xffe0"
  "check_level_loop (level_value NOTIFY) 0 0xffff = 0xffc0"
  by (simp_all add: check_level_loop.simps)

lemma enabled_iff:
  assumes "s_log_flags s = check_level_loop (level_value (s_log_level s)) 0 0xffff"
  shows "is_log_level_enabled level s \<longleftrightarrow>
    level = NOTIFY \<or> s_log_level s \<noteq> NOT_SET \<and> level_value (s_log_level s) \<le> level_value level"
  unfolding is_log_level_enabled_def assms
  by (cases "s_log_level s"; cases level) (simp_all only: check_level_values, simp_all)

text \<open>The operations that change the state.\<close>

inductive api_step :: "'cb log_api \<Rightarrow> 'cb log_api \<Rightarrow> bool" where
  "api_step s (snd (set_log_level level s))"
| "api_step s (snd (reset_log_level s))"
| "api_step s (snd (set_default_log_level level s))"
| "api_step s (snd (log_set_callback callback s))"

definition flags_ok :: "'cb log_api \<Rightarrow> bool" where
  "flags_ok s \<longleftrightarrow> s_log_flags s = check_level_loop (level_value (s_log_level s)) 0 0xffff"

interpretation api: transition_system "\<lambda>s. s = new_log_api" api_step flags_ok
proof
  show "s = new_log_api \<Longrightarrow> flags_ok s" for s :: "'a log_api"
    by (simp add: new_log_api_def check_level_def flags_ok_def)
  show "flags_ok s \<Longrightarrow> api_step s t \<Longrightarrow> flags_ok t" for s t :: "'a log_api"
    by (erule api_step.cases)
       (auto simp: flags_ok_def set_log_level_def reset_log_level_def set_default_log_level_def
          log_set_callback_def check_level_def Let_def)
qed

text \<open>
  C36: after any sequence of changes of the level, the default level and the callback, a message
  is handed on exactly when its level is NOTIFY, or a level other than NOT_SET is set and the
  message's is at least that: once, with its level, module and title, and the first 4095
  characters of its text.  With NOT_SET nothing but NOTIFY passes.
\<close>

theorem level_filter:
  assumes "api_step\<^sup>*\<^sup>* new_log_api s"
  shows "log_log True level module title formatted s =
    (if level = NOTIFY \<or> s_log_level s \<noteq> NOT_SET \<and> level_value (s_log_level s) \<le> level_value level
     then [(level, module, title, c_str (take 4095 formatted))] else [])"
proof -
  have "flags_ok s" using api.inv_reachable [OF refl assms] .
  from enabled_iff [OF this [unfolded flags_ok_def], of level]
  show ?thesis by (simp add: log_log_def v_log_log_def report_log_def)
qed

theorem level_filter_witness:
  "log_log True INFO ''m'' ''t'' ''x'' (snd (set_log_level WARNING (new_log_api :: unit log_api))) = [] \<and>
   log_log True ERROR ''m'' ''t'' ''x'' (snd (set_log_level WARNING (new_log_api :: unit log_api))) =
     [(ERROR, ''m'', ''t'', ''x'')]"
proof -
  have "api_step\<^sup>*\<^sup>* new_log_api (snd (set_log_level WARNING (new_log_api :: unit log_api)))"
    by (intro r_into_rtranclp api_step.intros)
  from level_filter [OF this] show ?thesis
    by (simp add: set_log_level_def check_level_def c_str_def)
qed

subsection \<open>The layout of a message\<close>

lemma align_string_4:
  "\<exists>n. 1 \<le> n \<and> n \<le> 4 \<and> align_string msg 4 = msg @ replicate n CHR '' '' \<and> 4 dvd length msg + n"
proof (intro exI conjI)
  let ?n = "nat (4 - int (length msg) mod 4)"
  show "align_string msg 4 = msg @ replicate ?n CHR '' ''" by (simp add: align_string_def)
  have n: "int ?n = 4 - int (length msg) mod 4" by simp
  then show "1 \<le> ?n" "?n \<le> 4" by linarith+
  have "int (length msg + ?n) = 4 * (int (length msg) div 4 + 1)" unfolding of_nat_add n by (simp add: algebra_simps)
  then show "4 dvd length msg + ?n" by (metis dvd_triv_left int_dvd_int_iff of_nat_numeral)
qed

lemma add_field_layout:
  "\<exists>n. 2 \<le> n \<and> n \<le> 5 \<and> add_field msg field = msg @ replicate n CHR '' '' @ field \<and> 4 dvd length msg + n"
proof -
  obtain n where "1 \<le> n" "n \<le> 4" "align_string (msg @ '' '') 4 = (msg @ '' '') @ replicate n CHR '' ''"
    "4 dvd length (msg @ '' '') + n" using align_string_4 by blast
  then show ?thesis by (intro exI [of _ "Suc n"]) (simp add: add_field_def)
qed

text \<open>
  The text of a message: thread, module, title and text, each but the first starting in a
  column that is a multiple of four, with two to five blanks before it.
\<close>

lemma log_message_layout:
  "\<exists>a b c. {a, b, c} \<subseteq> {2..5} \<and>
     log_message module title text' t =
       show_int (long_of t) @ replicate a CHR '' '' @ module @ replicate b CHR '' '' @ title @ replicate c CHR '' '' @ text' \<and>
     4 dvd length (show_int (long_of t)) + a \<and> 4 dvd length (show_int (long_of t)) + a + length module + b \<and>
     4 dvd length (show_int (long_of t)) + a + length module + b + length title + c"
proof -
  let ?i = "show_int (long_of t)"
  obtain a where a: "2 \<le> a" "a \<le> 5" "add_field ?i module = ?i @ replicate a CHR '' '' @ module" "4 dvd length ?i + a"
    using add_field_layout by blast
  obtain b where b: "2 \<le> b" "b \<le> 5" "add_field (add_field ?i module) title = add_field ?i module @ replicate b CHR '' '' @ title"
    "4 dvd length (add_field ?i module) + b" using add_field_layout by blast
  let ?m = "add_field (add_field ?i module) title"
  obtain c where c: "2 \<le> c" "c \<le> 5" "add_field ?m text' = ?m @ replicate c CHR '' '' @ text'" "4 dvd length ?m + c"
    using add_field_layout by blast
  show ?thesis
    using a b c by (intro exI [of _ a] exI [of _ b] exI [of _ c]) (simp add: log_message_def add.assoc)
qed

end
