(* ===== verification/Sync.thy ===== *)
theory Sync
  imports Prelude "HOL-Library.Signed_Division"
begin

section \<open>Events, semaphores, critical sections (utils/src/event.cpp, semaphore.cpp, critsec.cpp, scopedlock.cpp)\<close>

text \<open>
  The state each object guards with its own mutex, and its operations as they run inside that
  mutex.  A \<^verbatim>\<open>wait\<close> that cannot return at once gives the mutex up in between: it is split
  into the part before (\<open>None\<close>: it blocks) and the part after, which sees whatever the
  other threads left.  A critical section is the thread that owns it.
\<close>

subsection \<open>Operations\<close>

record sync_event =
  setted :: bool
  manual :: bool

definition new_event :: "bool \<Rightarrow> bool \<Rightarrow> sync_event" where
  "new_event initially_own manual_reset = \<lparr>setted = initially_own, manual = manual_reset\<rparr>"

definition set_event :: "sync_event \<Rightarrow> sync_event" where
  "set_event e = e\<lparr>setted := True\<rparr>"

definition reset_event :: "sync_event \<Rightarrow> sync_event" where
  "reset_event e = e\<lparr>setted := False\<rparr>"

definition event_wait_resume :: "sync_event \<Rightarrow> bool \<times> sync_event" where
  "event_wait_resume e = (if setted e then (True, if manual e then e else e\<lparr>setted := False\<rparr>) else (False, e))"

definition event_wait_enter :: "sync_event \<Rightarrow> (bool \<times> sync_event) option" where
  "event_wait_enter e = (if setted e then Some (True, if manual e then e else e\<lparr>setted := False\<rparr>) else None)"

text \<open>The counters are \<^verbatim>\<open>int\<close>; \<open>None\<close> is the overflow of the counter, which is undefined.\<close>

record semaphore =
  sem_count :: int
  sem_max_count :: int

definition new_semaphore :: "int \<Rightarrow> int \<Rightarrow> semaphore" where
  "new_semaphore init_count max_count = \<lparr>sem_count = to_int32 init_count, sem_max_count = to_int32 max_count\<rparr>"

definition sem_signal :: "semaphore \<Rightarrow> (int \<times> semaphore) option" where
  "sem_signal s =
     (let c = sem_count s + 1
      in if c < 2 ^ 31 then Some (c mod 2 ^ 64, s\<lparr>sem_count := c\<rparr>) else None)"

definition sem_wait_resume :: "semaphore \<Rightarrow> bool \<times> semaphore" where
  "sem_wait_resume s = (if sem_count s > 0 then (True, s\<lparr>sem_count := sem_count s - 1\<rparr>) else (False, s))"

definition sem_wait_enter :: "semaphore \<Rightarrow> (bool \<times> semaphore) option" where
  "sem_wait_enter s = (if sem_count s > 0 then Some (True, s\<lparr>sem_count := sem_count s - 1\<rparr>) else None)"

text \<open>\<^verbatim>\<open>while (sem.wait(0)) {}\<close>: each call that succeeds takes one.\<close>

definition sem_drain :: "semaphore \<Rightarrow> semaphore" where
  "sem_drain s = s\<lparr>sem_count := min 0 (sem_count s)\<rparr>"

function drain_loop :: "semaphore \<Rightarrow> semaphore" where
  "drain_loop s = (let (ok, s') = sem_wait_resume s in if ok then drain_loop s' else s')"
  by auto
termination
  by (relation "measure (nat \<circ> sem_count)") (auto simp: sem_wait_resume_def split: if_splits)

declare drain_loop.simps [simp del]

type_synonym 't critsec = "'t option"

definition crit_lock :: "'t \<Rightarrow> 't critsec \<Rightarrow> 't critsec option" where
  "crit_lock t m = (if m = None then Some (Some t) else None)"

definition crit_unlock :: "'t critsec \<Rightarrow> 't critsec" where
  "crit_unlock m = None"

subsection \<open>Deadlines\<close>

text \<open>
  Seconds and nanoseconds up to which a wait lasts.  \<^verbatim>\<open>CEvent\<close> and \<^verbatim>\<open>CSemaphore\<close> start from
  \<^verbatim>\<open>time(NULL)\<close>, whole seconds; \<^verbatim>\<open>CCritSec::timewait\<close> from \<^verbatim>\<open>gettimeofday\<close>.  \<^verbatim>\<open>/\<close> and \<^verbatim>\<open>%\<close> truncate
  towards zero.
\<close>

definition wait_deadline :: "int \<Rightarrow> int \<Rightarrow> int \<times> int" where
  "wait_deadline now time_out = (now + time_out sdiv 1000, (time_out smod 1000) * 1000000)"

definition timewait_nsec :: "int \<Rightarrow> int \<Rightarrow> int" where
  "timewait_nsec tv_usec timeout_ms = tv_usec * 1000 + (timeout_ms smod 1000) * 1000000"

definition timewait_deadline :: "int \<times> int \<Rightarrow> int \<Rightarrow> int \<times> int" where
  "timewait_deadline = (\<lambda>(tv_sec, tv_usec) timeout_ms.
     let nsec = timewait_nsec tv_usec timeout_ms
     in (tv_sec + nsec sdiv 1000000000 + timeout_ms sdiv 1000, nsec smod 1000000000))"

subsection \<open>Properties\<close>

lemma drain_loop_drains: "drain_loop s = sem_drain s"
proof (induction s rule: drain_loop.induct)
  case (1 s)
  then show ?case
    by (subst drain_loop.simps) (auto simp: sem_wait_resume_def sem_drain_def Let_def)
qed

lemma sdiv_pos: "0 \<le> (a :: int) \<Longrightarrow> 0 < b \<Longrightarrow> a sdiv b = a div b"
  by (cases "a = 0") (simp_all add: signed_divide_int_def)

lemma smod_pos: "0 \<le> (a :: int) \<Longrightarrow> 0 < b \<Longrightarrow> a smod b = a mod b"
  by (cases "a = 0") (simp_all add: signed_modulo_int_def)

text \<open>
  The deadlines of timed waits.  \<^verbatim>\<open>CCritSec::timewait\<close> waits until exactly the given number of
  milliseconds from now: the sum does not overflow an \<^verbatim>\<open>int\<close> and both fields are in range.
  \<^verbatim>\<open>CEvent::wait\<close> and \<^verbatim>\<open>CSemaphore::wait\<close> drop the fraction of the current second, so they end up to
  one second early, and a wait of less than the fraction not at all.
\<close>

theorem deadlines:
  assumes "0 \<le> tv_usec" "tv_usec < 1000000" "0 \<le> ms" "ms < 2 ^ 31"
  shows "\<bar>timewait_nsec tv_usec ms\<bar> < 2 ^ 31 \<and>
    (case timewait_deadline (tv_sec, tv_usec) ms of (s, ns) \<Rightarrow>
       0 \<le> ns \<and> ns < 1000000000 \<and> s * 1000000000 + ns = tv_sec * 1000000000 + tv_usec * 1000 + ms * 1000000) \<and>
    (case wait_deadline tv_sec ms of (s, ns) \<Rightarrow>
       0 \<le> ns \<and> ns < 1000000000 \<and>
       s * 1000000000 + ns + tv_usec * 1000 = tv_sec * 1000000000 + tv_usec * 1000 + ms * 1000000)"
proof -
  let ?n = "tv_usec * 1000 + ms mod 1000 * 1000000"
  have m: "0 \<le> ms mod 1000" "ms mod 1000 < 1000" by simp_all
  then have n: "0 \<le> ?n" "?n < 2 ^ 31" using assms by simp_all
  have nsec: "timewait_nsec tv_usec ms = ?n" using assms by (simp add: timewait_nsec_def smod_pos)
  have split2: "ms = ms div 1000 * 1000 + ms mod 1000" by simp
  have total: "q * 1000000000 + r = tv_usec * 1000 + b * 1000000 \<Longrightarrow> ms = a * 1000 + b \<Longrightarrow>
      (tv_sec + q + a) * 1000000000 + r = tv_sec * 1000000000 + tv_usec * 1000 + ms * 1000000" for q r a b :: int
    by (simp add: algebra_simps)
  have "(tv_sec + ?n div 1000000000 + ms div 1000) * 1000000000 + ?n mod 1000000000 =
      tv_sec * 1000000000 + tv_usec * 1000 + ms * 1000000"
    by (rule total [OF _ split2]) simp
  moreover have "(tv_sec + ms div 1000) * 1000000000 + ms mod 1000 * 1000000 = tv_sec * 1000000000 + ms * 1000000"
    using total [of 0 "tv_usec * 1000 + ms mod 1000 * 1000000", OF _ split2] by simp
  moreover have "timewait_deadline (tv_sec, tv_usec) ms = (tv_sec + ?n div 1000000000 + ms div 1000, ?n mod 1000000000)"
    using n(1) assms(3) by (simp add: timewait_deadline_def nsec sdiv_pos smod_pos Let_def)
  moreover have "wait_deadline tv_sec ms = (tv_sec + ms div 1000, ms mod 1000 * 1000000)"
    unfolding wait_deadline_def using assms by (simp add: sdiv_pos smod_pos)
  ultimately show ?thesis using n m unfolding nsec by simp
qed

theorem deadlines_witness:
  "timewait_deadline (10, 999999) 2001 = (13, 999000)  \<and> wait_deadline 10 2001 = (12, 1000000) \<and>
   (case timewait_deadline (10, 999999) 2001 of (s, ns) \<Rightarrow> s * 1000000000 + ns = 13000999000)"
  using deadlines [of 999999 2001 10]
  by (simp add: timewait_deadline_def wait_deadline_def timewait_nsec_def sdiv_pos smod_pos Let_def)

end
