(* ===== verification/Log_Registry.thy ===== *)
theory Log_Registry
  imports Log_Api Sync
begin

section \<open>Log receivers and threads (log/src/logimpl.cpp, logreceiver.cpp): who gets a message\<close>

text \<open>
  \<^verbatim>\<open>CLogThread\<close> with its receivers, and \<^verbatim>\<open>CLogImpl\<close>, which is such a thread itself and owns one
  more for every dedicated receiver.  A receiver is known by its callback and user data,
  compared byte by byte (\<open>'r\<close>).  Regular expressions and what a callback answers are
  arguments.  The queue and the dispatcher of a thread are in the theory on dispatching; here a
  thread is what registration sees of it.
\<close>

record log_item =
  li_level :: log_level
  li_module :: string
  li_title :: string
  li_log :: string
  li_thrd_id :: int

record 'r log_receiver =
  lr_recv :: 'r
  lr_dedicated_thread :: int
  lr_title :: string

text \<open>\<open>th_thread\<close>: \<^verbatim>\<open>_p_thread\<close> is not zero.  The constructor does not set it.\<close>

record 'r log_thread =
  th_receivers :: "'r log_receiver list"
  th_thread :: bool

record 'r log_impl =
  im_base :: "'r log_thread"
  im_thrds :: "'r log_thread list"

definition new_log_thread :: "bool \<Rightarrow> 'r log_thread" where
  "new_log_thread garbage = \<lparr>th_receivers = [], th_thread = garbage\<rparr>"

definition new_log_impl :: "bool \<Rightarrow> 'r log_impl" where
  "new_log_impl garbage = \<lparr>im_base = new_log_thread garbage, im_thrds = []\<rparr>"

text \<open>\<^verbatim>\<open>compile\<close> and \<^verbatim>\<open>exec\<close> of the regular expression of the title, as one predicate.\<close>

type_synonym regex = "string \<Rightarrow> string \<Rightarrow> bool"

definition reg_match :: "(string \<Rightarrow> bool) \<Rightarrow> regex \<Rightarrow> string \<Rightarrow> string \<Rightarrow> int" where
  "reg_match compiles re str rule = (if \<not> compiles rule then 0 else if re rule str then 1 else 0)"

definition receiver_match :: "regex \<Rightarrow> log_item \<Rightarrow> 'r log_receiver \<Rightarrow> bool" where
  "receiver_match re li lr \<longleftrightarrow> re (lr_title lr) (c_str (li_title li))"

subsection \<open>One thread\<close>

definition check_recv :: "'r log_receiver \<Rightarrow> 'r log_thread \<Rightarrow> bool" where
  "check_recv lr th \<longleftrightarrow> list_ex (\<lambda>x. lr_recv lr = lr_recv x) (th_receivers th)"

definition thread_register :: "'r log_receiver \<Rightarrow> 'r log_thread \<Rightarrow> int \<times> 'r log_thread" where
  "thread_register lr th =
     (if check_recv lr th then (1, th) else (0, th\<lparr>th_receivers := lr # th_receivers th\<rparr>))"

fun erase_recv :: "'r \<Rightarrow> 'r log_receiver list \<Rightarrow> int \<times> 'r log_receiver list" where
  "erase_recv recv [] = (0, [])"
| "erase_recv recv (lr # lrs) =
     (if recv = lr_recv lr then (1, lrs) else let (n, lrs') = erase_recv recv lrs in (n, lr # lrs'))"

definition thread_unregister :: "'r \<Rightarrow> 'r log_thread \<Rightarrow> int \<times> 'r log_thread" where
  "thread_unregister recv th =
     (let (n, lrs) = erase_recv recv (th_receivers th) in (n, th\<lparr>th_receivers := lrs\<rparr>))"

definition thread_match :: "regex \<Rightarrow> log_item \<Rightarrow> 'r log_thread \<Rightarrow> bool" where
  "thread_match re li th \<longleftrightarrow> list_ex (receiver_match re li) (th_receivers th)"

text \<open>The receivers called, in order: the first that answers other than zero is the last.\<close>

fun dispatch_to :: "('r \<Rightarrow> log_item \<Rightarrow> int) \<Rightarrow> log_item \<Rightarrow> 'r log_receiver list \<Rightarrow> 'r list" where
  "dispatch_to answer li [] = []"
| "dispatch_to answer li (lr # lrs) =
     lr_recv lr # (if answer (lr_recv lr) li \<noteq> 0 then [] else dispatch_to answer li lrs)"

definition do_dispatch :: "('r \<Rightarrow> log_item \<Rightarrow> int) \<Rightarrow> log_item \<Rightarrow> 'r log_thread \<Rightarrow> 'r list" where
  "do_dispatch answer li th = dispatch_to answer li (th_receivers th)"

text \<open>
  \<^verbatim>\<open>start\<close> creates a thread unless there seems to be one; \<open>spawn\<close> is whether \<^verbatim>\<open>pthread_create\<close> sets
  the handle.  \<^verbatim>\<open>stop\<close> forgets the thread.
\<close>

definition thread_start :: "bool \<Rightarrow> 'r log_thread \<Rightarrow> bool \<times> 'r log_thread" where
  "thread_start spawn th =
     (if th_thread th then (True, th) else (spawn, th\<lparr>th_thread := spawn\<rparr>))"

definition thread_stop :: "'r log_thread \<Rightarrow> int \<times> 'r log_thread" where
  "thread_stop th = (1, th\<lparr>th_thread := False\<rparr>)"

subsection \<open>All threads\<close>

definition new_receiver :: "'r \<Rightarrow> string option \<Rightarrow> int \<Rightarrow> 'r log_receiver" where
  "new_receiver recv title dedicated =
     \<lparr>lr_recv = recv, lr_dedicated_thread = dedicated,
      lr_title = (case title of None \<Rightarrow> ''*'' | Some t \<Rightarrow> if c_str t \<noteq> [] then c_str t else ''*'')\<rparr>"

definition impl_register_receiver :: "bool \<Rightarrow> bool \<Rightarrow> 'r log_receiver \<Rightarrow> 'r log_impl \<Rightarrow> int \<times> 'r log_impl" where
  "impl_register_receiver garbage spawn lr im =
     (if list_ex (check_recv lr) (im_thrds im) then (1, im)
      else if lr_dedicated_thread lr \<noteq> 0
      then let (_, th) = thread_register lr (new_log_thread garbage); (_, th) = thread_start spawn th
           in (0, im\<lparr>im_thrds := im_thrds im @ [th]\<rparr>)
      else let (n, b) = thread_register lr (im_base im) in (n, im\<lparr>im_base := b\<rparr>))"

definition impl_register :: "bool \<Rightarrow> bool \<Rightarrow> 'r \<Rightarrow> string option \<Rightarrow> int \<Rightarrow> 'r log_impl \<Rightarrow> int \<times> 'r log_impl" where
  "impl_register garbage spawn recv title dedicated im =
     (let (n, im') = impl_register_receiver garbage spawn (new_receiver recv title dedicated) im
      in if n = 0 then (0, im') else (1, im'))"

text \<open>
  The loop of \<^verbatim>\<open>unregister_receiver\<close>: after an erased thread the iterator already points to
  the next one, and the increment of the loop skips that.  Threads kept and threads stopped
  and deleted.
\<close>

fun unregister_loop :: "'r \<Rightarrow> 'r log_thread list \<Rightarrow> 'r log_thread list \<times> 'r log_thread list" where
  "unregister_loop recv [] = ([], [])"
| "unregister_loop recv (th # ths) =
     (let (n, th') = thread_unregister recv th
      in if n \<noteq> 0
         then (case ths of
                 [] \<Rightarrow> ([], [snd (thread_stop th')])
               | x # xs \<Rightarrow> let (kept, gone) = unregister_loop recv xs in (x # kept, snd (thread_stop th') # gone))
         else let (kept, gone) = unregister_loop recv ths in (th' # kept, gone))"

definition impl_unregister :: "'r \<Rightarrow> 'r log_impl \<Rightarrow> int \<times> 'r log_impl" where
  "impl_unregister recv im =
     (let (kept, gone) = unregister_loop recv (im_thrds im); (n, b) = thread_unregister recv (im_base im)
      in (n, im\<lparr>im_base := b, im_thrds := kept\<rparr>))"

text \<open>The threads a message is given to: the dedicated ones that match, and the shared one.\<close>

definition new_item :: "int \<Rightarrow> log_call \<Rightarrow> log_item" where
  "new_item self = (\<lambda>(level, module, title, msg).
     \<lparr>li_level = level, li_module = c_str module, li_title = c_str title, li_log = c_str msg, li_thrd_id = self\<rparr>)"

definition impl_append :: "regex \<Rightarrow> log_item \<Rightarrow> 'r log_impl \<Rightarrow> 'r log_thread list" where
  "impl_append re li im = filter (thread_match re li) (im_thrds im) @ [im_base im]"

definition impl_stop :: "'r log_impl \<Rightarrow> int \<times> 'r log_impl" where
  "impl_stop im = (let (n, b) = thread_stop (im_base im) in (n, im\<lparr>im_base := b, im_thrds := []\<rparr>))"

text \<open>\<^verbatim>\<open>register_log_receiver\<close>, \<^verbatim>\<open>unregister_log_receiver\<close>, \<^verbatim>\<open>log_init\<close> and \<^verbatim>\<open>log_term\<close> on the single instance.\<close>

definition log_instance :: "bool \<Rightarrow> 'r log_impl option \<Rightarrow> 'r log_impl" where
  "log_instance garbage inst = (case inst of None \<Rightarrow> new_log_impl garbage | Some im \<Rightarrow> im)"

definition register_log_receiver ::
  "bool \<Rightarrow> bool \<Rightarrow> 'r \<Rightarrow> string option \<Rightarrow> int \<Rightarrow> 'r log_impl option \<Rightarrow> int \<times> 'r log_impl option" where
  "register_log_receiver garbage spawn recv title dedicated inst =
     map_prod id Some (impl_register garbage spawn recv title dedicated (log_instance garbage inst))"

definition unregister_log_receiver :: "bool \<Rightarrow> 'r \<Rightarrow> 'r log_impl option \<Rightarrow> int \<times> 'r log_impl option" where
  "unregister_log_receiver garbage recv inst = map_prod id Some (impl_unregister recv (log_instance garbage inst))"

definition log_init :: "bool \<Rightarrow> bool \<Rightarrow> 'r log_impl option \<Rightarrow> bool \<times> 'r log_impl option" where
  "log_init garbage spawn inst =
     (let im = log_instance garbage inst; (r, b) = thread_start spawn (im_base im) in (r, Some (im\<lparr>im_base := b\<rparr>)))"

definition log_term :: "'r log_impl option \<Rightarrow> int \<times> 'r log_impl option" where
  "log_term inst = (case inst of None \<Rightarrow> (1, None) | Some im \<Rightarrow> (fst (impl_stop im), None))"

subsection \<open>The registry\<close>

text \<open>What registration is about: the shared receivers, newest first, and the dedicated ones.\<close>

definition recvs :: "'r log_thread \<Rightarrow> 'r list" where
  "recvs th = map lr_recv (th_receivers th)"

definition registry :: "'r log_impl \<Rightarrow> 'r list \<times> 'r list" where
  "registry im = (recvs (im_base im), concat (map recvs (im_thrds im)))"

definition reg_ok :: "'r log_impl \<Rightarrow> bool" where
  "reg_ok im \<longleftrightarrow> (case registry im of (sh, de) \<Rightarrow> distinct sh \<and> distinct de) \<and>
     (\<forall>th \<in> set (im_thrds im). length (recvs th) = 1)"

definition registry_add :: "'r \<Rightarrow> bool \<Rightarrow> 'r list \<times> 'r list \<Rightarrow> int \<times> 'r list \<times> 'r list" where
  "registry_add r dedicated = (\<lambda>(sh, de).
     if r \<in> set de then (1, sh, de)
     else if dedicated then (0, sh, de @ [r])
     else if r \<in> set sh then (1, sh, de) else (0, r # sh, de))"

definition registry_remove :: "'r \<Rightarrow> 'r list \<times> 'r list \<Rightarrow> int \<times> 'r list \<times> 'r list" where
  "registry_remove r = (\<lambda>(sh, de).
     (if r \<in> set sh then 1 else 0, filter (\<lambda>x. x \<noteq> r) sh, filter (\<lambda>x. x \<noteq> r) de))"

lemma check_recv_iff: "check_recv lr th \<longleftrightarrow> lr_recv lr \<in> set (recvs th)"
  by (auto simp: check_recv_def recvs_def list_ex_iff)

lemma recvs_start [simp]: "recvs (snd (thread_start spawn th)) = recvs th"
  by (simp add: thread_start_def recvs_def)

lemma recvs_stop [simp]: "recvs (snd (thread_stop th)) = recvs th"
  by (simp add: thread_stop_def recvs_def)

lemma recvs_new [simp]: "recvs (new_log_thread g) = []"
  by (simp add: new_log_thread_def recvs_def)

lemma thread_register_recvs:
  "thread_register lr th = (if lr_recv lr \<in> set (recvs th) then (1, th) else (0, th\<lparr>th_receivers := lr # th_receivers th\<rparr>))"
  by (simp add: thread_register_def check_recv_iff)

lemma register_refines:
  assumes "impl_register garbage spawn recv title dedicated im = (n, im')"
  shows "registry_add recv (dedicated \<noteq> 0) (registry im) = (n, registry im')"
  using assms
  by (auto simp: impl_register_def impl_register_receiver_def new_receiver_def registry_def registry_add_def
      list_ex_iff check_recv_iff thread_register_recvs thread_start_def recvs_def new_log_thread_def Let_def
      split: if_splits prod.splits)

lemma register_ok:
  assumes "reg_ok im" "impl_register garbage spawn recv title dedicated im = (n, im')"
  shows "reg_ok im'"
  using assms
  by (auto simp: impl_register_def impl_register_receiver_def new_receiver_def registry_def reg_ok_def
      list_ex_iff check_recv_iff thread_register_recvs thread_start_def recvs_def new_log_thread_def Let_def
      split: if_splits prod.splits)

lemma filter_other: "r \<notin> set xs \<Longrightarrow> filter (\<lambda>x. x \<noteq> r) xs = xs"
  by (induction xs) auto

lemma erase_recv_effect:
  "distinct (map lr_recv lrs) \<Longrightarrow> erase_recv r lrs = (n, lrs') \<Longrightarrow>
   n = (if r \<in> lr_recv ` set lrs then 1 else 0) \<and> map lr_recv lrs' = filter (\<lambda>x. x \<noteq> r) (map lr_recv lrs)"
proof (induction lrs arbitrary: n lrs')
  case (Cons lr lrs)
  show ?case
  proof (cases "r = lr_recv lr")
    case True
    then have "filter (\<lambda>x. x \<noteq> r) (map lr_recv lrs) = map lr_recv lrs"
      using Cons.prems by (intro filter_other) auto
    then show ?thesis using True Cons.prems by (simp del: filter_map)
  next
    case False
    then show ?thesis using Cons by (auto split: prod.splits)
  qed
qed simp

lemma unregister_effect:
  "distinct (recvs th) \<Longrightarrow> thread_unregister r th = (n, th') \<Longrightarrow>
   n = (if r \<in> set (recvs th) then 1 else 0) \<and> recvs th' = filter (\<lambda>x. x \<noteq> r) (recvs th)"
  by (auto simp: thread_unregister_def recvs_def dest: erase_recv_effect split: prod.splits)

text \<open>The thread that the loop skips holds another receiver, as receivers are distinct.\<close>

lemma unregister_loop_effect:
  assumes "distinct (concat (map recvs ths))" "\<forall>th \<in> set ths. length (recvs th) = 1"
    "unregister_loop r ths = (kept, gone)"
  shows "concat (map recvs kept) = filter (\<lambda>x. x \<noteq> r) (concat (map recvs ths)) \<and>
    (\<forall>th \<in> set kept. length (recvs th) = 1) \<and> (\<forall>th \<in> set gone. recvs th = [])"
  using assms
proof (induction r ths arbitrary: kept gone rule: unregister_loop.induct)
  case (2 r th ths)
  obtain x where x: "recvs th = [x]" using "2.prems"(2) by (cases "recvs th") auto
  obtain n th' where u: "thread_unregister r th = (n, th')" by (rule prod.exhaust)
  have e: "n = (if r = x then 1 else 0)" "recvs th' = filter (\<lambda>x. x \<noteq> r) [x]"
    using unregister_effect [OF _ u] x by auto
  show ?case
  proof (cases "r = x")
    case True
    have rest: "r \<notin> set (concat (map recvs ths))" using "2.prems"(1) x True by auto
    show ?thesis
    proof (cases ths)
      case Nil
      then show ?thesis using "2.prems"(3) u e True x rest by auto
    next
      case (Cons y ys)
      obtain k g where l: "unregister_loop r ys = (k, g)" by (rule prod.exhaust)
      have ih: "concat (map recvs k) = filter (\<lambda>x. x \<noteq> r) (concat (map recvs ys))"
        "\<forall>th \<in> set k. length (recvs th) = 1" "\<forall>th \<in> set g. recvs th = []"
        using "2.IH"(1) [OF refl u [symmetric] _ Cons _ _ l] "2.prems"(1,2) e True Cons by auto
      then show ?thesis
        using "2.prems" u e True x l Cons rest by (auto simp: filter_other)
    qed
  next
    case False
    obtain k g where l: "unregister_loop r ths = (k, g)" by (rule prod.exhaust)
    then show ?thesis using "2.IH"(2) [OF refl u [symmetric] _ _ _ l] "2.prems" u e False x by auto
  qed
qed simp

lemma unregister_refines:
  assumes "reg_ok im" "impl_unregister recv im = (n, im')"
  shows "registry_remove recv (registry im) = (n, registry im') \<and> reg_ok im'"
proof -
  obtain kept gone n' b where l: "unregister_loop recv (im_thrds im) = (kept, gone)"
    and b: "thread_unregister recv (im_base im) = (n', b)" by (meson prod.exhaust)
  have d: "distinct (recvs (im_base im))" "distinct (concat (map recvs (im_thrds im)))"
    "\<forall>th \<in> set (im_thrds im). length (recvs th) = 1" using assms(1) by (auto simp: reg_ok_def registry_def)
  from unregister_loop_effect [OF d(2,3) l] unregister_effect [OF d(1) b] d assms(2) show ?thesis
    by (auto simp: impl_unregister_def l b registry_remove_def registry_def reg_ok_def)
qed

inductive impl_step :: "'r log_impl \<Rightarrow> 'r log_impl \<Rightarrow> bool" where
  "impl_register garbage spawn recv title dedicated im = (n, im') \<Longrightarrow> impl_step im im'"
| "impl_unregister recv im = (n, im') \<Longrightarrow> impl_step im im'"
| "impl_stop im = (n, im') \<Longrightarrow> impl_step im im'"
| "thread_start spawn (im_base im) = (r, b) \<Longrightarrow> impl_step im (im\<lparr>im_base := b\<rparr>)"

interpretation impl: transition_system "\<lambda>im. im = new_log_impl garbage" impl_step reg_ok for garbage
proof
  show "im = new_log_impl garbage \<Longrightarrow> reg_ok im" for im :: "'r log_impl"
    by (simp add: new_log_impl_def reg_ok_def registry_def)
  fix im im' :: "'r log_impl" assume ok: "reg_ok im" and "impl_step im im'"
  from this(2) show "reg_ok im'"
  proof cases
    case 3
    then show ?thesis using ok by (auto simp: impl_stop_def thread_stop_def reg_ok_def registry_def recvs_def)
  next
    case 4
    then show ?thesis using ok by (auto simp: thread_start_def reg_ok_def registry_def recvs_def split: if_splits)
  qed (blast intro: register_ok [OF ok] dest: unregister_refines [OF ok])+
qed

lemma dedicated_dispatch:
  "length (th_receivers th) = 1 \<Longrightarrow> thread_match re li th \<longleftrightarrow> filter (receiver_match re li) (th_receivers th) \<noteq> [] \<Longrightarrow>
   (if thread_match re li th then do_dispatch answer li th else []) =
     map lr_recv (filter (receiver_match re li) (th_receivers th))"
  by (cases "th_receivers th") (auto simp: do_dispatch_def)

lemma dedicated_calls:
  "\<forall>th \<in> set ths. length (recvs th) = 1 \<Longrightarrow>
   concat (map (do_dispatch answer li) (filter (thread_match re li) ths)) =
     map lr_recv (filter (receiver_match re li) (concat (map th_receivers ths)))"
proof (induction ths)
  case (Cons th ths)
  then have "(if thread_match re li th then do_dispatch answer li th else []) =
      map lr_recv (filter (receiver_match re li) (th_receivers th))"
    by (intro dedicated_dispatch) (auto simp: recvs_def thread_match_def list_ex_iff filter_empty_conv)
  with Cons show ?case by (auto split: if_splits)
qed simp

text \<open>
  C22: however receivers were registered and removed before, registration implements a pair of
  lists: a receiver is refused exactly when it has a thread of its own, or shares the common
  one and asks for that again; removal takes it out of both lists wherever it is, though the
  answer only tells of the common one, and the thread that the removal loop skips never holds
  it.  A message goes to the dedicated receivers whose title matches, and to the
  shared ones, newest first, up to the first that claims it, whatever their titles.
\<close>

theorem registry_refines:
  assumes "impl_step\<^sup>*\<^sup>* (new_log_impl garbage) im"
  shows "map_prod id registry (impl_register g spawn r title dedicated im) = registry_add r (dedicated \<noteq> 0) (registry im) \<and>
    map_prod id registry (impl_unregister r im) = registry_remove r (registry im) \<and>
    concat (map (do_dispatch answer li) (impl_append re li im)) =
      map lr_recv (filter (receiver_match re li) (concat (map th_receivers (im_thrds im)))) @
      dispatch_to answer li (th_receivers (im_base im))"
proof -
  have ok: "reg_ok im" by (rule impl.inv_reachable [OF refl assms])
  then have "\<forall>th \<in> set (im_thrds im). length (recvs th) = 1" by (simp add: reg_ok_def)
  from dedicated_calls [OF this, of answer li re] show ?thesis
    using register_refines [of g spawn r title dedicated im] unregister_refines [OF ok, of r]
    by (cases "impl_register g spawn r title dedicated im"; cases "impl_unregister r im")
       (simp add: impl_append_def do_dispatch_def)
qed

theorem registry_refines_witness:
  "map_prod id registry (impl_unregister (1 :: nat) (snd (impl_register False True 1 None 0
      (snd (impl_register False True 1 None 1 (new_log_impl False)))))) = (0, [], [])"
proof -
  let ?im1 = "snd (impl_register False True (1 :: nat) None 1 (new_log_impl False))"
  let ?im2 = "snd (impl_register False True 1 None 0 ?im1)"
  have "impl_step (new_log_impl False) ?im1" "impl_step ?im1 ?im2" by (rule impl_step.intros(1), rule prod.collapse [symmetric])+
  then have reach: "impl_step\<^sup>*\<^sup>* (new_log_impl False) ?im2" by (meson r_into_rtranclp rtranclp_trans)
  have "registry ?im2 = ([], [1])"
    by (simp add: impl_register_def impl_register_receiver_def new_receiver_def registry_def new_log_impl_def recvs_def
        new_log_thread_def thread_register_def check_recv_def thread_start_def)
  with registry_refines [OF reach, of False True 1 None 0] show ?thesis by (simp add: registry_remove_def)
qed

end
