(* ===== verification/Log_Dispatch.thy ===== *)
theory Log_Dispatch
  imports Sync
begin

section \<open>The dispatcher of a log thread (log/src/logimpl.cpp): queue, start and stop\<close>

text \<open>
  A \<^verbatim>\<open>CLogThread\<close> at work: dispatcher threads, threads that append messages, and the thread
  that starts and stops it, which holds \<^verbatim>\<open>_lock_logs\<close> all the while.  A step is one access to the
  state the threads share: an operation of an event or of the semaphore, a flag, or a
  section under the lock that does not block inside.  Steps of different threads
  interleave freely.
\<close>

text \<open>
  Where a dispatcher is: before it notes that it has begun, before it sets the flag of the
  appenders, before \<^verbatim>\<open>_ev_quit.wait(0)\<close>, before \<^verbatim>\<open>_log_sync.wait(1000)\<close>, before it takes the lock to pop,
  before it calls the receivers, before it reports its end, gone.
\<close>

datatype 'i dispatcher = DBegin | DFlag | DQuit | DWait | DTake | DRun 'i | DEnd | DGone

text \<open>An appender has read the flag and is about to queue the message or to dispatch it itself.\<close>

datatype 'i appender = AIdle | AQueue 'i | ADirect 'i

text \<open>The controlling thread, inside \<^verbatim>\<open>start\<close> and inside \<^verbatim>\<open>stop\<close>.\<close>

datatype controller = CIdle | CStartQuit | CStartStopped | CStartThread | CStopWait | CStopReset | CStopClear

record 'i log_state =
  ls_logs :: "'i list"
  ls_sync :: semaphore
  ls_quit :: sync_event
  ls_stopped :: sync_event
  ls_thread :: bool
  ls_started :: bool
  ls_flag :: bool
  ls_locked :: "unit critsec"
  ls_dispatchers :: "'i dispatcher list"
  ls_appenders :: "nat \<Rightarrow> 'i appender"
  ls_controller :: controller

text \<open>\<open>garbage\<close>: whether the thread handle, which the constructor does not set, happens to be non-zero.\<close>

definition new_log_state :: "bool \<Rightarrow> 'i log_state" where
  "new_log_state garbage =
     \<lparr>ls_logs = [], ls_sync = new_semaphore 0 0x7fffffff, ls_quit = new_event False True, ls_stopped = new_event False True,
      ls_thread = garbage, ls_started = False, ls_flag = False, ls_locked = None, ls_dispatchers = [],
      ls_appenders = (\<lambda>_. AIdle), ls_controller = CIdle\<rparr>"

subsection \<open>The dispatcher\<close>

text \<open>One step of the loop of \<^verbatim>\<open>dispatch\<close>; \<open>None\<close>: blocked.\<close>

definition pop_log :: "'i log_state \<Rightarrow> 'i dispatcher \<times> 'i log_state" where
  "pop_log s =
     (case ls_logs s of [] \<Rightarrow> (DQuit, s) | li # lis \<Rightarrow> (DRun li, s\<lparr>ls_logs := lis\<rparr>))"

fun dispatcher_next :: "'i dispatcher \<Rightarrow> 'i log_state \<Rightarrow> ('i dispatcher \<times> 'i log_state) option" where
  "dispatcher_next DBegin s = Some (DFlag, s\<lparr>ls_started := True\<rparr>)"
| "dispatcher_next DFlag s = Some (DQuit, s\<lparr>ls_flag := True\<rparr>)"
| "dispatcher_next DQuit s =
     (let (quit, e) = event_wait_resume (ls_quit s) in Some (if quit then DEnd else DWait, s\<lparr>ls_quit := e\<rparr>))"
| "dispatcher_next DWait s =
     (let (ok, c) = sem_wait_resume (ls_sync s) in Some (if ok then DTake else DQuit, s\<lparr>ls_sync := c\<rparr>))"
| "dispatcher_next DTake s = (if crit_lock () (ls_locked s) = None then None else Some (pop_log s))"
| "dispatcher_next (DRun li) s = Some (DQuit, s)"
| "dispatcher_next DEnd s = Some (DGone, s\<lparr>ls_stopped := set_event (ls_stopped s)\<rparr>)"
| "dispatcher_next DGone s = None"

subsection \<open>Appending\<close>

definition append_begin :: "'i \<Rightarrow> 'i log_state \<Rightarrow> 'i appender" where
  "append_begin li s = (if ls_flag s then AQueue li else ADirect li)"

definition append_queue :: "'i \<Rightarrow> 'i log_state \<Rightarrow> 'i log_state option" where
  "append_queue li s =
     (if crit_lock () (ls_locked s) = None then None
      else map_option (\<lambda>(_, c). s\<lparr>ls_logs := ls_logs s @ [li], ls_sync := c\<rparr>) (sem_signal (ls_sync s)))"

subsection \<open>Starting and stopping\<close>

definition start_begin :: "'i log_state \<Rightarrow> 'i log_state option" where
  "start_begin s =
     map_option (\<lambda>l. s\<lparr>ls_locked := l, ls_sync := drain_loop (ls_sync s), ls_controller := CStartQuit\<rparr>)
       (crit_lock () (ls_locked s))"

definition stop_begin :: "'i log_state \<Rightarrow> 'i log_state option" where
  "stop_begin s =
     map_option
       (\<lambda>l. let s = s\<lparr>ls_locked := l\<rparr>
            in if ls_thread s
               then if ls_started s then s\<lparr>ls_quit := set_event (ls_quit s), ls_controller := CStopWait\<rparr>
                    else s\<lparr>ls_thread := False, ls_controller := CStopClear\<rparr>
               else s\<lparr>ls_controller := CStopClear\<rparr>)
       (crit_lock () (ls_locked s))"

fun controller_next :: "controller \<Rightarrow> 'i log_state \<Rightarrow> 'i log_state option" where
  "controller_next CIdle s = None"
| "controller_next CStartQuit s = Some (s\<lparr>ls_quit := reset_event (ls_quit s), ls_controller := CStartStopped\<rparr>)"
| "controller_next CStartStopped s = Some (s\<lparr>ls_stopped := reset_event (ls_stopped s), ls_controller := CStartThread\<rparr>)"
| "controller_next CStartThread s =
     (let s = s\<lparr>ls_locked := crit_unlock (ls_locked s), ls_controller := CIdle\<rparr>
      in Some (if ls_thread s then s
               else s\<lparr>ls_flag := False, ls_thread := True, ls_dispatchers := ls_dispatchers s @ [DBegin]\<rparr>))"
| "controller_next CStopWait s =
     (case event_wait_enter (ls_stopped s) of
        None \<Rightarrow> None
      | Some (_, e) \<Rightarrow> Some (s\<lparr>ls_stopped := e, ls_thread := False, ls_controller := CStopReset\<rparr>))"
| "controller_next CStopReset s = Some (s\<lparr>ls_quit := reset_event (ls_quit s), ls_controller := CStopClear\<rparr>)"
| "controller_next CStopClear s =
     Some (s\<lparr>ls_logs := [], ls_sync := drain_loop (ls_sync s), ls_locked := crit_unlock (ls_locked s),
             ls_controller := CIdle\<rparr>)"

subsection \<open>Steps\<close>

datatype 'i log_event = Queued 'i | Direct 'i | Popped 'i | Dispatched nat 'i | Dropped "'i list" | Stopping | Starting | Tau

inductive log_step :: "'i log_state \<Rightarrow> 'i log_event \<Rightarrow> 'i log_state \<Rightarrow> bool" where
  dispatch: "i < length (ls_dispatchers s) \<Longrightarrow> dispatcher_next (ls_dispatchers s ! i) s = Some (d, s') \<Longrightarrow>
    e = (case ls_dispatchers s ! i of DRun li \<Rightarrow> Dispatched i li | DTake \<Rightarrow> (case d of DRun li \<Rightarrow> Popped li | _ \<Rightarrow> Tau) | _ \<Rightarrow> Tau) \<Longrightarrow>
    log_step s e (s'\<lparr>ls_dispatchers := (ls_dispatchers s)[i := d]\<rparr>)"
| append_begin: "ls_appenders s j = AIdle \<Longrightarrow>
    log_step s Tau (s\<lparr>ls_appenders := (ls_appenders s)(j := append_begin li s)\<rparr>)"
| append_queue: "ls_appenders s j = AQueue li \<Longrightarrow> append_queue li s = Some s' \<Longrightarrow>
    log_step s (Queued li) (s'\<lparr>ls_appenders := (ls_appenders s)(j := AIdle)\<rparr>)"
| append_direct: "ls_appenders s j = ADirect li \<Longrightarrow>
    log_step s (Direct li) (s\<lparr>ls_appenders := (ls_appenders s)(j := AIdle)\<rparr>)"
| start_begin: "ls_controller s = CIdle \<Longrightarrow> start_begin s = Some s' \<Longrightarrow> log_step s Starting s'"
| stop_begin: "ls_controller s = CIdle \<Longrightarrow> stop_begin s = Some s' \<Longrightarrow> log_step s Stopping s'"
| control: "controller_next (ls_controller s) s = Some s' \<Longrightarrow>
    e = (case ls_controller s of CStopClear \<Rightarrow> Dropped (ls_logs s) | _ \<Rightarrow> Tau) \<Longrightarrow> log_step s e s'"

inductive_cases log_stepE: "log_step s e s'"

definition log_run :: "'i log_state \<times> 'i log_event list \<Rightarrow> 'i log_state \<times> 'i log_event list \<Rightarrow> bool" where
  "log_run = (\<lambda>(s, h) (s', h'). \<exists>e. log_step s e s' \<and> h' = h @ [e])"

text \<open>Steps by choice: which thread moves next.\<close>

datatype 'i choice = Dispatcher nat | Begin nat 'i | Queue nat | DirectCall nat | Start | Stop | Control

fun sched :: "'i choice \<Rightarrow> 'i log_state \<Rightarrow> ('i log_event \<times> 'i log_state) option" where
  "sched (Dispatcher i) s =
     (if i < length (ls_dispatchers s)
      then case dispatcher_next (ls_dispatchers s ! i) s of
             None \<Rightarrow> None
           | Some (d, s') \<Rightarrow>
               Some ((case ls_dispatchers s ! i of
                        DRun li \<Rightarrow> Dispatched i li | DTake \<Rightarrow> (case d of DRun li \<Rightarrow> Popped li | _ \<Rightarrow> Tau) | _ \<Rightarrow> Tau),
                     s'\<lparr>ls_dispatchers := (ls_dispatchers s)[i := d]\<rparr>)
      else None)"
| "sched (Begin j li) s =
     (case ls_appenders s j of
        AIdle \<Rightarrow> Some (Tau, s\<lparr>ls_appenders := (ls_appenders s)(j := append_begin li s)\<rparr>) | _ \<Rightarrow> None)"
| "sched (Queue j) s =
     (case ls_appenders s j of
        AQueue li \<Rightarrow> map_option (\<lambda>s'. (Queued li, s'\<lparr>ls_appenders := (ls_appenders s)(j := AIdle)\<rparr>)) (append_queue li s)
      | _ \<Rightarrow> None)"
| "sched (DirectCall j) s =
     (case ls_appenders s j of
        ADirect li \<Rightarrow> Some (Direct li, s\<lparr>ls_appenders := (ls_appenders s)(j := AIdle)\<rparr>) | _ \<Rightarrow> None)"
| "sched Start s = (if ls_controller s = CIdle then map_option (Pair Starting) (start_begin s) else None)"
| "sched Stop s = (if ls_controller s = CIdle then map_option (Pair Stopping) (stop_begin s) else None)"
| "sched Control s =
     map_option (Pair (case ls_controller s of CStopClear \<Rightarrow> Dropped (ls_logs s) | _ \<Rightarrow> Tau)) (controller_next (ls_controller s) s)"

fun sched_all :: "'i choice list \<Rightarrow> 'i log_state \<times> 'i log_event list \<Rightarrow> ('i log_state \<times> 'i log_event list) option" where
  "sched_all [] sh = Some sh"
| "sched_all (c # cs) (s, h) = (case sched c s of None \<Rightarrow> None | Some (e, s') \<Rightarrow> sched_all cs (s', h @ [e]))"

lemma sched_step: "sched c s = Some (e, s') \<Longrightarrow> log_step s e s'"
  by (cases c) (auto split: if_splits option.splits appender.splits prod.splits intro: log_step.intros)

lemma sched_all_run: "sched_all cs sh = Some sh' \<Longrightarrow> log_run\<^sup>*\<^sup>* sh sh'"
proof (induction cs sh rule: sched_all.induct)
  case (2 c cs s h)
  then obtain e s' where c: "sched c s = Some (e, s')" and r: "log_run\<^sup>*\<^sup>* (s', h @ [e]) sh'"
    by (auto split: option.splits)
  have "log_run (s, h) (s', h @ [e])" using sched_step [OF c] by (auto simp: log_run_def)
  then show ?case using r by (rule converse_rtranclp_into_rtranclp)
qed simp

subsection \<open>Order\<close>

fun queued :: "'i log_event list \<Rightarrow> 'i list" where
  "queued [] = []" | "queued (Queued x # h) = x # queued h" | "queued (_ # h) = queued h"

fun popped :: "'i log_event list \<Rightarrow> 'i list" where
  "popped [] = []" | "popped (Popped x # h) = x # popped h" | "popped (_ # h) = popped h"

fun dispatched :: "'i log_event list \<Rightarrow> 'i list" where
  "dispatched [] = []" | "dispatched (Dispatched _ x # h) = x # dispatched h" | "dispatched (_ # h) = dispatched h"

text \<open>What left the queue, for a dispatcher or because \<^verbatim>\<open>stop\<close> cleared it.\<close>

fun left_queue :: "'i log_event list \<Rightarrow> 'i list" where
  "left_queue [] = []"
| "left_queue (Popped x # h) = x # left_queue h"
| "left_queue (Dropped xs # h) = xs @ left_queue h"
| "left_queue (_ # h) = left_queue h"

lemma history_append [simp]:
  "queued (h @ h') = queued h @ queued h'" "popped (h @ h') = popped h @ popped h'"
  "dispatched (h @ h') = dispatched h @ dispatched h'" "left_queue (h @ h') = left_queue h @ left_queue h'"
  by (induction h rule: queued.induct, simp_all)

fun run_of :: "'i dispatcher \<Rightarrow> 'i list" where
  "run_of (DRun li) = [li]" | "run_of _ = []"

definition in_hand :: "'i log_state \<Rightarrow> 'i list" where
  "in_hand s = concat (map run_of (ls_dispatchers s))"

definition order_inv :: "'i log_state \<times> 'i log_event list \<Rightarrow> bool" where
  "order_inv = (\<lambda>(s, h). queued h = left_queue h @ ls_logs s \<and>
     (length (ls_dispatchers s) \<le> 1 \<longrightarrow> popped h = dispatched h @ in_hand s))"

text \<open>What a step of a dispatcher does to the queue and to the message in hand.\<close>

lemma dispatcher_next_effect:
  assumes "dispatcher_next d s = Some (d', s')"
  shows "(\<exists>li. d = DTake \<and> d' = DRun li \<and> ls_logs s = li # ls_logs s') \<or>
    (\<exists>li. d = DRun li \<and> d' = DQuit \<and> s' = s) \<or> (run_of d = [] \<and> run_of d' = [] \<and> ls_logs s' = ls_logs s)"
  using assms by (cases d) (auto simp: pop_log_def Let_def split: prod.splits list.splits if_splits)

lemma dispatcher_next_dispatchers:
  "dispatcher_next d s = Some (d', s') \<Longrightarrow> ls_dispatchers s' = ls_dispatchers s \<and> ls_appenders s' = ls_appenders s \<and>
     ls_controller s' = ls_controller s \<and> ls_locked s' = ls_locked s \<and> ls_thread s' = ls_thread s"
  by (cases d) (auto simp: pop_log_def Let_def split: prod.splits list.splits if_splits)

lemma controller_next_logs:
  "controller_next c s = Some s' \<Longrightarrow>
   ls_logs s' = (if c = CStopClear then [] else ls_logs s) \<and> length (ls_dispatchers s) \<le> length (ls_dispatchers s') \<and>
   in_hand s' = in_hand s"
  by (cases c) (auto simp: in_hand_def Let_def split: option.splits)

lemma one_dispatcher: "i < length ds \<Longrightarrow> length ds \<le> 1 \<Longrightarrow> i = 0 \<and> ds = [ds ! 0]" for ds :: "'a list"
  by (cases ds) auto

lemma log_step_order:
  assumes "order_inv (s, h)" "log_step s e s'"
  shows "order_inv (s', h @ [e])"
  using assms(2)
proof cases
  case (dispatch i d t)
  note [simp] = dispatch(1,4)
  have frame: "ls_dispatchers t = ls_dispatchers s" using dispatcher_next_dispatchers [OF dispatch(3)] by simp
  have one: "i = 0 \<and> ls_dispatchers s = [ls_dispatchers s ! 0]" if "length (ls_dispatchers s) \<le> 1"
    using one_dispatcher [OF dispatch(2) that] .
  from dispatcher_next_effect [OF dispatch(3)] show ?thesis
  proof (elim disjE exE conjE)
    fix li assume "ls_dispatchers s ! i = DTake" "d = DRun li" "ls_logs s = li # ls_logs t"
    then show ?thesis using assms(1) one by (auto simp: order_inv_def in_hand_def)
  next
    fix li assume "ls_dispatchers s ! i = DRun li" "d = DQuit" "t = s"
    then show ?thesis using assms(1) one by (auto simp: order_inv_def in_hand_def)
  next
    assume "run_of (ls_dispatchers s ! i) = []" "run_of d = []" "ls_logs t = ls_logs s"
    then show ?thesis using assms(1) one by (auto simp: order_inv_def in_hand_def split: dispatcher.splits)
  qed
next
  case control
  then show ?thesis using assms(1) controller_next_logs [OF control(1)]
    by (auto simp: order_inv_def split: controller.splits)
qed (use assms(1) in \<open>auto simp: order_inv_def in_hand_def append_queue_def start_begin_def stop_begin_def Let_def split: if_splits\<close>)

interpretation order: transition_system "\<lambda>sh. \<exists>g. sh = (new_log_state g, [])" log_run order_inv
proof
  show "\<exists>g. sh = (new_log_state g, []) \<Longrightarrow> order_inv sh" for sh :: "'i log_state \<times> 'i log_event list"
    by (auto simp: order_inv_def new_log_state_def in_hand_def)
  show "order_inv sh \<Longrightarrow> log_run sh th \<Longrightarrow> order_inv th" for sh th :: "'i log_state \<times> 'i log_event list"
    using log_step_order by (cases sh; cases th) (auto simp: log_run_def)
qed

text \<open>
  C21: whatever the interleaving, messages leave the queue of a log thread in the order in which
  they entered it, each once, for a dispatcher or dropped by \<^verbatim>\<open>stop\<close>; and as long as only one
  dispatcher was ever created, the receivers get exactly the messages taken, in that
  order, all but the one it has in hand.
\<close>

theorem log_order:
  assumes "log_run\<^sup>*\<^sup>* (new_log_state g, []) (s, h)"
  shows "queued h = left_queue h @ ls_logs s \<and>
    (length (ls_dispatchers s) \<le> 1 \<longrightarrow> popped h = dispatched h @ in_hand s)"
  using order.inv_reachable [OF _ assms] by (auto simp: order_inv_def)

theorem log_order_witness:
  "\<exists>s :: nat log_state. popped [Starting, Tau, Tau, Tau, Tau, Tau, Tau, Tau, Queued 7, Tau, Popped 7] = dispatched [] @ in_hand s"
proof -
  obtain s :: "nat log_state" where s: "sched_all [Start, Control, Control, Control, Dispatcher 0, Dispatcher 0, Begin 0 7, Dispatcher 0, Queue 0,
      Dispatcher 0, Dispatcher 0] (new_log_state False, []) =
      Some (s, [Starting, Tau, Tau, Tau, Tau, Tau, Tau, Tau, Queued 7, Tau, Popped 7])" "length (ls_dispatchers s) = 1"
    by (simp add: new_log_state_def start_begin_def append_begin_def append_queue_def pop_log_def set_event_def reset_event_def
        crit_lock_def crit_unlock_def drain_loop_drains sem_drain_def sem_signal_def
        event_wait_resume_def sem_wait_resume_def new_event_def new_semaphore_def to_int32_def)
  from log_order [OF sched_all_run [OF s(1)]] s(2) show ?thesis by (intro exI [of _ s]) simp
qed

subsection \<open>Stopping\<close>

definition log_steps :: "'i log_state \<Rightarrow> 'i log_state \<Rightarrow> bool" where
  "log_steps s s' \<longleftrightarrow> (\<exists>e. log_step s e s')"

text \<open>Only the controller takes the lock for longer than a step; both events stay set until reset.\<close>

definition stop_inv :: "'i log_state \<Rightarrow> bool" where
  "stop_inv s \<longleftrightarrow> (ls_locked s = None \<longleftrightarrow> ls_controller s = CIdle) \<and> manual (ls_quit s) \<and> manual (ls_stopped s) \<and>
     0 \<le> sem_count (ls_sync s) \<and> (ls_controller s = CStopWait \<longrightarrow> setted (ls_quit s))"

lemma dispatcher_next_events:
  "dispatcher_next d s = Some (d', s') \<Longrightarrow> manual (ls_quit s) \<Longrightarrow>
     ls_quit s' = ls_quit s \<and> (ls_stopped s' = ls_stopped s \<or> ls_stopped s' = set_event (ls_stopped s)) \<and>
     (0 \<le> sem_count (ls_sync s) \<longrightarrow> 0 \<le> sem_count (ls_sync s'))"
  by (cases d) (auto simp: pop_log_def event_wait_resume_def sem_wait_resume_def Let_def split: prod.splits list.splits if_splits)

lemmas event_ops = drain_loop_drains sem_drain_def sem_signal_def set_event_def reset_event_def event_wait_enter_def crit_lock_def crit_unlock_def

lemma controller_next_inv: "stop_inv s \<Longrightarrow> controller_next (ls_controller s) s = Some s' \<Longrightarrow> stop_inv s'"
  by (cases "ls_controller s") (auto simp: stop_inv_def event_ops Let_def split: option.splits if_splits)

lemma log_step_inv: "stop_inv s \<Longrightarrow> log_step s e s' \<Longrightarrow> stop_inv s'"
proof (erule log_stepE, goal_cases)
  case (1 i d t)
  then show ?case
    using dispatcher_next_dispatchers [OF 1(5)] dispatcher_next_events [OF 1(5)] by (auto simp: stop_inv_def set_event_def)
next
  case 7
  then show ?case using controller_next_inv by blast
qed (auto simp: stop_inv_def append_queue_def start_begin_def stop_begin_def event_ops Let_def split: if_splits)

interpretation stopping: transition_system "\<lambda>s. \<exists>g. s = new_log_state g" log_steps stop_inv
proof
  show "\<exists>g. s = new_log_state g \<Longrightarrow> stop_inv s" for s :: "'i log_state"
    by (auto simp: stop_inv_def new_log_state_def new_event_def new_semaphore_def to_int32_def)
  show "stop_inv s \<Longrightarrow> log_steps s t \<Longrightarrow> stop_inv t" for s t :: "'i log_state"
    unfolding log_steps_def using log_step_inv by blast
qed

text \<open>
  A state in which \<^verbatim>\<open>stop\<close> waits for good: it holds the lock, every dispatcher that is left wants
  the lock or is sure to, as there is a message for each that waits for one.
\<close>

definition doomed :: "'i log_state \<Rightarrow> bool" where
  "doomed s \<longleftrightarrow> ls_controller s = CStopWait \<and> \<not> setted (ls_stopped s) \<and>
     (\<forall>d \<in> set (ls_dispatchers s). d = DGone \<or> d = DTake \<or> d = DWait) \<and>
     int (length (filter (\<lambda>d. d = DWait) (ls_dispatchers s))) \<le> sem_count (ls_sync s)"

lemma length_filter_update:
  "i < length ds \<Longrightarrow> length (filter P (ds[i := d])) + (if P (ds ! i) then 1 else 0) = length (filter P ds) + (if P d then 1 else 0)"
proof (induction ds arbitrary: i)
  case (Cons x ds)
  then show ?case by (cases i) (force simp: ac_simps)+
qed simp

text \<open>While \<^verbatim>\<open>stop\<close> waits only dispatchers move.\<close>

lemma waiting_step:
  assumes "stop_inv s" "ls_controller s = CStopWait" "log_step s e s'"
  shows "(\<exists>i d t. i < length (ls_dispatchers s) \<and> dispatcher_next (ls_dispatchers s ! i) s = Some (d, t) \<and>
      s' = t\<lparr>ls_dispatchers := (ls_dispatchers s)[i := d]\<rparr>) \<or>
    (\<exists>a. s' = s\<lparr>ls_appenders := a\<rparr>) \<or> (setted (ls_stopped s) \<and> ls_controller s' = CStopReset)"
proof -
  have "crit_lock () (ls_locked s) = None" using assms(1,2) by (auto simp: stop_inv_def crit_lock_def)
  with assms(3,2) show ?thesis
    by (elim log_stepE) (auto simp: append_queue_def event_wait_enter_def split: if_splits)
qed

text \<open>A dispatcher while \<^verbatim>\<open>stop\<close> waits: the quit event is set and the lock is taken.\<close>

lemma waiting_dispatcher:
  assumes "stop_inv s" "ls_controller s = CStopWait" "dispatcher_next d s = Some (d', t)"
  shows "(d, d') \<in> {(DBegin, DFlag), (DFlag, DQuit), (DQuit, DEnd), (DEnd, DGone)} \<or> (\<exists>li. d = DRun li \<and> d' = DQuit) \<or>
      d = DWait \<and> d' = (if sem_count (ls_sync s) > 0 then DTake else DQuit)"
    and "sem_count (ls_sync t) = sem_count (ls_sync s) - (if d = DWait \<and> sem_count (ls_sync s) > 0 then 1 else 0)"
    and "setted (ls_stopped t) \<longleftrightarrow> setted (ls_stopped s) \<or> d = DEnd"
proof -
  have l: "crit_lock () (ls_locked s) = None" and q: "event_wait_resume (ls_quit s) = (True, ls_quit s)"
    using assms(1,2) by (auto simp: stop_inv_def crit_lock_def event_wait_resume_def)
  show "(d, d') \<in> {(DBegin, DFlag), (DFlag, DQuit), (DQuit, DEnd), (DEnd, DGone)} \<or> (\<exists>li. d = DRun li \<and> d' = DQuit) \<or>
      d = DWait \<and> d' = (if sem_count (ls_sync s) > 0 then DTake else DQuit)"
    using assms(3) l q by (cases d) (auto simp: sem_wait_resume_def)
  show "sem_count (ls_sync t) = sem_count (ls_sync s) - (if d = DWait \<and> sem_count (ls_sync s) > 0 then 1 else 0)"
    using assms(3) l q by (cases d) (auto simp: sem_wait_resume_def split: if_splits)
  show "setted (ls_stopped t) \<longleftrightarrow> setted (ls_stopped s) \<or> d = DEnd"
    using assms(3) l q by (cases d) (auto simp: sem_wait_resume_def set_event_def split: if_splits)
qed

lemma doomed_step:
  assumes "stop_inv s" "doomed s" "log_step s e s'"
  shows "doomed s'"
proof -
  have w: "ls_controller s = CStopWait" using assms(2) by (simp add: doomed_def)
  from waiting_step [OF assms(1) w assms(3)] show ?thesis
  proof (elim disjE exE conjE)
    fix i d t
    assume i: "i < length (ls_dispatchers s)" and n: "dispatcher_next (ls_dispatchers s ! i) s = Some (d, t)"
      and s': "s' = t\<lparr>ls_dispatchers := (ls_dispatchers s)[i := d]\<rparr>"
    have "ls_dispatchers s ! i = DGone \<or> ls_dispatchers s ! i = DTake \<or> ls_dispatchers s ! i = DWait"
      using assms(2) i by (auto simp: doomed_def)
    then have wait: "ls_dispatchers s ! i = DWait" using waiting_dispatcher(1) [OF assms(1) w n] by auto
    let ?n = "\<lambda>ds :: 'a dispatcher list. length (filter (\<lambda>d. d = DWait) ds)"
    have "0 < ?n (ls_dispatchers s)" using i wait by (auto simp: filter_empty_conv in_set_conv_nth)
    then have c: "0 < sem_count (ls_sync s)" using assms(2) unfolding doomed_def by linarith
    then have d: "d = DTake" using waiting_dispatcher(1) [OF assms(1) w n] wait by auto
    have "?n ((ls_dispatchers s)[i := d]) + 1 = ?n (ls_dispatchers s)"
      using length_filter_update [OF i, of "\<lambda>d. d = DWait" d] wait d by simp
    moreover have "sem_count (ls_sync t) = sem_count (ls_sync s) - 1" "setted (ls_stopped t) = setted (ls_stopped s)"
      using waiting_dispatcher(2,3) [OF assms(1) w n] wait c by simp_all
    moreover have "x = d \<or> x \<in> set (ls_dispatchers s)" if "x \<in> set ((ls_dispatchers s)[i := d])" for x
      using set_update_subset_insert that by fast
    ultimately show ?thesis
      using assms(2) d dispatcher_next_dispatchers [OF n] by (auto simp: doomed_def s')
  qed (use assms(2) in \<open>auto simp: doomed_def\<close>)
qed

lemma not_doomed_step:
  assumes "stop_inv s" "ls_controller s = CStopWait" "\<not> doomed s" "log_step s e s'"
  shows "\<not> doomed s'"
proof -
  from waiting_step [OF assms(1,2,4)] show ?thesis
  proof (elim disjE exE conjE)
    fix i d t
    assume i: "i < length (ls_dispatchers s)" and n: "dispatcher_next (ls_dispatchers s ! i) s = Some (d, t)"
      and s': "s' = t\<lparr>ls_dispatchers := (ls_dispatchers s)[i := d]\<rparr>"
    show ?thesis
    proof
      assume dm: "doomed s'"
      have d: "d = DGone \<or> d = DTake \<or> d = DWait" using dm i by (auto simp: doomed_def s' dest: set_update_memI)
      moreover have "d \<noteq> DGone" using dm waiting_dispatcher(1,3) [OF assms(1,2) n] by (auto simp: doomed_def s' split: if_splits)
      ultimately have wt: "ls_dispatchers s ! i = DWait" "d = DTake" "0 < sem_count (ls_sync s)"
        using waiting_dispatcher(1) [OF assms(1,2) n] by (auto split: if_splits)
      have "(\<forall>x \<in> set (ls_dispatchers s). x = DGone \<or> x = DTake \<or> x = DWait)"
      proof
        fix x assume "x \<in> set (ls_dispatchers s)"
        then obtain j where j: "j < length (ls_dispatchers s)" "x = ls_dispatchers s ! j" by (auto simp: in_set_conv_nth)
        show "x = DGone \<or> x = DTake \<or> x = DWait"
        proof (cases "j = i")
          case False
          then have "x \<in> set ((ls_dispatchers s)[i := d])" using j by (metis length_list_update nth_list_update_neq nth_mem)
          then show ?thesis using dm by (auto simp: doomed_def s')
        qed (use j wt in simp)
      qed
      moreover have "length (filter (\<lambda>d. d = DWait) ((ls_dispatchers s)[i := d])) + 1 = length (filter (\<lambda>d. d = DWait) (ls_dispatchers s))"
        using length_filter_update [OF i, of "\<lambda>d. d = DWait" d] wt by simp
      ultimately show False
        using dm assms(2,3) waiting_dispatcher(2,3) [OF assms(1,2) n] wt by (auto simp: doomed_def s')
    qed
  qed (use assms(2,3) in \<open>auto simp: doomed_def\<close>)
qed

text \<open>How many steps a dispatcher can still make while \<^verbatim>\<open>stop\<close> waits.\<close>

fun rank :: "'i dispatcher \<Rightarrow> nat" where
  "rank DBegin = 5" | "rank DFlag = 4" | "rank (DRun _) = 4" | "rank DWait = 4" | "rank DQuit = 3"
| "rank DEnd = 2" | "rank DTake = 1" | "rank DGone = 0"

lemma sum_list_update: "i < length xs \<Longrightarrow> sum_list (map f (xs[i := x])) + f (xs ! i) = sum_list (map f xs) + (f x :: nat)"
proof (induction xs arbitrary: i)
  case (Cons y ys)
  then show ?case by (cases i) (force simp: ac_simps)+
qed simp

lemma stopped_returns:
  assumes "stop_inv s" "ls_controller s = CStopWait" "setted (ls_stopped s)"
  shows "\<exists>u. log_steps\<^sup>*\<^sup>* s u \<and> ls_controller u = CIdle"
proof -
  let ?t = "s\<lparr>ls_thread := False, ls_controller := CStopReset\<rparr>"
  let ?u = "?t\<lparr>ls_quit := reset_event (ls_quit s), ls_controller := CStopClear\<rparr>"
  have "controller_next (ls_controller s) s = Some ?t"
    using assms by (simp add: event_wait_enter_def stop_inv_def)
  then have "log_steps s ?t" unfolding log_steps_def by (blast intro: log_step.control)
  moreover have "log_steps ?t ?u" unfolding log_steps_def by (rule exI, rule log_step.control) simp_all
  moreover have "log_steps ?u (the (controller_next CStopClear ?u))"
    unfolding log_steps_def by (rule exI, rule log_step.control) simp_all
  moreover have "ls_controller (the (controller_next CStopClear ?u)) = CIdle" by simp
  ultimately show ?thesis by (meson converse_rtranclp_into_rtranclp rtranclp.rtrancl_refl)
qed

lemma dispatcher_moves:
  assumes "stop_inv s" "ls_controller s = CStopWait" "\<not> doomed s" "\<not> setted (ls_stopped s)"
  shows "\<exists>i d t. i < length (ls_dispatchers s) \<and> dispatcher_next (ls_dispatchers s ! i) s = Some (d, t)"
proof -
  have "\<exists>d \<in> set (ls_dispatchers s). d \<noteq> DGone \<and> d \<noteq> DTake"
  proof (rule ccontr)
    assume "\<not> ?thesis"
    then have "(\<forall>d \<in> set (ls_dispatchers s). d = DGone \<or> d = DTake)" "filter (\<lambda>d. d = DWait) (ls_dispatchers s) = []"
      by (auto simp: filter_empty_conv)
    then show False using assms by (auto simp: doomed_def stop_inv_def)
  qed
  then obtain i where "i < length (ls_dispatchers s)" "ls_dispatchers s ! i \<noteq> DGone" "ls_dispatchers s ! i \<noteq> DTake"
    by (auto simp: in_set_conv_nth)
  then show ?thesis by (cases "ls_dispatchers s ! i") (force simp: Let_def split: prod.splits)+
qed

lemma stop_returns:
  "stop_inv s \<Longrightarrow> ls_controller s = CStopWait \<Longrightarrow> \<not> doomed s \<Longrightarrow> \<exists>u. log_steps\<^sup>*\<^sup>* s u \<and> ls_controller u = CIdle"
proof (induction "sum_list (map rank (ls_dispatchers s))" arbitrary: s rule: less_induct)
  case less
  show ?case
  proof (cases "setted (ls_stopped s)")
    case True
    then show ?thesis using stopped_returns less.prems by blast
  next
    case False
    obtain i d t where i: "i < length (ls_dispatchers s)" and n: "dispatcher_next (ls_dispatchers s ! i) s = Some (d, t)"
      using dispatcher_moves [OF less.prems False] by blast
    let ?s = "t\<lparr>ls_dispatchers := (ls_dispatchers s)[i := d]\<rparr>"
    obtain e where step: "log_step s e ?s" using log_step.dispatch [OF i n refl] by blast
    have "rank d < rank (ls_dispatchers s ! i)"
      using waiting_dispatcher(1) [OF less.prems(1,2) n] by (auto split: if_splits)
    then have "sum_list (map rank (ls_dispatchers ?s)) < sum_list (map rank (ls_dispatchers s))"
      using sum_list_update [OF i, of rank d] by simp
    moreover have "stop_inv ?s" "\<not> doomed ?s" using log_step_inv not_doomed_step less.prems step by blast+
    moreover have "ls_controller ?s = CStopWait" using dispatcher_next_dispatchers [OF n] less.prems(2) by simp
    ultimately obtain u where "log_steps\<^sup>*\<^sup>* ?s u" "ls_controller u = CIdle" using less.hyps by blast
    moreover have "log_steps s ?s" using step unfolding log_steps_def by blast
    ultimately show ?thesis by (meson converse_rtranclp_into_rtranclp)
  qed
qed

lemma doomed_forever: "log_steps\<^sup>*\<^sup>* s t \<Longrightarrow> stop_inv s \<Longrightarrow> doomed s \<Longrightarrow> doomed t"
proof (induction rule: rtranclp_induct)
  case (step t u)
  then have "stop_inv t" using stopping.inv_steps by blast
  then show ?case using step doomed_step unfolding log_steps_def by blast
qed

text \<open>Steps during which \<^verbatim>\<open>stop\<close> keeps waiting.\<close>

definition stop_waits :: "'i log_state \<Rightarrow> 'i log_state \<Rightarrow> bool" where
  "stop_waits s t \<longleftrightarrow> log_steps s t \<and> ls_controller t = CStopWait"

lemma stop_waits_kept:
  "stop_waits\<^sup>*\<^sup>* s t \<Longrightarrow> stop_inv s \<Longrightarrow> ls_controller s = CStopWait \<Longrightarrow> \<not> doomed s \<Longrightarrow>
   stop_inv t \<and> ls_controller t = CStopWait \<and> \<not> doomed t"
  by (induction rule: rtranclp_induct)
     (auto simp: stop_waits_def log_steps_def dest: not_doomed_step intro: log_step_inv)


lemma run_steps: "log_run\<^sup>*\<^sup>* sh sh' \<Longrightarrow> log_steps\<^sup>*\<^sup>* (fst sh) (fst sh')"
proof (induction rule: rtranclp_induct)
  case (step y z)
  then have "log_steps (fst y) (fst z)" by (cases y; cases z) (auto simp: log_run_def log_steps_def)
  with step.IH show ?case by (rule rtranclp.rtrancl_into_rtrancl)
qed simp

text \<open>Start; the dispatcher passes its check of the quit event; a message arrives and its token is taken; stop.\<close>

definition sample_run :: "nat choice list" where
  "sample_run = [Start, Control, Control, Control, Dispatcher 0, Dispatcher 0, Begin 0 7, Dispatcher 0, Queue 0,
     Dispatcher 0, Stop]"

lemma sample_run_doomed:
  "\<exists>s. log_run\<^sup>*\<^sup>* (new_log_state False, []) (s, [Starting, Tau, Tau, Tau, Tau, Tau, Tau, Tau, Queued 7, Tau, Stopping]) \<and>
     doomed s \<and> ls_logs s = [7 :: nat]"
proof -
  obtain s where s: "sched_all sample_run (new_log_state False, []) =
      Some (s, [Starting, Tau, Tau, Tau, Tau, Tau, Tau, Tau, Queued 7, Tau, Stopping])"
    and d: "doomed s \<and> ls_logs s = [7]"
    by (simp add: sample_run_def new_log_state_def start_begin_def stop_begin_def append_begin_def append_queue_def
        event_ops event_wait_resume_def sem_wait_resume_def new_event_def new_semaphore_def to_int32_def doomed_def)
  then show ?thesis using sched_all_run by blast
qed


end
