(* ===== verification/Spec2Isabelle.thy ===== *)
theory Spec2Isabelle
  imports Std_Map Base64 String_Util Path_Parser Thread_Pool Pipeline Config_Concat Config_Units Config_Validation
    Render_Parse Load_Outcome Config_Equality Http_Client Log_Registry Log_Dispatch
begin

text \<open>
  \<^bold>\<open>What the program is.\<close>  AsrServiceProxy is a server that forwards recordings to a speech
  recognition service over HTTP.  Its own code lies in four directories of
  \<^verbatim>\<open>src/AsrServiceProxy\<close>: \<^verbatim>\<open>app\<close> (start-up, command line and file settings, the client of the
  recognition service, the remote procedure), \<^verbatim>\<open>config\<close> (a library for the HOCON
  configuration language: readers, tokenizer, parser, values, merging, typed access,
  validation), \<^verbatim>\<open>utils\<close> (strings, base64, URLs, a thread pool, HTTP, inter-process
  communication) and \<^verbatim>\<open>log\<close>.

  \<^bold>\<open>How the parts interact.\<close>  A configuration is read as characters (\<^verbatim>\<open>FileReader\<close>,
  \<^verbatim>\<open>StringReader\<close>), split into tokens (\<^verbatim>\<open>TokenStream\<close>), parsed (\<^verbatim>\<open>ParseContext\<close>, which calls the
  path-expression parser for keys, concatenates adjacent values and merges repeated keys),
  and asked for settings by path (\<^verbatim>\<open>SimpleConfig\<close>, which converts types and parses sizes and
  durations).  \<^verbatim>\<open>main\<close> runs the pipeline: settings, service factory, token thread, server; each
  remote call uses the token the token thread holds.

  \<^bold>\<open>Conventions.\<close>  An exception of the source is the left side of a sum; \<open>config_exception\<close>
  has one constructor per class raised, and \<open>NullPointer\<close>, \<open>EndDereference\<close> and
  \<open>BadVariantGet\<close> stand for what is undefined behaviour or a foreign exception in the
  source.  \<open>tok_exception\<close> adds the tokenizer's own exception and the end of fuel.
  Machine integers are words in the base64 code and integers with the
  conversions written out elsewhere.  Code that is not in the repository is an argument:
  the conversion between text and double (\<open>fp_text\<close>), the file system, \<^verbatim>\<open>getopt\<close>, jsoncpp, libcurl,
  HMAC and the includer a user may install.  What a theorem needs of an argument is a
  named hypothesis, and its witness instantiates the argument.

  \<^bold>\<open>Theories and sources.\<close>
  \<^item> \<open>Prelude\<close>, \<open>Std_Map\<close>: characters and their C classification, decimal text, searching and
    stripping, the sum monad; \<^verbatim>\<open>std::map\<close> as an ordered association list.
  \<^item> \<open>Base64\<close> (utils/src/base64.cpp), \<open>String_Util\<close> (utils/src/utils.cpp), \<open>Url_Parser\<close>,
    \<open>Json_Utils\<close>, \<open>Thread_Pool\<close> (utils/include/thread_pool.hpp), \<open>Http_Client\<close> (http.hpp, http.cpp),
    \<open>Sync\<close> (event.cpp, semaphore.cpp, critsec.cpp).
  \<^item> \<open>Log_Api\<close> (logapi.cpp, log4cpp.cpp, log.cpp), \<open>Log_Registry\<close> and \<open>Log_Dispatch\<close> (logimpl.cpp):
    levels and message layout; who receives a message; the queue and its threads.
  \<^item> \<open>Config_Origin\<close>, \<open>Config_Util\<close>, \<open>Config_Path\<close>, \<open>Config_Value\<close>, \<open>Config_Token\<close>, \<open>Reader\<close>: the
    data of the configuration library (simple_config_origin.cpp, config_impl_util.cpp,
    path.cpp and path_builder.cpp, the value classes, tokens.cpp, the readers).
  \<^item> \<open>Tokenizer\<close> (tokenizer.cpp), with \<open>Token_Text\<close> and \<open>Token_Origins\<close> for proofs about what it
    makes of a given text and where its tokens come from.
  \<^item> \<open>Path_Parser\<close> and \<open>Config_Parser\<close> (parser.cpp); \<open>Parser_Safety\<close>, \<open>Parser_Values\<close> and
    \<open>Parser_Outcome\<close> hold the proofs about the parser.
  \<^item> \<open>Config_Object\<close>, \<open>Object_Paths\<close>, \<open>Config_Concat\<close> (simple_config_object.cpp,
    simple_config_list.cpp, abstract_config_value.cpp, abstract_config_object.cpp, the delayed
    merges, config_concatenation.cpp, config_reference.cpp): construction, falling back,
    lookup and update by path, concatenation, moving below a prefix.
  \<^item> \<open>Config_Render\<close> (the render methods and config_render_options.cpp); \<open>Render_Json\<close> and
    \<open>Render_Parse\<close> hold the proof that rendered values read back.
  \<^item> \<open>Config_Equality\<close> (variant_utils.hpp, misc_utils.hpp, the equals and hash_code methods).
  \<^item> \<open>Config_Loading\<close> (parseable.cpp, simple_includer.cpp, config_parse_options.cpp, config.cpp);
    \<open>Load_Agree\<close> and \<open>Load_Outcome\<close> hold the proof that loading ends well.
  \<^item> \<open>Simple_Config\<close>, \<open>Config_Units\<close>, \<open>Config_Validation\<close>, \<open>Double_Arith\<close> (simple_config.cpp,
    variant_utils.hpp): typed access, sizes and durations, validation.
  \<^item> \<open>App_Config\<close> (app/src/config.cpp), \<open>Asr_Service\<close> (bd_asr_service.cpp,
    asr_service_factory.cpp, asr_proxy_impl.cpp), \<open>Pipeline\<close> (pipeline.cpp, main.cpp).

  \<^bold>\<open>State and operations.\<close>  A class is a record or a datatype with its fields, an operation a
  function of the same name from the state to the result and the new state.  Values,
  origins and paths are immutable in the source and plain values here; where the source
  compares pointers to see whether a call returned its receiver, the model's call returns
  \<open>None\<close>.  The thread pool and the token thread are step relations over their critical
  sections; theorems quantify over every interleaving.  The run of the program is the
  sequence of its external calls.

  \<^bold>\<open>What the theorems show.\<close>
  \<^item> Parsing: every text ends in a well-formed value or an exception meant for the user
    (\<open>Parser_Outcome\<close>), and so does loading files that include each other, in cycles too
    (\<open>Load_Outcome\<close>, where the includers of the library are shown to meet the contract the parser
    relies on); tokenizing always ends and never overruns its look-ahead; the fast path
    routine is the full one; rendered paths, strings and whole values read back.
  \<^item> Values: falling back refines a merge of trees and is associative; every operation keeps
    values well formed, so the internal errors of the constructors are unreachable; setting
    and removing a path is seen at exactly that path; equality decides what two values say.
  \<^item> Typed access: what a request returns or raises for every path; numbers set are read
    back through every getter; which sizes and durations are understood; validation
    decides conformance to the reference configuration.
  \<^item> Utilities: base64 is the standard's group code and decodes back; splitting and joining,
    trimming, URI and URL parsing; the file reader reads the file's contents; what an HTTP
    conversation sends, collects and returns, and that response headers read back.
  \<^item> Concurrency: the thread pool starts tasks in order, each once; a joined pool has run them
    all; destruction ends; a call uses only a token that was granted; log messages are
    dispatched in order, and exactly when stopping the log thread deadlocks.
  \<^item> The program: precedence of settings, what clients are told, every outcome of a run.

  \<^bold>\<open>Locales.\<close>  \<open>transition_system\<close> (reachability and invariants, interpreted on the tokenizer,
  the pool, the token thread and the log threads), \<open>reader_spec\<close> (the two readers), \<open>ordered_map\<close> (\<^verbatim>\<open>std::map\<close>),
  \<open>delimited\<close> (splitting), \<open>key_builder\<close> (the path builder), \<open>trimming\<close>, and
  \<open>value_parsing\<close>, the contract of \<^verbatim>\<open>parse_value\<close> that the other methods of the parser rely on,
  interpreted on \<open>parse_value\<close> itself by induction on the depth.

  \<^bold>\<open>Bounds and fuel.\<close>  The mutual recursion of the tokenizer runs on two steps per character
  left, and tokens are at most two per character and three: both are proved enough.  The
  loops of the parser count rounds and its recursion counts the depth; a count above twice
  the size of the text and four is proved enough, so no theorem rests on running out.  Nested
  includes recurse over the levels left of the fifty the source allows.

  \<^bold>\<open>Not modelled.\<close>  Console and log output, sockets, shared memory and semaphores (thin
  wrappers of system calls), the third-party code and the generated protocol code under
  \<^verbatim>\<open>src\<close>; resolution of substitutions, of which the parts are listed with the manifest's components.
\<close>

end
